(* ===== verification/UavPrelude.thy ===== *)
theory UavPrelude
  imports Main "HOL-Library.Word"
begin

unbundle bit_operations_syntax

text \<open>
  Shared vocabulary of the development: the machine integer types of the C++ sources, the
  error codes of \<^verbatim>\<open>include/uavcan/error.hpp\<close>, the wrap-around arithmetic of the type
  \<^verbatim>\<open>unsigned\<close>, and generic facts on lists and words used by several components.
\<close>

section \<open>Machine integers\<close>

type_synonym u8 = "8 word"
type_synonym u16 = "16 word"
type_synonym u32 = "32 word"
type_synonym u64 = "64 word"

text \<open>
  The collections used by the component proofs: \<open>uav_defs\<close> holds unfolding equations of
  small accessors, \<open>uav_inv\<close> the invariant preservation facts.
\<close>

named_theorems uav_defs
named_theorems uav_inv

text \<open>
  \<^verbatim>\<open>unsigned\<close> is a 32-bit type; lengths and offsets of that type are natural numbers here,
  and every sum the code computes on them is taken modulo \<open>2 ^ 32\<close>.
\<close>

definition uadd :: "nat \<Rightarrow> nat \<Rightarrow> nat" where
  "uadd a b = (a + b) mod 2 ^ 32"

lemma uadd_small [simp]: "a + b < 2 ^ 32 \<Longrightarrow> uadd a b = a + b"
  by (simp add: uadd_def)

lemma uadd_lt: "uadd a b < 2 ^ 32"
  by (simp add: uadd_def)

section \<open>Error codes\<close>

text \<open>
  \<^verbatim>\<open>error.hpp\<close>: functions return a non-negative number on success and an inverted error code
  on failure.  The model returns a sum: \<open>Inl e\<close> for \<open>- e\<close>, \<open>Inr n\<close> for the number.
\<close>

datatype uavcan_error =
    ErrFailure
  | ErrInvalidParam
  | ErrMemory
  | ErrDriver
  | ErrUnknownDataType
  | ErrInvalidMarshalData
  | ErrInvalidTransferListener
  | ErrNotInited
  | ErrRecursiveCall
  | ErrLogic
  | ErrPassiveMode
  | ErrTransferTooLong
  | ErrInvalidConfiguration

text \<open>The numeric values of the codes.\<close>

fun err_code :: "uavcan_error \<Rightarrow> int" where
  "err_code ErrFailure = 1"
| "err_code ErrInvalidParam = 2"
| "err_code ErrMemory = 3"
| "err_code ErrDriver = 4"
| "err_code ErrUnknownDataType = 5"
| "err_code ErrInvalidMarshalData = 6"
| "err_code ErrInvalidTransferListener = 7"
| "err_code ErrNotInited = 8"
| "err_code ErrRecursiveCall = 9"
| "err_code ErrLogic = 10"
| "err_code ErrPassiveMode = 11"
| "err_code ErrTransferTooLong = 12"
| "err_code ErrInvalidConfiguration = 13"

text \<open>The \<^verbatim>\<open>int\<close> that the C++ function returns.\<close>

fun ret_int :: "uavcan_error + nat \<Rightarrow> int" where
  "ret_int (Inl e) = - err_code e"
| "ret_int (Inr n) = int n"

lemma err_code_pos: "0 < err_code e"
  by (cases e) auto

lemma ret_int_neg_iff: "ret_int r < 0 \<longleftrightarrow> (\<exists>e. r = Inl e)"
  using err_code_pos by (cases r) auto

lemma err_code_inj: "err_code a = err_code b \<longleftrightarrow> a = b"
  by (cases a; cases b) auto

lemma ret_int_inj: "ret_int a = ret_int b \<longleftrightarrow> a = b"
  using err_code_pos [of "projl a"] err_code_pos [of "projl b"]
  by (cases a; cases b) (auto simp: err_code_inj)

section \<open>Lists\<close>

lemma take_drop_nth_eq:
  "length xs = n \<Longrightarrow> length ys = n \<Longrightarrow> (\<And>i. i < n \<Longrightarrow> xs ! i = ys ! i) \<Longrightarrow> xs = ys"
  by (rule nth_equalityI) auto

text \<open>Overwriting a segment of a byte array: \<^verbatim>\<open>copy(data, data + len, dst + offset)\<close>.\<close>

definition overwrite :: "'a list \<Rightarrow> nat \<Rightarrow> 'a list \<Rightarrow> 'a list" where
  "overwrite dst off src = take off dst @ src @ drop (off + length src) dst"

lemma length_overwrite [simp]:
  "off + length src \<le> length dst \<Longrightarrow> length (overwrite dst off src) = length dst"
  by (simp add: overwrite_def)

lemma nth_overwrite:
  assumes "off + length src \<le> length dst" and "i < length dst"
  shows "overwrite dst off src ! i =
    (if off \<le> i \<and> i < off + length src then src ! (i - off) else dst ! i)"
  using assms by (auto simp: overwrite_def nth_append)

lemma take_overwrite_below:
  "n \<le> off \<Longrightarrow> off \<le> length dst \<Longrightarrow> take n (overwrite dst off src) = take n dst"
  by (simp add: overwrite_def min_def)

lemma overwrite_read:
  "off + length src \<le> length dst \<Longrightarrow>
    take (length src) (drop off (overwrite dst off src)) = src"
  by (simp add: overwrite_def)

lemma overwrite_Nil [simp]: "overwrite dst off [] = dst"
  by (simp add: overwrite_def)

lemma take_overwrite_append:
  "off + length src \<le> length dst \<Longrightarrow>
    take (off + length src) (overwrite dst off src) = take off dst @ src"
  by (simp add: overwrite_def)

text \<open>Updating the first element that satisfies a predicate, as a search loop followed by an
  assignment through the found pointer does.\<close>

fun update_first :: "('a \<Rightarrow> bool) \<Rightarrow> ('a \<Rightarrow> 'a) \<Rightarrow> 'a list \<Rightarrow> 'a list" where
  "update_first P f [] = []"
| "update_first P f (x # xs) = (if P x then f x # xs else x # update_first P f xs)"

lemma length_update_first [simp]: "length (update_first P f xs) = length xs"
  by (induction xs) auto

lemma update_first_none: "find P xs = None \<Longrightarrow> update_first P f xs = xs"
  by (induction xs) (auto split: if_splits)

lemma find_split:
  "List.find P xs = Some x \<Longrightarrow> \<exists>us vs. xs = us @ x # vs \<and> P x \<and> (\<forall>u \<in> set us. \<not> P u)"
proof (induction xs)
  case (Cons y ys)
  show ?case
  proof (cases "P y")
    case True
    then show ?thesis using Cons.prems by (intro exI [of _ "[]"] exI [of _ ys]) simp
  next
    case False
    then obtain us vs where "ys = us @ x # vs" "P x" "\<forall>u \<in> set us. \<not> P u"
      using Cons by auto
    then show ?thesis using False by (intro exI [of _ "y # us"] exI [of _ vs]) simp
  qed
qed simp

lemma find_append:
  "List.find P (xs @ ys) = (case List.find P xs of Some x \<Rightarrow> Some x | None \<Rightarrow> List.find P ys)"
  by (induction xs) auto

lemma find_None_all: "List.find P xs = None \<longleftrightarrow> (\<forall>x \<in> set xs. \<not> P x)"
  by (auto simp: find_None_iff)

lemma update_first_at:
  "\<forall>u \<in> set us. \<not> P u \<Longrightarrow> P v \<Longrightarrow> update_first P f (us @ v # vs) = us @ f v # vs"
  by (induction us) auto

text \<open>Removing the first element that satisfies a predicate.\<close>

fun remove_first :: "('a \<Rightarrow> bool) \<Rightarrow> 'a list \<Rightarrow> 'a list" where
  "remove_first P [] = []"
| "remove_first P (x # xs) = (if P x then xs else x # remove_first P xs)"

lemma remove_first_at:
  "\<forall>u \<in> set us. \<not> P u \<Longrightarrow> P v \<Longrightarrow> remove_first P (us @ v # vs) = us @ vs"
  by (induction us) auto

lemma remove_first_none: "\<forall>x \<in> set xs. \<not> P x \<Longrightarrow> remove_first P xs = xs"
  by (induction xs) auto

section \<open>Words\<close>

lemma bit_word_numeral_mask:
  "bit (w AND mask n) i \<longleftrightarrow> i < n \<and> bit (w :: 'a::len word) i"
  by (auto simp: bit_simps dest: bit_imp_le_length)

lemma unat_and_mask: "unat (w AND mask n) = unat (w :: 'a::len word) mod 2 ^ n"
  by (subst take_bit_eq_mask [symmetric], subst unsigned_take_bit_eq) (simp add: take_bit_eq_mod)

lemma word_eq_bitI: "(\<And>i. i < LENGTH('a) \<Longrightarrow> bit a i = bit b i) \<Longrightarrow> a = (b :: 'a::len word)"
  by (rule bit_word_eqI)

lemma unat_drop_bit: "unat (drop_bit n w) = unat (w :: 'a::len word) div 2 ^ n"
  by (subst unsigned_drop_bit_eq) (simp add: drop_bit_eq_div take_bit_nat_eq_self)

lemma unat_less_bit:
  assumes "unat (x :: 'a::len word) < 2 ^ n" and "bit x i"
  shows "i < n"
proof (rule ccontr)
  assume "\<not> i < n"
  then have "unat x < 2 ^ i"
    by (intro order.strict_trans2 [OF assms(1)] power_increasing) simp_all
  then have "\<not> bit (unat x) i" by (simp add: bit_iff_odd)
  then show False using assms(2) by (simp add: bit_simps)
qed

lemma unat_u8_lt: "unat (b :: u8) < 256"
  using unsigned_less [where ?'a = nat, of b] by simp

lemma unat_u16_lt: "unat (b :: u16) < 65536"
  using unsigned_less [where ?'a = nat, of b] by simp

lemma word_xor_cancel_right: "a XOR x = b XOR x \<longleftrightarrow> a = (b :: 'a::len word)"
proof
  assume "a XOR x = b XOR x"
  then have "(a XOR x) XOR x = (b XOR x) XOR x" by simp
  then show "a = b" by (simp add: xor.assoc)
qed simp

lemma word_xor_cancel_left: "x XOR a = x XOR b \<longleftrightarrow> a = (b :: 'a::len word)"
  using word_xor_cancel_right by (simp add: xor.commute [of x])

lemma word_xor_eq_0_iff: "a XOR b = 0 \<longleftrightarrow> a = (b :: 'a::len word)"
  using word_xor_cancel_right [of a b b] by simp

end
