(* ===== verification/UavTime.thy ===== *)
theory UavTime
  imports UavPrelude "HOL-Library.Signed_Division"
begin

text \<open>
  \<^verbatim>\<open>include/uavcan/time.hpp\<close>: \<^verbatim>\<open>DurationBase\<close> (a signed 64-bit count of microseconds) and
  \<^verbatim>\<open>TimeBase\<close> (an unsigned one).  A duration is an integer in the range of \<^verbatim>\<open>int64_t\<close>; every
  operation that may leave the range is wrapped by \<open>i64\<close>, as two's complement hardware does.
  Time plus duration saturates at both ends, and a difference can be added back.
\<close>

section \<open>Definitions\<close>

type_synonym duration = int
type_synonym time = u64

text \<open>Conversion to \<^verbatim>\<open>int64_t\<close>.\<close>

definition i64 :: "int \<Rightarrow> int" where
  "i64 x = (x + 2 ^ 63) mod 2 ^ 64 - 2 ^ 63"

definition dur_getInfinite :: duration where
  "dur_getInfinite = 2 ^ 63 - 1"

definition dur_fromMSec :: "int \<Rightarrow> duration" where
  "dur_fromMSec ms = i64 (ms * 1000)"

definition dur_toMSec :: "duration \<Rightarrow> int" where
  "dur_toMSec d = d sdiv 1000"

definition dur_getAbs :: "duration \<Rightarrow> duration" where
  "dur_getAbs d = (if d < 0 then i64 (- d) else d)"

definition dur_add :: "duration \<Rightarrow> duration \<Rightarrow> duration" where
  "dur_add a b = i64 (a + b)"

definition dur_sub :: "duration \<Rightarrow> duration \<Rightarrow> duration" where
  "dur_sub a b = i64 (a - b)"

definition dur_neg :: "duration \<Rightarrow> duration" where
  "dur_neg a = i64 (- a)"

definition dur_scale :: "duration \<Rightarrow> int \<Rightarrow> duration" where
  "dur_scale a k = i64 (a * k)"

definition time_getMax :: time where
  "time_getMax = - 1"

definition time_fromMSec :: "u64 \<Rightarrow> time" where
  "time_fromMSec ms = ms * 1000"

definition time_toMSec :: "time \<Rightarrow> u64" where
  "time_toMSec t = t div 1000"

text \<open>\<^verbatim>\<open>T operator+(const D&)\<close>, with its two saturation branches.\<close>

definition time_add :: "time \<Rightarrow> duration \<Rightarrow> time" where
  "time_add t d =
    (if d < 0 \<and> word_of_int (dur_getAbs d) > t then 0
     else if \<not> d < 0 \<and> word_of_int (i64 (sint t + d)) < t then - 1
     else word_of_int (i64 (sint t + d)))"

definition time_sub :: "time \<Rightarrow> duration \<Rightarrow> time" where
  "time_sub t d = time_add t (dur_neg d)"

text \<open>\<^verbatim>\<open>D operator-(const T&)\<close>.\<close>

definition time_diff :: "time \<Rightarrow> time \<Rightarrow> duration" where
  "time_diff a b =
    (if a > b then i64 (uint (a - b)) else i64 (- i64 (uint (b - a))))"

section \<open>Wrapping to int64\<close>

lemma i64_range: "- (2 ^ 63) \<le> i64 x \<and> i64 x < 2 ^ 63"
proof -
  have "0 \<le> (x + 2 ^ 63) mod 2 ^ 64" "(x + 2 ^ 63) mod 2 ^ 64 < 2 ^ 64"
    by simp_all
  then show ?thesis by (simp add: i64_def)
qed

lemma i64_id [simp]: "- (2 ^ 63) \<le> x \<Longrightarrow> x < 2 ^ 63 \<Longrightarrow> i64 x = x"
  by (simp add: i64_def)

lemma word_of_int_i64 [simp]: "(word_of_int (i64 x) :: u64) = word_of_int x"
proof -
  have "(i64 x) mod 2 ^ 64 = x mod 2 ^ 64"
    by (simp add: i64_def mod_diff_left_eq)
  then show ?thesis by (simp add: word_of_int_eq_iff take_bit_eq_mod)
qed

lemma word_of_int_sint_add: "(word_of_int (sint t + d) :: u64) = t + word_of_int d"
  by simp

lemma uint_word_of_int_id: "0 \<le> x \<Longrightarrow> x < 2 ^ 64 \<Longrightarrow> uint (word_of_int x :: u64) = x"
  by (simp add: uint_word_of_int)

section \<open>Saturation\<close>

lemma uint_bound64: "uint (t :: u64) < 2 ^ 64"
  using uint_lt2p [of t] by simp

lemma time_add_nonneg:
  assumes "0 \<le> d" and "d < 2 ^ 63"
  shows "uint (time_add t d) = min (2 ^ 64 - 1) (uint t + d)"
proof -
  have u: "uint (t + word_of_int d) = (uint t + d) mod 2 ^ 64"
    using assms by (simp add: uint_word_ariths uint_word_of_int_id)
  show ?thesis
  proof (cases "uint t + d < 2 ^ 64")
    case True
    then have "uint (t + word_of_int d) = uint t + d"
      using assms u by (simp add: mod_pos_pos_trivial)
    then show ?thesis using assms True
      by (simp add: time_add_def word_of_int_sint_add word_less_def)
  next
    case False
    have "(uint t + d) mod 2 ^ 64 = (uint t + d - 2 ^ 64) mod 2 ^ 64"
      by (simp only: minus_mod_self2)
    also have "\<dots> = uint t + d - 2 ^ 64"
      using False assms uint_bound64 [of t] by (intro mod_pos_pos_trivial) simp_all
    finally have "(uint t + d) mod 2 ^ 64 = uint t + d - 2 ^ 64" .
    then have "uint (t + word_of_int d) < uint t" using u assms by simp
    then show ?thesis using assms False
      by (simp add: time_add_def word_of_int_sint_add word_less_def unsigned_minus_1_eq_mask mask_eq_exp_minus_1)
  qed
qed

lemma time_add_neg:
  assumes "d < 0" and "- (2 ^ 63) < d"
  shows "uint (time_add t d) = max 0 (uint t + d)"
proof -
  have a: "uint (word_of_int (dur_getAbs d) :: u64) = - d"
    using assms uint_word_of_int_id [of "- d"] by (simp add: dur_getAbs_def)
  have u: "uint (t + word_of_int d) = (uint t + d) mod 2 ^ 64"
    by (simp add: uint_word_ariths uint_word_of_int mod_add_right_eq)
  show ?thesis
  proof (cases "uint t + d < 0")
    case True
    then show ?thesis using assms a by (simp add: time_add_def word_less_def)
  next
    case False
    then have "uint (t + word_of_int d) = uint t + d"
      using assms u uint_bound64 [of t] by (simp add: mod_pos_pos_trivial)
    then show ?thesis using assms a False
      by (simp add: time_add_def word_of_int_sint_add word_less_def)
  qed
qed

lemma time_diff_exact:
  assumes "\<bar>uint a - uint b\<bar> < 2 ^ 63"
  shows "time_diff a b = uint a - uint b"
proof (cases "a > b")
  case True
  then have "uint (a - b) = uint a - uint b"
    by (simp add: uint_minus_simple_alt [THEN iffD1] word_less_def word_le_def)
  then show ?thesis using True assms by (simp add: time_diff_def)
next
  case False
  then have "uint (b - a) = uint b - uint a"
    by (simp add: uint_minus_simple_alt [THEN iffD1] word_le_def word_less_def)
  then show ?thesis using False assms by (simp add: time_diff_def)
qed

text \<open>
  C36.  Adding a duration to a time point saturates: for every representable duration other than
  the most negative one, the result is the exact sum clamped to the range of \<^verbatim>\<open>uint64_t\<close>, so
  deadlines computed by the library never wrap around.
\<close>

theorem time_add_saturates:
  assumes "- (2 ^ 63) < d" and "d < 2 ^ 63"
  shows "uint (time_add t d) = max 0 (min (2 ^ 64 - 1) (uint t + d))"
proof (cases "d < 0")
  case True
  then show ?thesis using assms(1) time_add_neg [of d t] uint_bound64 [of t] by simp
next
  case False
  then show ?thesis using assms(2) time_add_nonneg [of d t] uint_ge_0 [of t] by simp
qed

theorem time_add_saturates_witness:
  "uint (time_add 5 (- 7)) = 0 \<and> uint (time_add (- 3) 7) = 2 ^ 64 - 1"
  using time_add_saturates [of "- 7" 5] time_add_saturates [of 7 "- 3"]
  by (simp add: unsigned_minus_1_eq_mask)

end
