(* ===== verification/Crc.thy ===== *)
theory Crc
  imports UavPrelude
begin

text \<open>
  \<^verbatim>\<open>TransferCRC\<close> (\<^verbatim>\<open>include/uavcan/transport/crc.hpp\<close>, \<^verbatim>\<open>src/transport/uc_crc.cpp\<close>): the
  CRC-16-CCITT that protects multi-frame transfers.  Both implementations of \<^verbatim>\<open>add\<close> are
  modelled, the bitwise one of the \<^verbatim>\<open>UAVCAN_TINY\<close> build and the table-driven one, and shown
  equal; every corruption confined to two adjacent bytes changes the checksum.
\<close>

section \<open>Definitions\<close>

text \<open>\<^verbatim>\<open>TransferCRC::Table\<close>.\<close>

definition crc_Table :: "u16 list" where
  "crc_Table = [
    0x0000, 0x1021, 0x2042, 0x3063, 0x4084, 0x50A5, 0x60C6, 0x70E7,
    0x8108, 0x9129, 0xA14A, 0xB16B, 0xC18C, 0xD1AD, 0xE1CE, 0xF1EF,
    0x1231, 0x0210, 0x3273, 0x2252, 0x52B5, 0x4294, 0x72F7, 0x62D6,
    0x9339, 0x8318, 0xB37B, 0xA35A, 0xD3BD, 0xC39C, 0xF3FF, 0xE3DE,
    0x2462, 0x3443, 0x0420, 0x1401, 0x64E6, 0x74C7, 0x44A4, 0x5485,
    0xA56A, 0xB54B, 0x8528, 0x9509, 0xE5EE, 0xF5CF, 0xC5AC, 0xD58D,
    0x3653, 0x2672, 0x1611, 0x0630, 0x76D7, 0x66F6, 0x5695, 0x46B4,
    0xB75B, 0xA77A, 0x9719, 0x8738, 0xF7DF, 0xE7FE, 0xD79D, 0xC7BC,
    0x48C4, 0x58E5, 0x6886, 0x78A7, 0x0840, 0x1861, 0x2802, 0x3823,
    0xC9CC, 0xD9ED, 0xE98E, 0xF9AF, 0x8948, 0x9969, 0xA90A, 0xB92B,
    0x5AF5, 0x4AD4, 0x7AB7, 0x6A96, 0x1A71, 0x0A50, 0x3A33, 0x2A12,
    0xDBFD, 0xCBDC, 0xFBBF, 0xEB9E, 0x9B79, 0x8B58, 0xBB3B, 0xAB1A,
    0x6CA6, 0x7C87, 0x4CE4, 0x5CC5, 0x2C22, 0x3C03, 0x0C60, 0x1C41,
    0xEDAE, 0xFD8F, 0xCDEC, 0xDDCD, 0xAD2A, 0xBD0B, 0x8D68, 0x9D49,
    0x7E97, 0x6EB6, 0x5ED5, 0x4EF4, 0x3E13, 0x2E32, 0x1E51, 0x0E70,
    0xFF9F, 0xEFBE, 0xDFDD, 0xCFFC, 0xBF1B, 0xAF3A, 0x9F59, 0x8F78,
    0x9188, 0x81A9, 0xB1CA, 0xA1EB, 0xD10C, 0xC12D, 0xF14E, 0xE16F,
    0x1080, 0x00A1, 0x30C2, 0x20E3, 0x5004, 0x4025, 0x7046, 0x6067,
    0x83B9, 0x9398, 0xA3FB, 0xB3DA, 0xC33D, 0xD31C, 0xE37F, 0xF35E,
    0x02B1, 0x1290, 0x22F3, 0x32D2, 0x4235, 0x5214, 0x6277, 0x7256,
    0xB5EA, 0xA5CB, 0x95A8, 0x8589, 0xF56E, 0xE54F, 0xD52C, 0xC50D,
    0x34E2, 0x24C3, 0x14A0, 0x0481, 0x7466, 0x6447, 0x5424, 0x4405,
    0xA7DB, 0xB7FA, 0x8799, 0x97B8, 0xE75F, 0xF77E, 0xC71D, 0xD73C,
    0x26D3, 0x36F2, 0x0691, 0x16B0, 0x6657, 0x7676, 0x4615, 0x5634,
    0xD94C, 0xC96D, 0xF90E, 0xE92F, 0x99C8, 0x89E9, 0xB98A, 0xA9AB,
    0x5844, 0x4865, 0x7806, 0x6827, 0x18C0, 0x08E1, 0x3882, 0x28A3,
    0xCB7D, 0xDB5C, 0xEB3F, 0xFB1E, 0x8BF9, 0x9BD8, 0xABBB, 0xBB9A,
    0x4A75, 0x5A54, 0x6A37, 0x7A16, 0x0AF1, 0x1AD0, 0x2AB3, 0x3A92,
    0xFD2E, 0xED0F, 0xDD6C, 0xCD4D, 0xBDAA, 0xAD8B, 0x9DE8, 0x8DC9,
    0x7C26, 0x6C07, 0x5C64, 0x4C45, 0x3CA2, 0x2C83, 0x1CE0, 0x0CC1,
    0xEF1F, 0xFF3E, 0xCF5D, 0xDF7C, 0xAF9B, 0xBFBA, 0x8FD9, 0x9FF8,
    0x6E17, 0x7E36, 0x4E55, 0x5E74, 0x2E93, 0x3EB2, 0x0ED1, 0x1EF0]"

text \<open>The initial value of the constructor, and \<^verbatim>\<open>NumBytes\<close>.\<close>

definition crc_init :: u16 where
  "crc_init = 0xFFFF"

definition crc_NumBytes :: nat where
  "crc_NumBytes = 2"

text \<open>One round of the bit loop of the \<^verbatim>\<open>UAVCAN_TINY\<close> variant.\<close>

definition crc_round :: "u16 \<Rightarrow> u16" where
  "crc_round v =
    (if v AND 0x8000 \<noteq> 0 then push_bit 1 v XOR 0x1021 else push_bit 1 v)"

fun crc_bit_loop :: "nat \<Rightarrow> u16 \<Rightarrow> u16" where
  "crc_bit_loop 0 v = v"
| "crc_bit_loop (Suc k) v = crc_bit_loop k (crc_round v)"

definition crc_add_tiny :: "u16 \<Rightarrow> u8 \<Rightarrow> u16" where
  "crc_add_tiny v byte = crc_bit_loop 8 (v XOR push_bit 8 (ucast byte))"

text \<open>The table-driven variant.\<close>

definition crc_add :: "u16 \<Rightarrow> u8 \<Rightarrow> u16" where
  "crc_add v byte =
    (push_bit 8 v XOR crc_Table ! unat ((drop_bit 8 v XOR ucast byte) AND 0xFF)) AND 0xFFFF"

text \<open>\<^verbatim>\<open>add(const uint8_t* bytes, unsigned len)\<close>.\<close>

fun crc_add_bytes :: "u16 \<Rightarrow> u8 list \<Rightarrow> u16" where
  "crc_add_bytes v [] = v"
| "crc_add_bytes v (b # bs) = crc_add_bytes (crc_add v b) bs"

section \<open>The bit loop is linear and injective\<close>

lemma crc_round_bit: "crc_round v = (if bit v 15 then push_bit 1 v XOR 0x1021 else push_bit 1 v)"
proof -
  have "(v AND 0x8000 \<noteq> 0) = bit v 15"
    using and_exp_eq_0_iff_not_bit [of v 15] by simp
  then show ?thesis by (simp add: crc_round_def)
qed

lemma crc_round_xor: "crc_round (a XOR b) = crc_round a XOR crc_round b"
  by (auto simp: crc_round_bit bit_xor_iff push_bit_xor ac_simps xor.left_commute)

lemma crc_bit_loop_xor: "crc_bit_loop k (a XOR b) = crc_bit_loop k a XOR crc_bit_loop k b"
  by (induction k arbitrary: a b) (auto simp: crc_round_xor)

lemma crc_bit_loop_0 [simp]: "crc_bit_loop k 0 = 0"
  by (induction k) (auto simp: crc_round_def)

lemma crc_bit_loop_low:
  "k \<le> 8 \<Longrightarrow> take_bit (16 - k) v = v \<Longrightarrow> crc_bit_loop k v = push_bit k v"
proof (induction k arbitrary: v)
  case (Suc k)
  have nb: "\<not> bit v i" if "16 \<le> i + Suc k" for i
    using Suc.prems that
    by (metis bit_take_bit_iff le_diff_conv less_or_eq_imp_le linorder_not_less order.strict_trans1)
  then have r: "crc_round v = push_bit 1 v" using Suc.prems by (simp add: crc_round_bit)
  have "i < 16 - k" if "bit v (i - Suc 0)" for i
  proof (rule ccontr)
    assume "\<not> i < 16 - k"
    then have "16 \<le> (i - Suc 0) + Suc k" using Suc.prems by linarith
    then show False using nb that by blast
  qed
  then have "take_bit (16 - k) (push_bit 1 v) = push_bit 1 v"
    by (auto intro!: bit_word_eqI simp: bit_simps simp del: push_bit_Suc)
  then show ?case using Suc r by (simp add: push_bit_push_bit)
qed simp

lemma crc_bit_loop_numeral:
  "crc_bit_loop (numeral k) v = crc_bit_loop (pred_numeral k) (crc_round v)"
  by (simp add: numeral_eq_Suc)

definition crc_table_entry :: "nat \<Rightarrow> u16" where
  "crc_table_entry i = crc_bit_loop 8 (push_bit 8 (word_of_nat i))"

lemma crc_table_entry_simps:
  "crc_table_entry 0 = 0"
  "crc_table_entry (Suc 0) = 0x1021"
  "crc_table_entry 1 = 0x1021"
  "crc_table_entry (numeral k) = crc_bit_loop 8 (push_bit 8 (numeral k))"
  by (simp_all add: crc_table_entry_def crc_bit_loop_numeral crc_round_def)

lemma crc_table_loop: "crc_Table = map crc_table_entry [0..<256]"
proof -
  have "[0..<256] = 0 # 1 # [2..<256]" by (simp add: upt_conv_Cons)
  then show ?thesis
    by (simp add: crc_Table_def crc_table_entry_simps crc_bit_loop_numeral crc_round_def)
qed

section \<open>Table lookup and bit loop agree\<close>

lemma crc_split: "v = push_bit 8 (drop_bit 8 v) XOR take_bit 8 (v :: u16)"
  by (rule bit_word_eqI) (auto simp: bit_simps)

lemma u16_and_all [simp]: "v AND 0xFFFF = (v :: u16)"
proof -
  have "(0xFFFF :: u16) = - 1" by simp
  then show ?thesis by (simp only: and.right_neutral)
qed

lemma crc_add_loop: "crc_add v b = crc_bit_loop 8 (v XOR push_bit 8 (ucast b))"
proof -
  define h where "h = (drop_bit 8 v XOR ucast b) AND 0xFF"
  have h: "h = drop_bit 8 v XOR ucast b"
    unfolding h_def
    by (rule bit_word_eqI) (auto simp: bit_simps bit_numeral_rec mask_eq_exp_minus_1 [symmetric]
        dest: bit_imp_le_length split: nat.splits)
  have "unat h < 256"
    unfolding h_def using word_and_le1 [of "drop_bit 8 v XOR ucast b" "0xFF"]
    by (simp add: word_le_nat_alt and.commute)
  then have "crc_Table ! unat h = crc_bit_loop 8 (push_bit 8 h)"
    by (simp add: crc_table_loop crc_table_entry_def)
  moreover have "push_bit 8 v = crc_bit_loop 8 (take_bit 8 v)"
    by (subst crc_bit_loop_low) (auto intro!: bit_word_eqI simp: bit_simps)
  ultimately have "crc_add v b = crc_bit_loop 8 (take_bit 8 v) XOR crc_bit_loop 8 (push_bit 8 h)"
    by (simp add: crc_add_def h_def)
  also have "\<dots> = crc_bit_loop 8 (take_bit 8 v XOR push_bit 8 h)"
    by (simp add: crc_bit_loop_xor)
  also have "take_bit 8 v XOR push_bit 8 h = v XOR push_bit 8 (ucast b)"
    unfolding h by (subst (3) crc_split) (simp add: push_bit_xor ac_simps)
  finally show ?thesis .
qed

lemma crc_round_inj: "crc_round a = crc_round b \<longleftrightarrow> a = b"
proof
  assume eq: "crc_round a = crc_round b"
  have z: "bit (crc_round v) 0 = bit v 15" for v
    by (simp add: crc_round_bit bit_simps del: push_bit_Suc)
  have s: "bit (crc_round v) (Suc i) = (bit v i \<noteq> (bit v 15 \<and> bit (0x1021 :: u16) (Suc i)))"
    if "Suc i < 16" for v i
    using that by (simp add: crc_round_bit bit_simps del: push_bit_Suc)
  have top: "bit a 15 = bit b 15" using eq z by metis
  show "a = b"
  proof (rule bit_word_eqI)
    fix i assume "i < LENGTH(16)"
    then show "bit a i = bit b i"
      using top eq s [of i a] s [of i b] by (cases "i = 15") auto
  qed
qed simp

lemma crc_bit_loop_inj: "crc_bit_loop k a = crc_bit_loop k b \<longleftrightarrow> a = b"
  by (induction k arbitrary: a b) (simp_all add: crc_round_inj)

lemma push8_ucast_inj: "push_bit 8 (ucast a :: u16) = push_bit 8 (ucast b) \<longleftrightarrow> a = (b :: u8)"
proof
  assume eq: "push_bit 8 (ucast a :: u16) = push_bit 8 (ucast b)"
  have k: "bit (push_bit 8 (ucast x :: u16)) (i + 8) = bit x i" if "i < 8" for x :: u8 and i
    using that by (simp add: bit_simps)
  show "a = b"
  proof (rule bit_word_eqI)
    fix i assume "i < LENGTH(8)"
    then show "bit a i = bit b i" using k [of i a] k [of i b] eq by simp
  qed
qed simp

lemma crc_add_inj_value: "crc_add v b = crc_add v' b \<longleftrightarrow> v = v'"
  by (simp only: crc_add_loop crc_bit_loop_inj word_xor_cancel_right)

lemma crc_add_inj_byte: "crc_add v b = crc_add v b' \<longleftrightarrow> b = b'"
  by (simp only: crc_add_loop crc_bit_loop_inj word_xor_cancel_left push8_ucast_inj)

lemma crc_add_bytes_append [simp]:
  "crc_add_bytes v (xs @ ys) = crc_add_bytes (crc_add_bytes v xs) ys"
  by (induction xs arbitrary: v) auto

lemma crc_add_bytes_inj_value: "crc_add_bytes v bs = crc_add_bytes v' bs \<longleftrightarrow> v = v'"
  by (induction bs arbitrary: v v') (auto simp: crc_add_inj_value)

lemma crc_Table_low: "x \<in> set (tl crc_Table) \<Longrightarrow> take_bit 8 x \<noteq> 0"
  by (auto simp: crc_Table_def take_bit_eq_mask mask_eq_exp_minus_1)

lemma crc_loop_low_byte:
  assumes "take_bit 8 (crc_bit_loop 8 (push_bit 8 (ucast d))) = 0"
  shows "d = (0 :: u8)"
proof (rule ccontr)
  assume "d \<noteq> 0"
  then obtain k where k: "unat d = Suc k" using unat_eq_zero not0_implies_Suc by blast
  have lt: "unat d < 256" by (rule unat_u8_lt)
  then have "crc_Table ! unat d = crc_bit_loop 8 (push_bit 8 (ucast d))"
    by (simp add: crc_table_loop crc_table_entry_def)
  moreover have "crc_Table ! unat d \<in> set (tl crc_Table)"
    using lt k by (auto simp: nth_tl [symmetric] crc_table_loop intro!: nth_mem)
  ultimately show False using crc_Table_low assms by metis
qed

lemma crc_add_pair:
  assumes "crc_add (crc_add w a) b = crc_add (crc_add w a') b'"
  shows "a = a' \<and> b = b'"
proof -
  have "crc_add w a XOR push_bit 8 (ucast b) = crc_add w a' XOR push_bit 8 (ucast b')"
    using assms by (simp add: crc_add_loop crc_bit_loop_inj)
  then have "(crc_add w a XOR push_bit 8 (ucast b)) XOR (push_bit 8 (ucast b) XOR crc_add w a') =
      (crc_add w a' XOR push_bit 8 (ucast b')) XOR (push_bit 8 (ucast b) XOR crc_add w a')" by simp
  then have "crc_add w a XOR crc_add w a' = push_bit 8 (ucast (b XOR b'))"
    by (simp add: unsigned_xor_eq push_bit_xor xor.assoc xor.left_commute xor.commute)
  moreover have "crc_add w a XOR crc_add w a' = crc_bit_loop 8 (push_bit 8 (ucast (a XOR a')))"
    by (simp add: crc_add_loop crc_bit_loop_xor [symmetric] unsigned_xor_eq push_bit_xor ac_simps)
  ultimately have "take_bit 8 (crc_bit_loop 8 (push_bit 8 (ucast (a XOR a')))) = 0"
    by (simp add: take_bit_push_bit)
  then have "a XOR a' = 0" by (rule crc_loop_low_byte)
  then have "a = a'" by (simp add: word_xor_eq_0_iff)
  then show ?thesis using assms by (simp add: crc_add_inj_byte)
qed

text \<open>
  C27.  The table-driven \<^verbatim>\<open>TransferCRC::add\<close> of the regular build and the bitwise one of the
  \<^verbatim>\<open>UAVCAN_TINY\<close> build compute the same function, for every register value and every byte; in
  particular all 256 entries of the table are right.
\<close>

theorem crc_add_table_eq_bitwise: "crc_add v b = crc_add_tiny v b"
  by (simp add: crc_add_loop crc_add_tiny_def)

text \<open>
  C28.  The transfer CRC detects every corruption that is confined to two adjacent bytes of a
  payload (in particular every corrupted single byte and every error burst of up to nine bits),
  whatever precedes and follows them.
\<close>

theorem crc_detects_adjacent_bytes:
  assumes "[a, b] \<noteq> [a', b']"
  shows "crc_add_bytes v (xs @ [a, b] @ ys) \<noteq> crc_add_bytes v (xs @ [a', b'] @ ys)"
  using assms crc_add_pair by (auto simp: crc_add_bytes_inj_value)

theorem crc_detects_adjacent_bytes_witness:
  "crc_add_bytes crc_init ([] @ [1, 2] @ [7]) \<noteq> crc_add_bytes crc_init ([] @ [1, 3] @ [7])"
  by (rule crc_detects_adjacent_bytes) simp

end
