(* ===== verification/TransferTypes.thy ===== *)
theory TransferTypes
  imports Crc
begin

text \<open>
  The scalar types of the transport layer: transfer types, priorities, transfer IDs and node IDs
  (\<^verbatim>\<open>transport/transfer.hpp\<close>, \<^verbatim>\<open>uc_transfer.cpp\<close>), data type IDs, signatures and descriptors
  (\<^verbatim>\<open>data_type.hpp\<close>, \<^verbatim>\<open>uc_data_type.cpp\<close>).  The forward distance of two transfer IDs is the
  least number of increments; mixing two different signatures into the same one gives
  different results.
\<close>

section \<open>Transfers\<close>

definition GuaranteedPayloadLenPerFrame :: nat where
  "GuaranteedPayloadLenPerFrame = 7"

datatype transfer_type =
    TransferTypeServiceResponse
  | TransferTypeServiceRequest
  | TransferTypeMessageBroadcast
  | NumTransferTypes

text \<open>The numeric value of the enumeration.\<close>

fun transfer_type_value :: "transfer_type \<Rightarrow> nat" where
  "transfer_type_value TransferTypeServiceResponse = 0"
| "transfer_type_value TransferTypeServiceRequest = 1"
| "transfer_type_value TransferTypeMessageBroadcast = 2"
| "transfer_type_value NumTransferTypes = 3"

type_synonym transfer_priority = u8
type_synonym transfer_id = u8
type_synonym node_id = u8

definition priority_NumericallyMax :: transfer_priority where
  "priority_NumericallyMax = push_bit 5 1 - 1"

definition priority_Default :: transfer_priority where
  "priority_Default = push_bit 5 1 div 2"

definition priority_invalid :: transfer_priority where
  "priority_invalid = 0xFF"

definition priority_isValid :: "transfer_priority \<Rightarrow> bool" where
  "priority_isValid p \<longleftrightarrow> p < push_bit 5 1"

text \<open>\<^verbatim>\<open>TransferPriority::fromPercent\<close>, for a percentage of at most 100.\<close>

definition priority_fromPercent :: "nat \<Rightarrow> transfer_priority" where
  "priority_fromPercent percent =
    word_of_nat (((100 - percent) * unat priority_NumericallyMax) div 100)"

definition tid_BitLen :: nat where
  "tid_BitLen = 5"

definition tid_Max :: transfer_id where
  "tid_Max = push_bit tid_BitLen 1 - 1"

definition tid_Half :: transfer_id where
  "tid_Half = push_bit tid_BitLen 1 div 2"

text \<open>The constructor masks its argument.\<close>

definition TransferID :: "u8 \<Rightarrow> transfer_id" where
  "TransferID v = v AND tid_Max"

definition tid_increment :: "transfer_id \<Rightarrow> transfer_id" where
  "tid_increment v = (v + 1) AND tid_Max"

definition tid_computeForwardDistance :: "transfer_id \<Rightarrow> transfer_id \<Rightarrow> int" where
  "tid_computeForwardDistance self rhs =
    (let d = int (unat rhs) - int (unat self)
     in if d < 0 then d + push_bit tid_BitLen 1 else d)"

definition node_id_Max :: node_id where
  "node_id_Max = push_bit 7 1 - 1"

definition node_id_MaxRecommended :: node_id where
  "node_id_MaxRecommended = node_id_Max - 2"

definition node_id_Broadcast :: node_id where
  "node_id_Broadcast = 0"

definition node_id_invalid :: node_id where
  "node_id_invalid = 0xFF"

definition node_id_isValid :: "node_id \<Rightarrow> bool" where
  "node_id_isValid n \<longleftrightarrow> n \<le> node_id_Max"

definition node_id_isBroadcast :: "node_id \<Rightarrow> bool" where
  "node_id_isBroadcast n \<longleftrightarrow> n = node_id_Broadcast"

definition node_id_isUnicast :: "node_id \<Rightarrow> bool" where
  "node_id_isUnicast n \<longleftrightarrow> n \<le> node_id_Max \<and> n \<noteq> node_id_Broadcast"

section \<open>Data types\<close>

datatype data_type_kind = DataTypeKindService | DataTypeKindMessage | NumDataTypeKinds

fun getDataTypeKindForTransferType :: "transfer_type \<Rightarrow> data_type_kind" where
  "getDataTypeKindForTransferType TransferTypeServiceResponse = DataTypeKindService"
| "getDataTypeKindForTransferType TransferTypeServiceRequest = DataTypeKindService"
| "getDataTypeKindForTransferType TransferTypeMessageBroadcast = DataTypeKindMessage"
| "getDataTypeKindForTransferType NumTransferTypes = DataTypeKindService"

type_synonym data_type_id = u32

definition data_type_id_invalid :: data_type_id where
  "data_type_id_invalid = 0xFFFFFFFF"

definition data_type_id_get :: "data_type_id \<Rightarrow> u16" where
  "data_type_id_get v = ucast v"

fun getMaxValueForDataTypeKind :: "data_type_kind \<Rightarrow> data_type_id" where
  "getMaxValueForDataTypeKind DataTypeKindService = 255"
| "getMaxValueForDataTypeKind DataTypeKindMessage = 65535"
| "getMaxValueForDataTypeKind NumDataTypeKinds = 0"

definition isValidForDataTypeKind :: "data_type_id \<Rightarrow> data_type_kind \<Rightarrow> bool" where
  "isValidForDataTypeKind v k \<longleftrightarrow>
    v \<le> ucast (data_type_id_get (getMaxValueForDataTypeKind k))"

text \<open>\<^verbatim>\<open>DataTypeSignatureCRC\<close>, CRC-64-WE.\<close>

definition sig_crc_init :: u64 where
  "sig_crc_init = 0xFFFFFFFFFFFFFFFF"

definition sig_crc_extend :: "u64 \<Rightarrow> u64" where
  "sig_crc_extend crc = crc XOR 0xFFFFFFFFFFFFFFFF"

definition sig_crc_get :: "u64 \<Rightarrow> u64" where
  "sig_crc_get crc = crc XOR 0xFFFFFFFFFFFFFFFF"

definition sig_round :: "u64 \<Rightarrow> u64" where
  "sig_round crc =
    (if crc AND push_bit 63 1 \<noteq> 0 then push_bit 1 crc XOR 0x42F0E1EBA9EA3693
     else push_bit 1 crc)"

fun sig_loop :: "nat \<Rightarrow> u64 \<Rightarrow> u64" where
  "sig_loop 0 v = v"
| "sig_loop (Suc k) v = sig_loop k (sig_round v)"

definition sig_crc_add :: "u64 \<Rightarrow> u8 \<Rightarrow> u64" where
  "sig_crc_add crc byte = sig_loop 8 (crc XOR push_bit 56 (ucast byte))"

fun sig_crc_add_bytes :: "u64 \<Rightarrow> u8 list \<Rightarrow> u64" where
  "sig_crc_add_bytes v [] = v"
| "sig_crc_add_bytes v (b # bs) = sig_crc_add_bytes (sig_crc_add v b) bs"

text \<open>The loops \<^verbatim>\<open>for (int i = 0; i < 64; i += 8)\<close> over the bytes of a 64-bit value.\<close>

definition lsb_first_bytes :: "u64 \<Rightarrow> u8 list" where
  "lsb_first_bytes x = map (\<lambda>i. ucast (drop_bit i x AND 0xFF)) [0, 8, 16, 24, 32, 40, 48, 56]"

definition sig_mixin64 :: "u64 \<Rightarrow> u64 \<Rightarrow> u64" where
  "sig_mixin64 value x = sig_crc_get (sig_crc_add_bytes (sig_crc_extend value) (lsb_first_bytes x))"

definition sig_extend :: "u64 \<Rightarrow> u64 \<Rightarrow> u64" where
  "sig_extend value dts = (let y = value in sig_mixin64 (sig_mixin64 value dts) y)"

definition toTransferCRC :: "u64 \<Rightarrow> u16" where
  "toTransferCRC value = crc_add_bytes crc_init (lsb_first_bytes value)"

text \<open>
  \<^verbatim>\<open>DataTypeDescriptor\<close>.  The name is a C string: \<open>None\<close> is the null pointer, the list holds
  the characters before the terminator, and \<^verbatim>\<open>strncmp\<close> compares at most \<^verbatim>\<open>MaxFullNameLen\<close> of
  them.
\<close>

record data_type_descriptor =
  dtd_signature :: u64
  dtd_full_name :: "string option"
  dtd_kind :: data_type_kind
  dtd_id :: data_type_id

definition MaxFullNameLen :: nat where
  "MaxFullNameLen = 80"

definition strn_eq :: "string option \<Rightarrow> string option \<Rightarrow> bool" where
  "strn_eq a b \<longleftrightarrow> (case (a, b) of
      (Some x, Some y) \<Rightarrow> take MaxFullNameLen x = take MaxFullNameLen y
    | _ \<Rightarrow> False)"

definition dtd_isValid :: "data_type_descriptor \<Rightarrow> bool" where
  "dtd_isValid d \<longleftrightarrow> isValidForDataTypeKind (dtd_id d) (dtd_kind d) \<and>
     dtd_full_name d \<noteq> None \<and> dtd_full_name d \<noteq> Some []"

definition dtd_match_name :: "data_type_descriptor \<Rightarrow> data_type_kind \<Rightarrow> string \<Rightarrow> bool" where
  "dtd_match_name d kind name \<longleftrightarrow> dtd_kind d = kind \<and> strn_eq (dtd_full_name d) (Some name)"

definition dtd_match_id :: "data_type_descriptor \<Rightarrow> data_type_kind \<Rightarrow> data_type_id \<Rightarrow> bool" where
  "dtd_match_id d kind i \<longleftrightarrow> dtd_kind d = kind \<and> dtd_id d = i"

definition dtd_eq :: "data_type_descriptor \<Rightarrow> data_type_descriptor \<Rightarrow> bool" where
  "dtd_eq a b \<longleftrightarrow> dtd_kind a = dtd_kind b \<and> dtd_id a = dtd_id b \<and>
     dtd_signature a = dtd_signature b \<and> strn_eq (dtd_full_name a) (dtd_full_name b)"

section \<open>Transfer IDs\<close>

lemma tid_Max_eq [simp]: "tid_Max = 31"
  by (simp add: tid_Max_def tid_BitLen_def)

lemma tid_Half_eq [simp]: "tid_Half = 16"
  by (simp add: tid_Half_def tid_BitLen_def)

lemma node_id_Max_eq [simp]: "node_id_Max = 127"
  by (simp add: node_id_Max_def)

lemma and_31_mod: "unat (v AND 31 :: u8) = unat v mod 32"
  using unat_and_mask [of v 5] by (simp add: mask_eq_exp_minus_1)

lemma unat_tid_increment: "unat (tid_increment v) = (unat v + 1) mod 32"
proof -
  have "unat (v + 1) = (unat v + 1) mod 256" by (simp add: unat_word_ariths)
  then show ?thesis by (simp add: tid_increment_def and_31_mod mod_mod_cancel)
qed

lemma tid_increment_valid: "unat (tid_increment v) < 32"
  by (simp add: unat_tid_increment)

lemma unat_tid_increment_pow:
  "unat v < 32 \<Longrightarrow> unat ((tid_increment ^^ k) v) = (unat v + k) mod 32"
  by (induction k) (auto simp: unat_tid_increment mod_Suc_eq)

lemma distance_arith:
  fixes x y k :: int
  assumes "0 \<le> x" "x < 32" "0 \<le> y" "y < 32"
  shows "(if y - x < 0 then y - x + 32 else y - x) = (y - x) mod 32"
    and "(x + k) mod 32 = y \<longleftrightarrow> k mod 32 = (y - x) mod 32"
proof -
  have "(y - x) mod 32 = y - x + 32" if "y < x"
    using assms that mod_pos_pos_trivial [of "y - x + 32" 32] by simp
  then show "(if y - x < 0 then y - x + 32 else y - x) = (y - x) mod 32"
    using assms by simp
  have "(x + k) mod 32 = y \<longleftrightarrow> (x + k) mod 32 = y mod 32"
    using assms by simp
  also have "\<dots> \<longleftrightarrow> k mod 32 = (y - x) mod 32"
    by (simp add: mod_eq_dvd_iff algebra_simps)
  finally show "(x + k) mod 32 = y \<longleftrightarrow> k mod 32 = (y - x) mod 32" .
qed

lemma uint_lt_32: "unat (a :: u8) < 32 \<Longrightarrow> uint a < 32"
  using of_nat_less_iff [where ?'a = int, of "unat a" 32] by simp

lemma tid_distance_mod:
  assumes "unat a < 32" and "unat b < 32"
  shows "tid_computeForwardDistance a b = (uint b - uint a) mod 32"
  using distance_arith(1) [of "uint a" "uint b"] assms [THEN uint_lt_32]
  by (auto simp: tid_computeForwardDistance_def Let_def tid_BitLen_def split: if_splits)

lemma tid_distance_range:
  assumes "unat a < 32" and "unat b < 32"
  shows "0 \<le> tid_computeForwardDistance a b" and "tid_computeForwardDistance a b < 32"
  by (simp_all add: tid_distance_mod assms)

lemma tid_distance_reaches:
  assumes "unat a < 32" and "unat b < 32"
  shows "(tid_increment ^^ k) a = b \<longleftrightarrow> k mod 32 = nat (tid_computeForwardDistance a b)"
proof -
  have "(tid_increment ^^ k) a = b \<longleftrightarrow> (unat a + k) mod 32 = unat b"
    using unat_tid_increment_pow [OF assms(1), of k] by (auto simp: word_unat_eq_iff)
  also have "\<dots> \<longleftrightarrow> (uint a + int k) mod 32 = uint b"
    using of_nat_eq_iff [where ?'a = int, of "(unat a + k) mod 32" "unat b"]
    by (simp add: zmod_int del: of_nat_eq_iff)
  also have "\<dots> \<longleftrightarrow> int k mod 32 = tid_computeForwardDistance a b"
    using distance_arith(2) [of "uint a" "uint b" "int k"] assms [THEN uint_lt_32]
    by (simp add: tid_distance_mod assms)
  also have "\<dots> \<longleftrightarrow> k mod 32 = nat (tid_computeForwardDistance a b)"
    using tid_distance_range [OF assms] zmod_int [of k 32] by auto
  finally show ?thesis .
qed

text \<open>
  C34.  \<^verbatim>\<open>TransferID::computeForwardDistance\<close> is the least number of \<^verbatim>\<open>increment\<close> calls that lead
  from one transfer ID to the other, and it is below 32, across the wrap-around.
\<close>

theorem tid_distance_least:
  assumes "a \<le> tid_Max" and "b \<le> tid_Max"
  shows "0 \<le> tid_computeForwardDistance a b \<and> tid_computeForwardDistance a b < 32 \<and>
    nat (tid_computeForwardDistance a b) = (LEAST k. (tid_increment ^^ k) a = b)"
proof -
  have ab: "unat a < 32" "unat b < 32"
    using assms by (simp_all add: word_le_nat_alt)
  let ?d = "nat (tid_computeForwardDistance a b)"
  have d: "?d < 32" using tid_distance_range [OF ab] by simp
  have "(LEAST k. (tid_increment ^^ k) a = b) = ?d"
  proof (rule Least_equality)
    show "(tid_increment ^^ ?d) a = b" using d by (simp add: tid_distance_reaches [OF ab])
  next
    fix k assume "(tid_increment ^^ k) a = b"
    then have "k mod 32 = ?d" by (simp add: tid_distance_reaches [OF ab])
    then show "?d \<le> k" using mod_less_eq_dividend [of k 32] by simp
  qed
  then show ?thesis using tid_distance_range [OF ab] by simp
qed

theorem tid_distance_least_witness:
  "nat (tid_computeForwardDistance 30 2) = (LEAST k. (tid_increment ^^ k) 30 = 2)"
  using tid_distance_least [of 30 2] by simp

section \<open>Signatures\<close>

lemma sig_round_bit:
  "sig_round v = (if bit v 63 then push_bit 1 v XOR 0x42F0E1EBA9EA3693 else push_bit 1 v)"
proof -
  have "(v AND push_bit 63 1 \<noteq> 0) = bit v 63"
    using and_exp_eq_0_iff_not_bit [of v 63] by simp
  then show ?thesis by (simp add: sig_round_def)
qed

lemma sig_round_xor: "sig_round (a XOR b) = sig_round a XOR sig_round b"
  by (auto simp: sig_round_bit bit_xor_iff push_bit_xor ac_simps xor.left_commute)

lemma sig_loop_xor: "sig_loop k (a XOR b) = sig_loop k a XOR sig_loop k b"
  by (induction k arbitrary: a b) (auto simp: sig_round_xor)

lemma sig_loop_add: "sig_loop k (sig_loop j v) = sig_loop (j + k) v"
  by (induction j arbitrary: v) auto

lemma sig_round_inj: "sig_round a = sig_round b \<longleftrightarrow> a = b"
proof
  assume eq: "sig_round a = sig_round b"
  have z: "bit (sig_round v) 0 = bit v 63" for v
    by (simp add: sig_round_bit bit_simps del: push_bit_Suc)
  have s: "bit (sig_round v) (Suc i) =
      (bit v i \<noteq> (bit v 63 \<and> bit (0x42F0E1EBA9EA3693 :: u64) (Suc i)))"
    if "Suc i < 64" for v i
    using that by (simp add: sig_round_bit bit_simps del: push_bit_Suc)
  have top: "bit a 63 = bit b 63" using eq z by metis
  show "a = b"
  proof (rule bit_word_eqI)
    fix i assume "i < LENGTH(64)"
    then show "bit a i = bit b i"
      using top eq s [of i a] s [of i b] by (cases "i = 63") auto
  qed
qed simp

lemma sig_loop_inj: "sig_loop k a = sig_loop k b \<longleftrightarrow> a = b"
  by (induction k arbitrary: a b) (simp_all add: sig_round_inj)

lemma sig_loop_low:
  "k \<le> 64 \<Longrightarrow> (\<And>i. bit v i \<Longrightarrow> i + k < 64) \<Longrightarrow> sig_loop k v = push_bit k v"
proof (induction k arbitrary: v)
  case (Suc k)
  have "\<not> bit v 63" using Suc.prems(2) [of 63] by auto
  then have r: "sig_round v = push_bit 1 v" by (simp add: sig_round_bit)
  have "i + k < 64" if "bit (push_bit 1 v) i" for i
    using that Suc.prems(2) [of "i - 1"] by (auto simp: bit_simps simp del: push_bit_Suc)
  then show ?case using Suc r by (simp add: push_bit_push_bit)
qed simp

text \<open>Feeding a byte after \<open>n\<close> rounds is the same as placing it below the earlier ones.\<close>

lemma sig_crc_add_after:
  assumes "n \<le> 56"
  shows "sig_crc_add (sig_loop n v) b = sig_loop (n + 8) (v XOR push_bit (56 - n) (ucast b))"
proof -
  have "i + n < 64" if "bit (push_bit (56 - n) (ucast b :: u64)) i" for i
    using that assms by (auto simp: bit_simps dest!: bit_imp_le_length)
  then have "sig_loop n (push_bit (56 - n) (ucast b)) = push_bit 56 (ucast b)"
    using assms by (subst sig_loop_low) (auto simp: push_bit_push_bit)
  then show ?thesis
    by (simp add: sig_crc_add_def sig_loop_add [symmetric] sig_loop_xor)
qed

lemma sig_crc_add_8:
  "sig_crc_add_bytes v [b0, b1, b2, b3, b4, b5, b6, b7] =
   sig_loop 64 (v XOR push_bit 56 (ucast b0) XOR push_bit 48 (ucast b1) XOR push_bit 40 (ucast b2)
     XOR push_bit 32 (ucast b3) XOR push_bit 24 (ucast b4) XOR push_bit 16 (ucast b5)
     XOR push_bit 8 (ucast b6) XOR ucast b7)"
proof -
  have "sig_crc_add v b0 = sig_loop 8 (v XOR push_bit 56 (ucast b0))"
    by (simp add: sig_crc_add_def)
  then show ?thesis by (simp add: sig_crc_add_after xor.assoc)
qed

definition be_word :: "u8 \<Rightarrow> u8 \<Rightarrow> u8 \<Rightarrow> u8 \<Rightarrow> u8 \<Rightarrow> u8 \<Rightarrow> u8 \<Rightarrow> u8 \<Rightarrow> u64" where
  "be_word b0 b1 b2 b3 b4 b5 b6 b7 =
     push_bit 56 (ucast b0) XOR push_bit 48 (ucast b1) XOR push_bit 40 (ucast b2)
     XOR push_bit 32 (ucast b3) XOR push_bit 24 (ucast b4) XOR push_bit 16 (ucast b5)
     XOR push_bit 8 (ucast b6) XOR ucast b7"

lemma u8_bit_high [simp]: "8 \<le> n \<Longrightarrow> \<not> bit (b :: u8) n"
  by (auto dest: bit_imp_le_length)

lemma be_word_bytes:
  assumes w_def: "w = be_word b0 b1 b2 b3 b4 b5 b6 b7"
  shows "ucast (drop_bit 56 w) = b0" "ucast (drop_bit 48 w) = b1" "ucast (drop_bit 40 w) = b2"
    "ucast (drop_bit 32 w) = b3" "ucast (drop_bit 24 w) = b4" "ucast (drop_bit 16 w) = b5"
    "ucast (drop_bit 8 w) = b6" "ucast w = b7"
  by (rule bit_word_eqI; simp add: w_def be_word_def bit_simps)+

lemma be_word_inj:
  "be_word a0 a1 a2 a3 a4 a5 a6 a7 = be_word b0 b1 b2 b3 b4 b5 b6 b7 \<longleftrightarrow>
   [a0, a1, a2, a3, a4, a5, a6, a7] = [b0, b1, b2, b3, b4, b5, b6, b7]"
  using be_word_bytes [of _ a0 a1 a2 a3 a4 a5 a6 a7] be_word_bytes [of _ b0 b1 b2 b3 b4 b5 b6 b7]
  by (metis list.inject)

lemma lsb_first_bytes_byte:
  assumes "k < 8"
  shows "lsb_first_bytes x ! k = ucast (drop_bit (8 * k) x AND 0xFF)"
proof -
  have "[0, 8, 16, 24, 32, 40, 48, 56] ! k = 8 * k"
    using assms by (simp add: less_Suc_eq eval_nat_numeral(2,3)) auto
  then show ?thesis using assms by (simp add: lsb_first_bytes_def del: list.map)
qed

lemma lsb_first_bytes_nth:
  "n < 64 \<Longrightarrow> bit (lsb_first_bytes x ! (n div 8)) (n mod 8) = bit x n"
proof -
  assume n: "n < 64"
  then have "n div 8 < 8" by simp
  then have "lsb_first_bytes x ! (n div 8) = ucast (drop_bit (8 * (n div 8)) x AND 0xFF)"
    by (rule lsb_first_bytes_byte)
  moreover have "bit (0xFF :: u64) (n mod 8)"
    using bit_mask_iff [where ?'a = "64 word", of 8 "n mod 8"] by (simp add: mask_eq_exp_minus_1)
  ultimately show ?thesis using n by (simp add: bit_simps)
qed

lemma lsb_first_bytes_inj: "lsb_first_bytes x = lsb_first_bytes y \<longleftrightarrow> x = y"
proof
  assume eq: "lsb_first_bytes x = lsb_first_bytes y"
  show "x = y"
  proof (rule bit_word_eqI)
    fix n assume "n < LENGTH(64)"
    then show "bit x n = bit y n"
      using eq lsb_first_bytes_nth [of n x] lsb_first_bytes_nth [of n y] by simp
  qed
qed simp

lemma sig_crc_add_bytes_inj:
  "sig_crc_add_bytes v (lsb_first_bytes x) = sig_crc_add_bytes v (lsb_first_bytes y) \<longleftrightarrow> x = y"
proof -
  have "sig_crc_add_bytes v [a0, a1, a2, a3, a4, a5, a6, a7] =
      sig_loop 64 (v XOR be_word a0 a1 a2 a3 a4 a5 a6 a7)" for a0 a1 a2 a3 a4 a5 a6 a7
    by (simp only: sig_crc_add_8 be_word_def xor.assoc)
  then have "sig_crc_add_bytes v (lsb_first_bytes x) = sig_crc_add_bytes v (lsb_first_bytes y)
      \<longleftrightarrow> lsb_first_bytes x = lsb_first_bytes y"
    unfolding lsb_first_bytes_def list.map by (simp only: sig_loop_inj be_word_inj word_xor_cancel_left)
  then show ?thesis by (simp add: lsb_first_bytes_inj)
qed

lemma sig_crc_add_inj: "sig_crc_add v b = sig_crc_add v' b \<longleftrightarrow> v = v'"
  by (simp only: sig_crc_add_def sig_loop_inj word_xor_cancel_right)

lemma sig_crc_add_bytes_inj_value:
  "sig_crc_add_bytes v bs = sig_crc_add_bytes v' bs \<longleftrightarrow> v = v'"
  by (induction bs arbitrary: v v') (auto simp: sig_crc_add_inj)

lemma sig_get_inj: "sig_crc_get a = sig_crc_get b \<longleftrightarrow> a = b"
  by (simp only: sig_crc_get_def word_xor_cancel_right)

lemma sig_mixin64_inj: "sig_mixin64 v x = sig_mixin64 v y \<longleftrightarrow> x = y"
  by (simp add: sig_mixin64_def sig_get_inj sig_crc_add_bytes_inj)

lemma sig_mixin64_inj_value: "sig_mixin64 v x = sig_mixin64 w x \<longleftrightarrow> v = w"
  by (simp only: sig_mixin64_def sig_get_inj sig_crc_add_bytes_inj_value sig_crc_extend_def
      word_xor_cancel_right)

text \<open>
  C35.  \<^verbatim>\<open>DataTypeSignature::extend\<close> loses no information about the signature it mixes in: a data
  type that nests two layouts with different signatures never gets the same composite signature
  for both.
\<close>

theorem sig_extend_inj: "sig_extend v a = sig_extend v b \<longleftrightarrow> a = b"
  by (simp add: sig_extend_def sig_mixin64_inj_value sig_mixin64_inj)

end
