(* ===== verification/CanFrames.thy ===== *)
theory CanFrames
  imports UavTime
begin

text \<open>
  Raw CAN frames as passed to and from the driver (\<^verbatim>\<open>driver/can.hpp\<close>, \<^verbatim>\<open>uc_can.cpp\<close>), the
  received frame with its time stamps (\<^verbatim>\<open>transport/can_io.hpp\<close>), hardware filter
  configurations, and the arbitration order: \<^verbatim>\<open>priorityHigherThan\<close> is comparison of the
  arbitration fields the frames put on the bus.
\<close>

section \<open>Definitions\<close>

definition MaskStdID :: u32 where
  "MaskStdID = 0x000007FF"

definition MaskExtID :: u32 where
  "MaskExtID = 0x1FFFFFFF"

definition FlagEFF :: u32 where
  "FlagEFF = push_bit 31 1"

definition FlagRTR :: u32 where
  "FlagRTR = push_bit 30 1"

definition FlagERR :: u32 where
  "FlagERR = push_bit 29 1"

definition MaxDataLen :: nat where
  "MaxDataLen = 8"

text \<open>The field \<^verbatim>\<open>data\<close> is an array of eight bytes, of which the first \<^verbatim>\<open>dlc\<close> are meaningful.\<close>

record can_frame =
  cf_id :: u32
  cf_data :: "u8 list"
  cf_dlc :: u8

definition can_frame_default :: can_frame where
  "can_frame_default = \<lparr>cf_id = 0, cf_data = replicate MaxDataLen 0, cf_dlc = 0\<rparr>"

text \<open>
  The constructor with arguments: \<^verbatim>\<open>bytes\<close> is the memory at \<^verbatim>\<open>can_data\<close> (at least
  \<^verbatim>\<open>data_len\<close> bytes), \<^verbatim>\<open>mem\<close> what the uninitialised array held before.
\<close>

definition CanFrame :: "u8 list \<Rightarrow> u32 \<Rightarrow> u8 list \<Rightarrow> u8 \<Rightarrow> can_frame" where
  "CanFrame mem can_id bytes data_len =
    (let dlc = (if data_len > word_of_nat MaxDataLen then word_of_nat MaxDataLen else data_len)
     in \<lparr>cf_id = can_id, cf_data = overwrite mem 0 (take (unat dlc) bytes), cf_dlc = dlc\<rparr>)"

definition can_frame_eq :: "can_frame \<Rightarrow> can_frame \<Rightarrow> bool" where
  "can_frame_eq a b \<longleftrightarrow> cf_id a = cf_id b \<and> cf_dlc a = cf_dlc b \<and>
     take (unat (cf_dlc a)) (cf_data a) = take (unat (cf_dlc a)) (cf_data b)"

definition isExtended :: "can_frame \<Rightarrow> bool" where
  "isExtended f \<longleftrightarrow> cf_id f AND FlagEFF \<noteq> 0"

definition isRemoteTransmissionRequest :: "can_frame \<Rightarrow> bool" where
  "isRemoteTransmissionRequest f \<longleftrightarrow> cf_id f AND FlagRTR \<noteq> 0"

definition isErrorFrame :: "can_frame \<Rightarrow> bool" where
  "isErrorFrame f \<longleftrightarrow> cf_id f AND FlagERR \<noteq> 0"

definition priorityHigherThan :: "can_frame \<Rightarrow> can_frame \<Rightarrow> bool" where
  "priorityHigherThan f rhs =
    (let clean_id = cf_id f AND MaskExtID;
         rhs_clean_id = cf_id rhs AND MaskExtID;
         ext = (cf_id f AND FlagEFF \<noteq> 0);
         rhs_ext = (cf_id rhs AND FlagEFF \<noteq> 0)
     in if ext \<noteq> rhs_ext then
          (let arb11 = (if ext then drop_bit 18 clean_id else clean_id);
               rhs_arb11 = (if rhs_ext then drop_bit 18 rhs_clean_id else rhs_clean_id)
           in if arb11 \<noteq> rhs_arb11 then arb11 < rhs_arb11 else rhs_ext)
        else
          (let rtr = (cf_id f AND FlagRTR \<noteq> 0);
               rhs_rtr = (cf_id rhs AND FlagRTR \<noteq> 0)
           in if clean_id = rhs_clean_id \<and> rtr \<noteq> rhs_rtr then rhs_rtr
              else clean_id < rhs_clean_id))"

definition priorityLowerThan :: "can_frame \<Rightarrow> can_frame \<Rightarrow> bool" where
  "priorityLowerThan f rhs = priorityHigherThan rhs f"

record can_filter_config =
  fc_id :: u32
  fc_mask :: u32

record can_select_masks =
  sm_read :: u8
  sm_write :: u8

text \<open>\<^verbatim>\<open>CanRxFrame\<close>: a frame with the time stamps and the interface it arrived on.\<close>

record can_rx_frame =
  rx_can :: can_frame
  rx_ts_mono :: time
  rx_ts_utc :: time
  rx_iface_index :: u8

section \<open>The arbitration field\<close>

text \<open>
  What a frame puts on the bus during arbitration, most significant bit first: eleven base
  identifier bits, then RTR (standard) or SRR (extended, always recessive), the IDE bit, and for an
  extended frame 18 more identifier bits and RTR.  A dominant bit is 0, so the smaller field wins.
\<close>

definition arbitration_field :: "can_frame \<Rightarrow> nat" where
  "arbitration_field f =
    (let c = unat (cf_id f AND MaskExtID);
         rtr = of_bool (isRemoteTransmissionRequest f)
     in if isExtended f
        then c div 2 ^ 18 * 2 ^ 21 + 2 ^ 20 + 2 ^ 19 + c mod 2 ^ 18 * 2 + rtr
        else c * 2 ^ 21 + rtr * 2 ^ 20)"

lemma ext_field_less:
  fixes c d r s :: nat
  assumes "r \<le> 1" and "s \<le> 1"
  shows "c div 2 ^ 18 * 2 ^ 21 + k + c mod 2 ^ 18 * 2 + r <
      d div 2 ^ 18 * 2 ^ 21 + k + d mod 2 ^ 18 * 2 + s \<longleftrightarrow> c < d \<or> (c = d \<and> r < s)"
proof -
  define q m q' m' where "q = c div 2 ^ 18" "m = c mod 2 ^ 18" "q' = d div 2 ^ 18" "m' = d mod 2 ^ 18"
  then have "c = q * 2 ^ 18 + m" "m < 2 ^ 18" "d = q' * 2 ^ 18 + m'" "m' < 2 ^ 18" by simp_all
  then show ?thesis
    unfolding \<open>q = _\<close> [symmetric] \<open>m = _\<close> [symmetric] \<open>q' = _\<close> [symmetric] \<open>m' = _\<close> [symmetric]
    using assms by (cases q q' rule: linorder_cases) auto
qed

lemma priority_same_format:
  assumes "isExtended f = isExtended g"
  shows "priorityHigherThan f g \<longleftrightarrow>
    unat (cf_id f AND MaskExtID) < unat (cf_id g AND MaskExtID) \<or>
    (unat (cf_id f AND MaskExtID) = unat (cf_id g AND MaskExtID) \<and>
     \<not> isRemoteTransmissionRequest f \<and> isRemoteTransmissionRequest g)"
  using assms
  by (auto simp: priorityHigherThan_def Let_def isExtended_def isRemoteTransmissionRequest_def
      word_less_nat_alt word_unat_eq_iff)

lemma priority_mixed_format:
  assumes "isExtended f" and "\<not> isExtended g"
  shows "priorityHigherThan f g \<longleftrightarrow>
      unat (cf_id f AND MaskExtID) div 2 ^ 18 < unat (cf_id g AND MaskExtID)"
    and "priorityHigherThan g f \<longleftrightarrow>
      unat (cf_id g AND MaskExtID) \<le> unat (cf_id f AND MaskExtID) div 2 ^ 18"
  using assms
  by (auto simp: priorityHigherThan_def Let_def isExtended_def word_less_nat_alt
      unat_drop_bit word_unat_eq_iff simp del: drop_bit_and)

lemma std_field_less:
  fixes c d r s :: nat
  assumes "r \<le> 1" and "s \<le> 1"
  shows "c * 2 ^ 21 + r * 2 ^ 20 < d * 2 ^ 21 + s * 2 ^ 20 \<longleftrightarrow> c < d \<or> (c = d \<and> r < s)"
  using assms by (cases c d rule: linorder_cases) auto

lemma mixed_field_less:
  fixes c d m r s :: nat
  assumes "r \<le> 1" and "s \<le> 1" and "m < 2 ^ 18"
  shows "c * 2 ^ 21 + 2 ^ 20 + 2 ^ 19 + m * 2 + r < d * 2 ^ 21 + s * 2 ^ 20 \<longleftrightarrow> c < d"
    and "d * 2 ^ 21 + s * 2 ^ 20 < c * 2 ^ 21 + 2 ^ 20 + 2 ^ 19 + m * 2 + r \<longleftrightarrow> d \<le> c"
  using assms by (cases c d rule: linorder_cases; auto)+

lemma priority_arbitration:
  "priorityHigherThan f g \<longleftrightarrow> arbitration_field f < arbitration_field g"
proof -
  define c d where "c = unat (cf_id f AND MaskExtID)" and "d = unat (cf_id g AND MaskExtID)"
  have [simp]: "c mod 2 ^ 18 < 2 ^ 18" "d mod 2 ^ 18 < 2 ^ 18" by simp_all
  consider "isExtended f" "isExtended g" | "\<not> isExtended f" "\<not> isExtended g"
    | "isExtended f" "\<not> isExtended g" | "\<not> isExtended f" "isExtended g" by blast
  then show ?thesis
  proof cases
    case 1
    then show ?thesis
      using ext_field_less [of "of_bool (isRemoteTransmissionRequest f)"
          "of_bool (isRemoteTransmissionRequest g)" c "2 ^ 20 + 2 ^ 19" d]
      by (simp add: priority_same_format arbitration_field_def Let_def c_def d_def add.assoc)
  next
    case 2
    then show ?thesis
      using std_field_less [of "of_bool (isRemoteTransmissionRequest f)"
          "of_bool (isRemoteTransmissionRequest g)" c d]
      by (simp add: priority_same_format arbitration_field_def Let_def c_def d_def)
  next
    case 3
    then show ?thesis
      using mixed_field_less(1) [of "of_bool (isRemoteTransmissionRequest f)"
          "of_bool (isRemoteTransmissionRequest g)" "c mod 2 ^ 18" "c div 2 ^ 18" d]
      by (simp add: priority_mixed_format arbitration_field_def Let_def c_def d_def)
  next
    case 4
    then show ?thesis
      using mixed_field_less(2) [of "of_bool (isRemoteTransmissionRequest g)"
          "of_bool (isRemoteTransmissionRequest f)" "d mod 2 ^ 18" c "d div 2 ^ 18"]
      by (simp add: priority_mixed_format arbitration_field_def Let_def c_def d_def)
  qed
qed

text \<open>
  C29.  \<^verbatim>\<open>CanFrame::priorityHigherThan\<close> implements the arbitration of the bus: one frame has higher
  priority than another exactly when the arbitration field it transmits is smaller, for all four
  combinations of standard and extended identifiers and with remote requests.
\<close>

theorem priority_is_arbitration:
  "priorityHigherThan f g \<longleftrightarrow> arbitration_field f < arbitration_field g"
  by (rule priority_arbitration)

end
