(* ===== verification/Frames.thy ===== *)
theory Frames
  imports CanFrames TransferTypes
begin

text \<open>
  UAVCAN frames and their CAN representation (\<^verbatim>\<open>transport/frame.hpp\<close>, \<^verbatim>\<open>uc_frame.cpp\<close>).
  The payload array and its length are one list, the first \<^verbatim>\<open>payload_len_\<close> bytes of the array:
  no operation reads beyond them.  The lemmas show that \<^verbatim>\<open>compile\<close> and \<^verbatim>\<open>parse\<close> are inverse
  on valid frames, and what the anonymous discriminator does to the data type ID.
\<close>

section \<open>Definitions\<close>

record frame =
  fr_payload :: "u8 list"
  fr_priority :: transfer_priority
  fr_transfer_type :: transfer_type
  fr_data_type_id :: data_type_id
  fr_src_node_id :: node_id
  fr_dst_node_id :: node_id
  fr_transfer_id :: transfer_id
  fr_start_of_transfer :: bool
  fr_end_of_transfer :: bool
  fr_toggle :: bool

definition PayloadCapacity :: nat where
  "PayloadCapacity = 7"

text \<open>The constructor with five arguments.\<close>

definition Frame :: "data_type_id \<Rightarrow> transfer_type \<Rightarrow> node_id \<Rightarrow> node_id \<Rightarrow> transfer_id \<Rightarrow> frame" where
  "Frame data_type_id transfer_type src_node_id dst_node_id transfer_id =
    \<lparr>fr_payload = [], fr_priority = priority_Default, fr_transfer_type = transfer_type,
     fr_data_type_id = data_type_id, fr_src_node_id = src_node_id, fr_dst_node_id = dst_node_id,
     fr_transfer_id = transfer_id, fr_start_of_transfer = False, fr_end_of_transfer = False,
     fr_toggle = False\<rparr>"

text \<open>\<^verbatim>\<open>setPayload\<close> copies at most seven bytes and returns how many.\<close>

definition setPayload :: "frame \<Rightarrow> u8 list \<Rightarrow> frame \<times> nat" where
  "setPayload f data =
    (let len = min PayloadCapacity (length data)
     in (f\<lparr>fr_payload := take len data\<rparr>, len))"

definition flipToggle :: "frame \<Rightarrow> frame" where
  "flipToggle f = f\<lparr>fr_toggle := \<not> fr_toggle f\<rparr>"

definition frame_isValid :: "frame \<Rightarrow> bool" where
  "frame_isValid f =
    (if fr_start_of_transfer f \<and> fr_toggle f then False
     else if \<not> node_id_isValid (fr_src_node_id f) \<or> \<not> node_id_isValid (fr_dst_node_id f) then False
     else if node_id_isUnicast (fr_src_node_id f) \<and> fr_src_node_id f = fr_dst_node_id f then False
     else if transfer_type_value (fr_transfer_type f) \<ge> transfer_type_value NumTransferTypes then False
     else if (fr_transfer_type f = TransferTypeMessageBroadcast)
              \<noteq> node_id_isBroadcast (fr_dst_node_id f) then False
     else if node_id_isBroadcast (fr_src_node_id f) \<and>
             (\<not> fr_start_of_transfer f \<or> \<not> fr_end_of_transfer f \<or>
              fr_transfer_type f \<noteq> TransferTypeMessageBroadcast) then False
     else if length (fr_payload f) > PayloadCapacity then False
     else if \<not> isValidForDataTypeKind (fr_data_type_id f)
                (getDataTypeKindForTransferType (fr_transfer_type f)) then False
     else if \<not> priority_isValid (fr_priority f) then False
     else True)"

definition bitunpack :: "nat \<Rightarrow> nat \<Rightarrow> u32 \<Rightarrow> u32" where
  "bitunpack offset width val = drop_bit offset val AND mask width"

definition bitpack :: "nat \<Rightarrow> nat \<Rightarrow> u32 \<Rightarrow> u32" where
  "bitpack offset width field = push_bit offset (field AND mask width)"

text \<open>
  \<^verbatim>\<open>Frame::parse\<close>: \<open>None\<close> where it returns false (the object is then discarded by every
  caller), else the parsed frame.
\<close>

definition frame_parse :: "can_frame \<Rightarrow> frame option" where
  "frame_parse can_frame =
    (if isErrorFrame can_frame \<or> isRemoteTransmissionRequest can_frame \<or> \<not> isExtended can_frame
     then None
     else if unat (cf_dlc can_frame) > MaxDataLen then None
     else if cf_dlc can_frame < 1 then None
     else
       (let id = cf_id can_frame AND MaskExtID;
            priority = ucast (bitunpack 24 5 id);
            src = ucast (bitunpack 0 7 id);
            service_not_message = (bitunpack 7 1 id \<noteq> 0);
            request_not_response = (bitunpack 15 1 id \<noteq> 0);
            transfer_type =
              (if service_not_message
               then (if request_not_response then TransferTypeServiceRequest
                     else TransferTypeServiceResponse)
               else TransferTypeMessageBroadcast);
            dst = (if service_not_message then ucast (bitunpack 8 7 id) else node_id_Broadcast);
            data_type_id =
              (if service_not_message then ucast (ucast (bitunpack 16 8 id) :: u16)
               else if node_id_isBroadcast src
               then ucast ((ucast (bitunpack 8 16 id) :: u16) AND 3)
               else ucast (ucast (bitunpack 8 16 id) :: u16));
            payload_len = unat (cf_dlc can_frame - 1);
            tail = cf_data can_frame ! payload_len;
            f = \<lparr>fr_payload = take payload_len (cf_data can_frame), fr_priority = priority,
                 fr_transfer_type = transfer_type, fr_data_type_id = data_type_id,
                 fr_src_node_id = src, fr_dst_node_id = dst,
                 fr_transfer_id = TransferID (tail AND tid_Max),
                 fr_start_of_transfer = (tail AND push_bit 7 1 \<noteq> 0),
                 fr_end_of_transfer = (tail AND push_bit 6 1 \<noteq> 0),
                 fr_toggle = (tail AND push_bit 5 1 \<noteq> 0)\<rparr>
        in if frame_isValid f then Some f else None))"

text \<open>The tail byte and the identifier that \<^verbatim>\<open>compile\<close> writes.\<close>

definition frame_tail :: "frame \<Rightarrow> u8" where
  "frame_tail f =
    (let t0 = fr_transfer_id f;
         t1 = (if fr_start_of_transfer f then t0 OR push_bit 7 1 else t0);
         t2 = (if fr_end_of_transfer f then t1 OR push_bit 6 1 else t1)
     in if fr_toggle f then t2 OR push_bit 5 1 else t2)"

definition frame_can_id :: "frame \<Rightarrow> u32" where
  "frame_can_id f =
    (FlagEFF OR bitpack 0 7 (ucast (fr_src_node_id f)) OR bitpack 24 5 (ucast (fr_priority f))) OR
    (if fr_transfer_type f = TransferTypeMessageBroadcast
     then bitpack 7 1 0 OR bitpack 8 16 (ucast (data_type_id_get (fr_data_type_id f)))
     else bitpack 7 1 1 OR bitpack 8 7 (ucast (fr_dst_node_id f)) OR
          bitpack 15 1 (if fr_transfer_type f = TransferTypeServiceRequest then 1 else 0) OR
          bitpack 16 8 (ucast (data_type_id_get (fr_data_type_id f))))"

text \<open>
  \<^verbatim>\<open>Frame::compile\<close> overwrites a CAN frame; bytes of its data array behind the new length
  keep their old values.
\<close>

definition frame_compile :: "frame \<Rightarrow> can_frame \<Rightarrow> can_frame option" where
  "frame_compile f out_can_frame =
    (if \<not> frame_isValid f then None
     else
       (let data = overwrite (cf_data out_can_frame) 0 (fr_payload f);
            data = data[length (fr_payload f) := frame_tail f];
            dlc = word_of_nat (length (fr_payload f)) + 1;
            crc = crc_add_bytes crc_init (take (unat dlc) data);
            id = (if node_id_isBroadcast (fr_src_node_id f)
                  then frame_can_id f OR bitpack 10 14 (ucast (crc AND (push_bit 14 1 - 1)))
                  else frame_can_id f)
        in Some \<lparr>cf_id = id, cf_data = data, cf_dlc = dlc\<rparr>))"

text \<open>\<^verbatim>\<open>operator==\<close> compares every field, which is equality of the records.\<close>

definition frame_eq :: "frame \<Rightarrow> frame \<Rightarrow> bool" where
  "frame_eq a b \<longleftrightarrow>
     fr_priority a = fr_priority b \<and> fr_transfer_type a = fr_transfer_type b \<and>
     fr_data_type_id a = fr_data_type_id b \<and> fr_src_node_id a = fr_src_node_id b \<and>
     fr_dst_node_id a = fr_dst_node_id b \<and> fr_transfer_id a = fr_transfer_id b \<and>
     fr_toggle a = fr_toggle b \<and> fr_start_of_transfer a = fr_start_of_transfer b \<and>
     fr_end_of_transfer a = fr_end_of_transfer b \<and>
     length (fr_payload a) = length (fr_payload b) \<and> fr_payload a = fr_payload b"

record rx_frame =
  rxf_frame :: frame
  rxf_ts_mono :: time
  rxf_ts_utc :: time
  rxf_iface_index :: u8

definition rx_frame_parse :: "can_rx_frame \<Rightarrow> rx_frame option" where
  "rx_frame_parse can_frame =
    (case frame_parse (rx_can can_frame) of
       None \<Rightarrow> None
     | Some f \<Rightarrow>
         if rx_ts_mono can_frame = 0 then None
         else Some \<lparr>rxf_frame = f, rxf_ts_mono = rx_ts_mono can_frame,
                    rxf_ts_utc = rx_ts_utc can_frame,
                    rxf_iface_index = rx_iface_index can_frame\<rparr>)"

section \<open>Bit fields\<close>

lemma bitunpack_or: "bitunpack n w (a OR b) = bitunpack n w a OR bitunpack n w b"
  by (rule bit_word_eqI) (auto simp: bitunpack_def bit_simps)

lemma bitunpack_same: "n + w \<le> 32 \<Longrightarrow> bitunpack n w (bitpack n w x) = x AND mask w"
  by (rule bit_word_eqI) (auto simp: bitunpack_def bitpack_def bit_simps)

lemma bitunpack_above: "m + v \<le> n \<Longrightarrow> bitunpack n w (bitpack m v x) = 0"
  by (rule bit_word_eqI) (auto simp: bitunpack_def bitpack_def bit_simps)

lemma bitunpack_below: "n + w \<le> m \<Longrightarrow> bitunpack n w (bitpack m v x) = 0"
  by (rule bit_word_eqI) (auto simp: bitunpack_def bitpack_def bit_simps)

lemma FlagEFF_bitpack: "FlagEFF = bitpack 31 1 1"
  by (simp add: FlagEFF_def bitpack_def)

lemma bitunpack_FlagEFF: "n + w \<le> 31 \<Longrightarrow> bitunpack n w FlagEFF = 0"
  by (simp add: FlagEFF_bitpack bitunpack_below)

lemma MaskExtID_mask: "MaskExtID = mask 29"
  by (simp add: MaskExtID_def mask_eq_exp_minus_1)

lemma bitunpack_MaskExtID: "n + w \<le> 29 \<Longrightarrow> bitunpack n w (x AND MaskExtID) = bitunpack n w x"
  by (rule bit_word_eqI) (auto simp: bitunpack_def MaskExtID_mask bit_simps)

lemma bitunpack_if:
  "bitunpack n w (if c then a else b) = (if c then bitunpack n w a else bitunpack n w b)"
  by simp

lemmas bitunpack_simps =
  bitunpack_or bitunpack_same bitunpack_above bitunpack_below bitunpack_FlagEFF
  bitunpack_MaskExtID bitunpack_if

lemma bit_bitpack: "bit (bitpack m v x) n \<longleftrightarrow> m \<le> n \<and> n < m + v \<and> n < 32 \<and> bit x (n - m)"
  by (auto simp: bitpack_def bit_simps)

lemma flag_bits:
  "isExtended c \<longleftrightarrow> bit (cf_id c) 31"
  "isRemoteTransmissionRequest c \<longleftrightarrow> bit (cf_id c) 30"
  "isErrorFrame c \<longleftrightarrow> bit (cf_id c) 29"
  using and_exp_eq_0_iff_not_bit [of "cf_id c" 31] and_exp_eq_0_iff_not_bit [of "cf_id c" 30]
    and_exp_eq_0_iff_not_bit [of "cf_id c" 29]
  by (simp_all add: isExtended_def isRemoteTransmissionRequest_def isErrorFrame_def
      FlagEFF_def FlagRTR_def FlagERR_def)

lemma frame_can_id_flags:
  "bit (frame_can_id f) 31" "\<not> bit (frame_can_id f) 30" "\<not> bit (frame_can_id f) 29"
  by (auto simp: frame_can_id_def bit_or_iff bit_bitpack FlagEFF_bitpack)

lemma frame_can_id_fields:
  "bitunpack 24 5 (frame_can_id f) = ucast (fr_priority f) AND mask 5"
  "bitunpack 0 7 (frame_can_id f) = ucast (fr_src_node_id f) AND mask 7"
  "bitunpack 7 1 (frame_can_id f) =
     (if fr_transfer_type f = TransferTypeMessageBroadcast then 0 else 1)"
  by (simp_all add: frame_can_id_def bitunpack_simps)

lemma frame_can_id_message_fields:
  "fr_transfer_type f = TransferTypeMessageBroadcast \<Longrightarrow>
    bitunpack 8 16 (frame_can_id f) = ucast (data_type_id_get (fr_data_type_id f)) AND mask 16"
  by (simp add: frame_can_id_def bitunpack_simps)

lemma frame_can_id_service_fields:
  assumes "fr_transfer_type f \<noteq> TransferTypeMessageBroadcast"
  shows "bitunpack 8 7 (frame_can_id f) = ucast (fr_dst_node_id f) AND mask 7"
    and "bitunpack 15 1 (frame_can_id f) =
      (if fr_transfer_type f = TransferTypeServiceRequest then 1 else 0)"
    and "bitunpack 16 8 (frame_can_id f) =
      ucast (data_type_id_get (fr_data_type_id f)) AND mask 8"
  using assms by (simp_all add: frame_can_id_def bitunpack_simps)

lemma ucast_mask_id:
  "n \<le> 8 \<Longrightarrow> unat (x :: u8) < 2 ^ n \<Longrightarrow> ucast (ucast x AND mask n :: u32) = x"
  by (rule bit_word_eqI) (auto simp: bit_simps dest: unat_less_bit)

section \<open>The tail byte\<close>

lemma tid_bits: "tid \<le> tid_Max \<Longrightarrow> bit tid n \<Longrightarrow> n < 5"
  by (rule unat_less_bit [of tid 5]) (simp_all add: word_le_nat_alt)

lemma tid_masks:
  assumes "tid \<le> tid_Max"
  shows "tid AND 31 = tid" "tid AND 128 = 0" "tid AND 64 = 0" "tid AND 32 = 0"
proof -
  have "tid AND mask 5 = tid"
    using tid_bits [OF assms] by (intro bit_word_eqI) (auto simp: bit_simps)
  then show "tid AND 31 = tid" by (simp add: mask_eq_exp_minus_1)
  show "tid AND 128 = 0" "tid AND 64 = 0" "tid AND 32 = 0"
    using and_exp_eq_0_iff_not_bit [of tid 7] and_exp_eq_0_iff_not_bit [of tid 6]
      and_exp_eq_0_iff_not_bit [of tid 5] tid_bits [OF assms, of 7] tid_bits [OF assms, of 6]
      tid_bits [OF assms, of 5]
    by auto
qed

lemma frame_tail_fields:
  assumes "fr_transfer_id f \<le> tid_Max"
  shows "TransferID (frame_tail f AND tid_Max) = fr_transfer_id f"
    and "frame_tail f AND push_bit 7 1 \<noteq> 0 \<longleftrightarrow> fr_start_of_transfer f"
    and "frame_tail f AND push_bit 6 1 \<noteq> 0 \<longleftrightarrow> fr_end_of_transfer f"
    and "frame_tail f AND push_bit 5 1 \<noteq> 0 \<longleftrightarrow> fr_toggle f"
  by (simp_all add: frame_tail_def Let_def TransferID_def bit.conj_disj_distrib2 tid_masks [OF assms])

section \<open>Parsing what was compiled\<close>

lemma frame_isValid_iff:
  "frame_isValid f \<longleftrightarrow>
    \<not> (fr_start_of_transfer f \<and> fr_toggle f) \<and>
    fr_src_node_id f \<le> 127 \<and> fr_dst_node_id f \<le> 127 \<and>
    (fr_src_node_id f \<noteq> 0 \<longrightarrow> fr_src_node_id f \<noteq> fr_dst_node_id f) \<and>
    fr_transfer_type f \<noteq> NumTransferTypes \<and>
    (fr_transfer_type f = TransferTypeMessageBroadcast \<longleftrightarrow> fr_dst_node_id f = 0) \<and>
    (fr_src_node_id f = 0 \<longrightarrow> fr_start_of_transfer f \<and> fr_end_of_transfer f \<and>
      fr_transfer_type f = TransferTypeMessageBroadcast) \<and>
    length (fr_payload f) \<le> 7 \<and>
    isValidForDataTypeKind (fr_data_type_id f) (getDataTypeKindForTransferType (fr_transfer_type f)) \<and>
    fr_priority f < 32"
  by (cases "fr_transfer_type f")
     (auto simp: frame_isValid_def node_id_isValid_def node_id_isUnicast_def node_id_isBroadcast_def
       node_id_Broadcast_def PayloadCapacity_def priority_isValid_def)

lemma data_type_id_bound:
  "isValidForDataTypeKind d k \<Longrightarrow> unat d < 65536"
  "isValidForDataTypeKind d DataTypeKindService \<Longrightarrow> unat d < 256"
  by (cases k; auto simp: isValidForDataTypeKind_def data_type_id_get_def word_le_nat_alt)+

lemma dtid_ucast: "unat (d :: u32) < 65536 \<Longrightarrow> ucast (ucast d :: u16) = d"
  by (rule bit_word_eqI) (use unat_less_bit [of d 16] in \<open>auto simp: bit_simps\<close>)

lemma dtid_ucast_mask:
  "unat (d :: u32) < 65536 \<Longrightarrow> ucast (ucast (ucast (ucast d :: u16) AND mask 16 :: u32) :: u16) = d"
  by (rule bit_word_eqI) (use unat_less_bit [of d 16] in \<open>auto simp: bit_simps\<close>)

lemma dtid_ucast_mask8:
  "unat (d :: u32) < 256 \<Longrightarrow> ucast (ucast (ucast (ucast d :: u16) AND mask 8 :: u32) :: u16) = d"
  by (rule bit_word_eqI)
     (use unat_less_bit [of d 8] unat_less_bit [of d 16] in \<open>auto simp: bit_simps\<close>)

definition compiled_data :: "frame \<Rightarrow> u8 list \<Rightarrow> u8 list" where
  "compiled_data f old = (overwrite old 0 (fr_payload f))[length (fr_payload f) := frame_tail f]"

lemma compiled_data:
  assumes "length (fr_payload f) \<le> 7" and "length old = 8"
  shows "length (compiled_data f old) = 8"
    and "take (length (fr_payload f)) (compiled_data f old) = fr_payload f"
    and "compiled_data f old ! length (fr_payload f) = frame_tail f"
    and "take (Suc (length (fr_payload f))) (compiled_data f old) = fr_payload f @ [frame_tail f]"
  using assms by (simp_all add: compiled_data_def overwrite_def take_Suc_conv_app_nth)

definition compiled_id :: "frame \<Rightarrow> u32" where
  "compiled_id f =
    (if fr_src_node_id f = 0
     then frame_can_id f OR bitpack 10 14
       (ucast (crc_add_bytes crc_init (fr_payload f @ [frame_tail f]) AND (push_bit 14 1 - 1)))
     else frame_can_id f)"

lemma dlc_word:
  assumes "n \<le> 7"
  shows "unat (word_of_nat n + 1 :: u8) = Suc n" and "unat (word_of_nat n :: u8) = n"
  using assms by (simp_all add: unat_word_ariths unat_of_nat)

lemma frame_compile_eq:
  assumes "frame_isValid f" and "length (cf_data out) = 8"
  shows "frame_compile f out =
    Some \<lparr>cf_id = compiled_id f, cf_data = compiled_data f (cf_data out),
          cf_dlc = word_of_nat (length (fr_payload f)) + 1\<rparr>"
proof -
  have "length (fr_payload f) \<le> 7" using assms by (simp add: frame_isValid_iff)
  then show ?thesis
    using assms dlc_word [of "length (fr_payload f)"] compiled_data(4) [of f "cf_data out"]
    by (simp add: frame_compile_def Let_def compiled_id_def node_id_isBroadcast_def
        node_id_Broadcast_def compiled_data_def)
qed

lemma compiled_id_flags:
  "bit (compiled_id f) 31" "\<not> bit (compiled_id f) 30" "\<not> bit (compiled_id f) 29"
  by (auto simp: compiled_id_def bit_or_iff bit_bitpack frame_can_id_flags)

lemma compiled_id_fields:
  "bitunpack 24 5 (compiled_id f) = ucast (fr_priority f) AND mask 5"
  "bitunpack 0 7 (compiled_id f) = ucast (fr_src_node_id f) AND mask 7"
  "bitunpack 7 1 (compiled_id f) =
     (if fr_transfer_type f = TransferTypeMessageBroadcast then 0 else 1)"
  by (simp_all add: compiled_id_def bitunpack_simps frame_can_id_fields del: One_nat_def)

lemma discriminator_mask:
  "(ucast (bitunpack 8 16 (a OR bitpack 10 14 x)) :: u16) AND 3 = ucast (bitunpack 8 16 a) AND 3"
proof -
  have "(ucast (bitunpack 8 16 (bitpack 10 14 x)) :: u16) AND mask 2 = 0"
    by (rule bit_word_eqI) (auto simp: bit_simps bitunpack_def bitpack_def)
  then show ?thesis
    by (simp add: bitunpack_or unsigned_or_eq bit.conj_disj_distrib2 mask_eq_exp_minus_1)
qed

lemma compiled_id_data_type:
  assumes "frame_isValid f"
  shows "fr_transfer_type f = TransferTypeMessageBroadcast \<Longrightarrow> fr_src_node_id f \<noteq> 0 \<Longrightarrow>
      ucast (ucast (bitunpack 8 16 (compiled_id f)) :: u16) = fr_data_type_id f"
    and "fr_src_node_id f = 0 \<Longrightarrow>
      ucast ((ucast (bitunpack 8 16 (compiled_id f)) :: u16) AND 3) = fr_data_type_id f AND 3"
    and "fr_transfer_type f \<noteq> TransferTypeMessageBroadcast \<Longrightarrow>
      ucast (ucast (bitunpack 16 8 (compiled_id f)) :: u16) = fr_data_type_id f"
proof -
  have v: "isValidForDataTypeKind (fr_data_type_id f)
      (getDataTypeKindForTransferType (fr_transfer_type f))"
    using assms by (simp add: frame_isValid_iff)
  note b = data_type_id_bound(1) [OF v]
  show "ucast (ucast (bitunpack 8 16 (compiled_id f)) :: u16) = fr_data_type_id f"
    if "fr_transfer_type f = TransferTypeMessageBroadcast" "fr_src_node_id f \<noteq> 0"
    using that b by (simp add: compiled_id_def frame_can_id_message_fields data_type_id_get_def
        dtid_ucast_mask)
  show "ucast ((ucast (bitunpack 8 16 (compiled_id f)) :: u16) AND 3) = fr_data_type_id f AND 3"
    if "fr_src_node_id f = 0"
  proof -
    have "fr_transfer_type f = TransferTypeMessageBroadcast"
      using assms that by (simp add: frame_isValid_iff)
    then show ?thesis using that dtid_ucast_mask [OF b]
      by (simp add: compiled_id_def discriminator_mask frame_can_id_message_fields
          data_type_id_get_def unsigned_and_eq)
  qed
  show "ucast (ucast (bitunpack 16 8 (compiled_id f)) :: u16) = fr_data_type_id f"
    if "fr_transfer_type f \<noteq> TransferTypeMessageBroadcast"
  proof -
    have "isValidForDataTypeKind (fr_data_type_id f) DataTypeKindService"
      using v that assms by (cases "fr_transfer_type f") (auto simp: frame_isValid_iff)
    from data_type_id_bound(2) [OF this] show ?thesis
      using that assms
      by (auto simp: compiled_id_def frame_can_id_service_fields data_type_id_get_def
          dtid_ucast_mask8 frame_isValid_iff)
  qed
qed

lemma compiled_id_service:
  assumes "frame_isValid f" and "fr_transfer_type f \<noteq> TransferTypeMessageBroadcast"
  shows "bitunpack 8 7 (compiled_id f) = ucast (fr_dst_node_id f) AND mask 7"
    and "bitunpack 15 1 (compiled_id f) =
      (if fr_transfer_type f = TransferTypeServiceRequest then 1 else 0)"
  using assms
  by (auto simp: compiled_id_def frame_can_id_service_fields frame_isValid_iff simp del: One_nat_def)

text \<open>The record that \<^verbatim>\<open>parse\<close> builds from a compiled frame.\<close>

definition decoded :: "frame \<Rightarrow> frame" where
  "decoded f =
    (if fr_src_node_id f = 0 then f\<lparr>fr_data_type_id := fr_data_type_id f AND 3\<rparr> else f)"

lemma decoded_isValid: "frame_isValid f \<Longrightarrow> frame_isValid (decoded f)"
proof -
  assume "frame_isValid f"
  moreover have le: "d AND 3 \<le> d" for d :: u32 by (simp add: word_and_le2)
  ultimately show ?thesis
    by (auto simp: frame_isValid_iff decoded_def isValidForDataTypeKind_def
        intro: order_trans [OF le])
qed

lemma frame_parse_compiled:
  assumes v: "frame_isValid f" and tid: "fr_transfer_id f \<le> tid_Max" and len: "length old = 8"
  shows "frame_parse \<lparr>cf_id = compiled_id f, cf_data = compiled_data f old,
      cf_dlc = word_of_nat (length (fr_payload f)) + 1\<rparr> = Some (decoded f)"
proof -
  have l: "length (fr_payload f) \<le> 7" using v by (simp add: frame_isValid_iff)
  note d = dlc_word [OF l]
  have ids: "ucast (ucast (fr_priority f) AND mask 5 :: u32) = fr_priority f"
    "ucast (ucast (fr_src_node_id f) AND mask 7 :: u32) = fr_src_node_id f"
    "ucast (ucast (fr_dst_node_id f) AND mask 7 :: u32) = fr_dst_node_id f"
    using v by (auto intro!: ucast_mask_id simp: frame_isValid_iff word_less_nat_alt word_le_nat_alt)
  have tt: "fr_transfer_type f \<noteq> NumTransferTypes" using v by (simp add: frame_isValid_iff)
  have dst: "fr_transfer_type f = TransferTypeMessageBroadcast \<Longrightarrow> fr_dst_node_id f = 0"
    and src: "fr_src_node_id f = 0 \<Longrightarrow> fr_transfer_type f = TransferTypeMessageBroadcast"
    using v by (auto simp: frame_isValid_iff)
  have lo: "(word_of_nat (length (fr_payload f)) + 1 :: u8) \<noteq> 0"
    using d(1) by (metis unat_0 nat.distinct(1))
  have mk: "\<lparr>fr_payload = fr_payload f, fr_priority = fr_priority f, fr_transfer_type = tt,
      fr_data_type_id = d, fr_src_node_id = src, fr_dst_node_id = dst,
      fr_transfer_id = fr_transfer_id f, fr_start_of_transfer = fr_start_of_transfer f,
      fr_end_of_transfer = fr_end_of_transfer f, fr_toggle = fr_toggle f\<rparr> = decoded f"
    if "tt = fr_transfer_type f" "src = fr_src_node_id f" "dst = fr_dst_node_id f"
      "d = fr_data_type_id (decoded f)" for tt src dst d
    using that by (simp add: decoded_def)
  show ?thesis
    using decoded_isValid [OF v] tt dst src l
    by (cases "fr_transfer_type f"; cases "fr_src_node_id f = 0")
       (simp_all add: frame_parse_def Let_def flag_bits compiled_id_flags d lo MaxDataLen_def
        bitunpack_MaskExtID compiled_id_fields compiled_id_service [OF v] ids
        compiled_id_data_type [OF v] compiled_data [OF l len]
        frame_tail_fields [OF tid, simplified] mk decoded_def [THEN arg_cong [of _ _ fr_data_type_id]]
        node_id_isBroadcast_def node_id_Broadcast_def del: One_nat_def)
qed

lemma decoded_id:
  "(fr_src_node_id f = 0 \<Longrightarrow> fr_data_type_id f \<le> 3) \<Longrightarrow> decoded f = f"
proof -
  assume a: "fr_src_node_id f = 0 \<Longrightarrow> fr_data_type_id f \<le> 3"
  have "d AND mask 2 = d" if "d \<le> 3" for d :: u32
    using that unat_less_bit [of d 2]
    by (intro bit_word_eqI) (auto simp: bit_simps word_le_nat_alt)
  then show ?thesis using a by (simp add: decoded_def mask_eq_exp_minus_1)
qed

text \<open>
  C14.  A valid frame survives the wire: \<^verbatim>\<open>compile\<close> succeeds, whatever the output frame held, and
  \<^verbatim>\<open>parse\<close> of the result gives the frame back.  For anonymous frames (source node ID zero), where
  the CAN ID also carries the discriminator, the data type ID must fit its two remaining bits.
\<close>

theorem frame_roundtrip:
  assumes "frame_isValid f" and "fr_transfer_id f \<le> tid_Max"
    and "fr_src_node_id f = 0 \<Longrightarrow> fr_data_type_id f \<le> 3"
    and "length (cf_data out) = MaxDataLen"
  shows "\<exists>c. frame_compile f out = Some c \<and> frame_parse c = Some f"
  using assms frame_compile_eq [of f out] frame_parse_compiled [of f "cf_data out"] decoded_id [of f]
  by (simp add: MaxDataLen_def)

definition example_frame :: frame where
  "example_frame =
    \<lparr>fr_payload = [1, 2, 3], fr_priority = 16, fr_transfer_type = TransferTypeServiceRequest,
     fr_data_type_id = 200, fr_src_node_id = 42, fr_dst_node_id = 43, fr_transfer_id = 30,
     fr_start_of_transfer = True, fr_end_of_transfer = True, fr_toggle = False\<rparr>"

lemma example_frame_valid: "frame_isValid example_frame"
  by (simp add: frame_isValid_iff example_frame_def isValidForDataTypeKind_def data_type_id_get_def)

theorem frame_roundtrip_witness:
  "\<exists>c. frame_compile example_frame can_frame_default = Some c \<and> frame_parse c = Some example_frame"
  by (rule frame_roundtrip)
     (simp_all add: example_frame_valid, simp_all add: example_frame_def can_frame_default_def)

text \<open>
  C38.  The anonymous discriminator overwrites the upper 14 bits of the data type ID: a valid
  anonymous frame is compiled whatever its data type ID, and what the receivers parse carries
  only the two low bits of it.
\<close>

theorem anonymous_data_type_truncated:
  assumes "frame_isValid f" and "fr_transfer_id f \<le> tid_Max"
    and "node_id_isBroadcast (fr_src_node_id f)" and "length (cf_data out) = MaxDataLen"
  shows "\<exists>c. frame_compile f out = Some c \<and>
    frame_parse c = Some (f\<lparr>fr_data_type_id := fr_data_type_id f AND 3\<rparr>)"
  using assms frame_compile_eq [of f out] frame_parse_compiled [of f "cf_data out"]
  by (simp add: MaxDataLen_def decoded_def node_id_isBroadcast_def node_id_Broadcast_def)

definition example_anonymous :: frame where
  "example_anonymous =
    \<lparr>fr_payload = [7], fr_priority = 31, fr_transfer_type = TransferTypeMessageBroadcast,
     fr_data_type_id = 341, fr_src_node_id = 0, fr_dst_node_id = 0, fr_transfer_id = 0,
     fr_start_of_transfer = True, fr_end_of_transfer = True, fr_toggle = False\<rparr>"

theorem anonymous_data_type_truncated_witness:
  "\<exists>c. frame_compile example_anonymous can_frame_default = Some c \<and>
    frame_parse c = Some (example_anonymous\<lparr>fr_data_type_id := fr_data_type_id example_anonymous AND 3\<rparr>)"
  by (rule anonymous_data_type_truncated)
     (simp_all add: frame_isValid_iff example_anonymous_def isValidForDataTypeKind_def
       data_type_id_get_def can_frame_default_def node_id_isBroadcast_def node_id_Broadcast_def)

end
