(* ===== verification/LinkedLists.thy ===== *)
theory LinkedLists
  imports UavPrelude
begin

text \<open>
  The intrusive singly linked list \<^verbatim>\<open>LinkedListRoot<T>\<close> of \<^verbatim>\<open>util/linked_list.hpp\<close>, on which
  the TX queue, the listener registries, the containers and the scheduler are built.  Nodes are
  addresses; the store maps each node to its \<^verbatim>\<open>next_\<close> pointer.  Every traversal is a loop that
  would not end on a cyclic chain, so the loops are partial functions; on a well-formed chain
  they return, and each operation implements the corresponding function on lists.
\<close>

section \<open>Definitions\<close>

type_synonym addr = nat

text \<open>The \<^verbatim>\<open>next_\<close> fields of all nodes; \<open>None\<close> is the null pointer.\<close>

type_synonym next_store = "addr \<Rightarrow> addr option"

record linked_list =
  ll_root :: "addr option"
  ll_next :: next_store

partial_function (option) ll_length_loop :: "next_store \<Rightarrow> addr option \<Rightarrow> nat \<Rightarrow> nat option" where
  "ll_length_loop nxt node cnt =
    (case node of
       None \<Rightarrow> Some cnt
     | Some n \<Rightarrow> ll_length_loop nxt (nxt n) (uadd cnt 1))"

definition ll_getLength :: "linked_list \<Rightarrow> nat option" where
  "ll_getLength l = ll_length_loop (ll_next l) (ll_root l) 0"

text \<open>The search loop of \<^verbatim>\<open>remove\<close>, from the node \<open>p\<close> on.\<close>

partial_function (option) ll_remove_loop :: "addr \<Rightarrow> next_store \<Rightarrow> addr \<Rightarrow> next_store option" where
  "ll_remove_loop node nxt p =
    (case nxt p of
       None \<Rightarrow> Some nxt
     | Some q \<Rightarrow> if q = node then Some (nxt(p := nxt q)) else ll_remove_loop node nxt q)"

definition ll_remove :: "addr option \<Rightarrow> linked_list \<Rightarrow> linked_list option" where
  "ll_remove node l =
    (case (ll_root l, node) of
       (Some r, Some n) \<Rightarrow>
         if r = n then Some (l\<lparr>ll_root := ll_next l r\<rparr>)
         else map_option (\<lambda>nxt. l\<lparr>ll_next := nxt\<rparr>) (ll_remove_loop n (ll_next l) r)
     | _ \<Rightarrow> Some l)"

definition ll_insert :: "addr option \<Rightarrow> linked_list \<Rightarrow> linked_list option" where
  "ll_insert node l =
    (case node of
       None \<Rightarrow> Some l
     | Some n \<Rightarrow>
         map_option (\<lambda>l'. l'\<lparr>ll_next := (ll_next l')(n := ll_root l'), ll_root := Some n\<rparr>)
           (ll_remove node l))"

text \<open>The search loop of \<^verbatim>\<open>insertBefore\<close>: the last node whose successor is not to be passed.\<close>

partial_function (option) ll_find_before :: "(addr \<Rightarrow> bool) \<Rightarrow> next_store \<Rightarrow> addr \<Rightarrow> addr option" where
  "ll_find_before predicate nxt p =
    (case nxt p of
       None \<Rightarrow> Some p
     | Some q \<Rightarrow> if predicate q then Some p else ll_find_before predicate nxt q)"

definition ll_insertBefore ::
  "addr option \<Rightarrow> (addr \<Rightarrow> bool) \<Rightarrow> linked_list \<Rightarrow> linked_list option" where
  "ll_insertBefore node predicate l0 =
    (case node of
       None \<Rightarrow> Some l0
     | Some n \<Rightarrow>
         Option.bind (ll_remove node l0) (\<lambda>l.
           (case ll_root l of
              None \<Rightarrow> Some (l\<lparr>ll_next := (ll_next l)(n := ll_root l), ll_root := Some n\<rparr>)
            | Some r \<Rightarrow>
                if predicate r
                then Some (l\<lparr>ll_next := (ll_next l)(n := ll_root l), ll_root := Some n\<rparr>)
                else map_option
                  (\<lambda>p. l\<lparr>ll_next := ((ll_next l)(n := ll_next l p))(p := Some n)\<rparr>)
                  (ll_find_before predicate (ll_next l) r))))"

section \<open>Abstraction to lists\<close>

fun ll_chain :: "next_store \<Rightarrow> addr option \<Rightarrow> addr list \<Rightarrow> bool" where
  "ll_chain nxt r [] \<longleftrightarrow> r = None"
| "ll_chain nxt r (x # xs) \<longleftrightarrow> r = Some x \<and> ll_chain nxt (nxt x) xs"

definition ll_abs :: "linked_list \<Rightarrow> addr list \<Rightarrow> bool" where
  "ll_abs l xs \<longleftrightarrow> ll_chain (ll_next l) (ll_root l) xs"

text \<open>The list operations that the pointer operations implement.\<close>

fun insert_before :: "('a \<Rightarrow> bool) \<Rightarrow> 'a \<Rightarrow> 'a list \<Rightarrow> 'a list" where
  "insert_before P n [] = [n]"
| "insert_before P n (x # xs) = (if P x then n # x # xs else x # insert_before P n xs)"

lemma set_insert_before [simp]: "set (insert_before P n xs) = insert n (set xs)"
  by (induction xs) auto

lemma length_insert_before [simp]: "length (insert_before P n xs) = Suc (length xs)"
  by (induction xs) auto

lemma insert_before_append:
  "\<forall>x \<in> set xs. \<not> P x \<Longrightarrow> insert_before P n (xs @ ys) = xs @ insert_before P n ys"
  by (induction xs) auto

lemma sorted_insert_before:
  "sorted_wrt R xs \<Longrightarrow> (\<And>x y. R x y \<Longrightarrow> P x \<Longrightarrow> P y) \<Longrightarrow> (\<And>x. P x \<Longrightarrow> R n x) \<Longrightarrow>
   (\<And>x. \<not> P x \<Longrightarrow> R x n) \<Longrightarrow> sorted_wrt R (insert_before P n xs)"
  by (induction xs) auto

lemma ll_chain_unique: "ll_chain nxt r xs \<Longrightarrow> ll_chain nxt r ys \<Longrightarrow> xs = ys"
proof (induction xs arbitrary: r ys)
  case (Cons x xs)
  then show ?case by (cases ys) auto
next
  case Nil
  then show ?case by (cases ys) auto
qed

lemma ll_chain_append:
  "ll_chain nxt r (xs @ y # ys) \<Longrightarrow> ll_chain nxt (Some y) (y # ys)"
  by (induction xs arbitrary: r) auto

text \<open>A chain that ends has no repeated node.\<close>

lemma ll_chain_distinct: "ll_chain nxt r xs \<Longrightarrow> distinct xs"
proof (induction xs arbitrary: r)
  case (Cons x xs)
  have "x \<notin> set xs"
  proof
    assume "x \<in> set xs"
    then obtain ys zs where "xs = ys @ x # zs" by (meson split_list)
    with Cons.prems have "ll_chain nxt (Some x) (x # zs)" "ll_chain nxt (Some x) (x # xs)"
      using ll_chain_append [of nxt r "x # ys" x zs] by auto
    then have "x # zs = x # xs" by (rule ll_chain_unique)
    then show False using \<open>xs = ys @ x # zs\<close> by simp
  qed
  then show ?case using Cons by auto
qed simp

lemma ll_chain_upd: "p \<notin> set xs \<Longrightarrow> ll_chain (nxt(p := v)) r xs = ll_chain nxt r xs"
  by (induction xs arbitrary: r) auto

section \<open>The operations on well-formed lists\<close>

lemma ll_length_loop_chain:
  "ll_chain nxt r xs \<Longrightarrow> cnt + length xs < 2 ^ 32 \<Longrightarrow>
    ll_length_loop nxt r cnt = Some (cnt + length xs)"
proof (induction xs arbitrary: r cnt)
  case Nil
  then show ?case by (simp add: ll_length_loop.simps)
next
  case (Cons x xs)
  then show ?case by (subst ll_length_loop.simps) simp
qed

lemma ll_remove_loop_chain:
  assumes "ll_chain nxt (nxt p) xs" and "distinct (p # xs)"
  shows "\<exists>nxt'. ll_remove_loop n nxt p = Some nxt' \<and> ll_chain nxt' (nxt' p) (remove1 n xs) \<and>
    (\<forall>a. a \<notin> set (p # xs) \<longrightarrow> nxt' a = nxt a)"
  using assms
proof (induction xs arbitrary: p)
  case Nil
  then show ?case by (simp add: ll_remove_loop.simps)
next
  case (Cons x xs)
  show ?case
  proof (cases "x = n")
    case True
    then show ?thesis using Cons.prems
      by (subst ll_remove_loop.simps) (simp add: ll_chain_upd)
  next
    case False
    obtain nxt' where nxt': "ll_remove_loop n nxt x = Some nxt'"
      "ll_chain nxt' (nxt' x) (remove1 n xs)" "\<forall>a. a \<notin> set (x # xs) \<longrightarrow> nxt' a = nxt a"
      using Cons.IH [of x] Cons.prems by auto
    have "ll_remove_loop n nxt p = Some nxt'"
      using False Cons.prems nxt'(1) by (subst ll_remove_loop.simps) simp
    moreover have "nxt' p = nxt p" using nxt'(3) Cons.prems(2) by auto
    ultimately show ?thesis using nxt' False Cons.prems by auto
  qed
qed

lemma ll_remove_abs:
  assumes "ll_abs l xs"
  shows "\<exists>l'. ll_remove (Some n) l = Some l' \<and> ll_abs l' (remove1 n xs) \<and>
    (\<forall>a. a \<notin> set xs \<longrightarrow> ll_next l' a = ll_next l a)"
proof (cases xs)
  case Nil
  then show ?thesis using assms by (simp add: ll_remove_def ll_abs_def)
next
  case (Cons r ys)
  then have c: "ll_root l = Some r" "ll_chain (ll_next l) (ll_next l r) ys" "distinct (r # ys)"
    using assms ll_chain_distinct [of "ll_next l" "ll_root l" xs]
    by (simp_all add: ll_abs_def Cons)
  show ?thesis
    using ll_remove_loop_chain [OF c(2,3), of n] c(1,2) Cons
    by (cases "r = n") (auto simp: ll_remove_def ll_abs_def)
qed

lemma ll_find_before_chain:
  assumes "ll_chain nxt (nxt p) xs"
  shows "\<exists>us vs. xs = us @ vs \<and> ll_find_before P nxt p = Some (last (p # us)) \<and>
    (\<forall>u \<in> set us. \<not> P u) \<and> (vs = [] \<or> P (hd vs))"
  using assms
proof (induction xs arbitrary: p)
  case Nil
  then show ?case by (simp add: ll_find_before.simps)
next
  case (Cons x xs)
  show ?case
  proof (cases "P x")
    case True
    then show ?thesis using Cons.prems
      by (intro exI [of _ "[]"] exI [of _ "x # xs"]) (simp add: ll_find_before.simps)
  next
    case False
    obtain us vs where uv: "xs = us @ vs" "ll_find_before P nxt x = Some (last (x # us))"
      "\<forall>u \<in> set us. \<not> P u" "vs = [] \<or> P (hd vs)"
      using Cons.IH [of x] Cons.prems by auto
    then show ?thesis using False Cons.prems
      by (intro exI [of _ "x # us"] exI [of _ vs]) (simp add: ll_find_before.simps [of P nxt p])
  qed
qed

lemma ll_chain_splice:
  assumes "ll_chain nxt r (us @ vs)" and "us \<noteq> []" and "n \<notin> set (us @ vs)"
  shows "ll_chain ((nxt(n := nxt (last us)))(last us := Some n)) r (us @ n # vs)"
  using assms
proof (induction us arbitrary: r)
  case (Cons u us)
  have d: "distinct (u # us @ vs)" using ll_chain_distinct [OF Cons.prems(1)] by simp
  show ?case
  proof (cases "us = []")
    case True
    have "ll_chain ((nxt(n := nxt u))(u := Some n)) (nxt u) vs"
      using Cons.prems d True by (subst ll_chain_upd, simp, subst ll_chain_upd) simp_all
    then show ?thesis using Cons.prems True by (simp add: fun_upd_def)
  next
    case False
    then have "last us \<in> set us" by simp
    then have "u \<noteq> last us" using d by auto
    then show ?thesis using Cons False by auto
  qed
qed simp

lemma ll_insertBefore_abs:
  assumes "ll_abs l xs"
  shows "\<exists>l'. ll_insertBefore (Some n) P l = Some l' \<and> ll_abs l' (insert_before P n (remove1 n xs))"
proof -
  obtain m where m: "ll_remove (Some n) l = Some m" "ll_abs m (remove1 n xs)"
    using ll_remove_abs [OF assms] by blast
  have n: "n \<notin> set (remove1 n xs)"
    using assms ll_chain_distinct unfolding ll_abs_def by fastforce
  show ?thesis
  proof (cases "remove1 n xs")
    case Nil
    then show ?thesis using m by (simp add: ll_insertBefore_def ll_abs_def)
  next
    case (Cons r ys)
    then have root: "ll_root m = Some r" "ll_chain (ll_next m) (ll_next m r) ys"
      using m(2) by (simp_all add: ll_abs_def)
    show ?thesis
    proof (cases "P r")
      case True
      then show ?thesis using m root n Cons
        by (auto simp: ll_insertBefore_def ll_abs_def ll_chain_upd)
    next
      case False
      obtain us vs where uv: "ys = us @ vs" "ll_find_before P (ll_next m) r = Some (last (r # us))"
        "\<forall>u \<in> set us. \<not> P u" "vs = [] \<or> P (hd vs)"
        using ll_find_before_chain [OF root(2)] by blast
      have "insert_before P n (remove1 n xs) = (r # us) @ n # vs"
        using Cons uv(1,3,4) False insert_before_append [of us P n vs] by (cases vs) auto
      moreover have "ll_chain ((ll_next m)(n := ll_next m (last (r # us)), last (r # us) := Some n))
          (Some r) ((r # us) @ n # vs)"
        using m(2) n Cons uv(1) root by (intro ll_chain_splice) (auto simp: ll_abs_def)
      ultimately show ?thesis using m(1) root(1) uv(2) False
        by (simp add: ll_insertBefore_def ll_abs_def del: append_Cons)
    qed
  qed
qed

text \<open>
  C24.  The pointer operations of \<^verbatim>\<open>LinkedListRoot\<close> terminate on every well-formed list and
  implement list operations: \<^verbatim>\<open>remove\<close> deletes the node, \<^verbatim>\<open>insert\<close> moves it to the front,
  \<^verbatim>\<open>insertBefore\<close> moves it in front of the first other node that satisfies the predicate, and
  \<^verbatim>\<open>getLength\<close> is the length; no operation ever creates a cycle.
\<close>

theorem linked_list_refines_list:
  assumes "ll_abs l xs" and "length xs < 2 ^ 32"
  shows "(\<exists>l'. ll_remove (Some n) l = Some l' \<and> ll_abs l' (remove1 n xs)) \<and>
    (\<exists>l'. ll_insert (Some n) l = Some l' \<and> ll_abs l' (n # remove1 n xs)) \<and>
    (\<exists>l'. ll_insertBefore (Some n) P l = Some l' \<and>
      ll_abs l' (insert_before P n (remove1 n xs))) \<and>
    ll_getLength l = Some (length xs)"
proof -
  obtain m where m: "ll_remove (Some n) l = Some m" "ll_abs m (remove1 n xs)"
    using ll_remove_abs [OF assms(1)] by blast
  have "n \<notin> set (remove1 n xs)"
    using assms(1) ll_chain_distinct unfolding ll_abs_def by fastforce
  then have "\<exists>l'. ll_insert (Some n) l = Some l' \<and> ll_abs l' (n # remove1 n xs)"
    using m by (simp add: ll_insert_def ll_abs_def ll_chain_upd)
  then show ?thesis
    using m ll_insertBefore_abs [OF assms(1)] ll_length_loop_chain [of _ _ xs 0] assms
    by (auto simp: ll_getLength_def ll_abs_def)
qed

definition example_list :: linked_list where
  "example_list = \<lparr>ll_root = Some 1, ll_next = (\<lambda>_. None)(1 := Some 2, 2 := Some 3)\<rparr>"

theorem linked_list_refines_list_witness:
  "(\<exists>l'. ll_insertBefore (Some 5) (\<lambda>a. a = 3) example_list = Some l' \<and> ll_abs l' [1, 2, 5, 3]) \<and>
   ll_getLength example_list = Some 3"
  using linked_list_refines_list [of example_list "[1, 2, 3]" 5 "\<lambda>a. a = 3"]
  by (simp add: example_list_def ll_abs_def)

end
