(* ===== verification/PoolAllocators.thy ===== *)
theory PoolAllocators
  imports LinkedLists
begin

text \<open>
  Dynamic memory (\<^verbatim>\<open>dynamic_memory.hpp\<close>, \<^verbatim>\<open>uc_dynamic_memory.cpp\<close>): the virtual interface
  \<^verbatim>\<open>IPoolAllocator\<close> as a record of operations, its implementation \<^verbatim>\<open>PoolAllocator\<close> with the
  free list threaded through the free blocks, and \<^verbatim>\<open>LimitedPoolAllocator\<close>, which puts a quota
  on another allocator.  The locale states what the containers rely on: a block handed out is
  not handed out again before it is returned.
\<close>

section \<open>The interface\<close>

record 's allocator_ops =
  op_allocate :: "'s \<Rightarrow> nat \<Rightarrow> addr option \<times> 's"
  op_deallocate :: "'s \<Rightarrow> addr option \<Rightarrow> 's"
  op_getBlockCapacity :: "'s \<Rightarrow> nat"

section \<open>PoolAllocator\<close>

text \<open>
  A block is identified by its index in the pool.  The field \<open>pool_nodes\<close> is the member
  \<^verbatim>\<open>next\<close> of the union \<^verbatim>\<open>Node\<close>, which free blocks use.
\<close>

record pool =
  pool_num_blocks :: nat
  pool_block_size :: nat
  pool_free_list :: "addr option"
  pool_nodes :: next_store
  pool_used :: u16
  pool_max_used :: u16

text \<open>The loop of the constructor that links the blocks, from index \<open>i\<close> on.\<close>

function pool_link :: "nat \<Rightarrow> nat \<Rightarrow> next_store \<Rightarrow> next_store" where
  "pool_link num_blocks i nodes =
    (if i + 1 < num_blocks then pool_link num_blocks (i + 1) (nodes(i := Some (i + 1)))
     else nodes)"
  by pat_completeness auto
termination by (relation "measure (\<lambda>(n, i, _). n - i)") auto

declare pool_link.simps [simp del]

text \<open>The constructor, for a pool of at least one block.\<close>

definition PoolAllocator :: "nat \<Rightarrow> nat \<Rightarrow> pool" where
  "PoolAllocator pool_size block_size =
    (let num_blocks = pool_size div block_size
     in \<lparr>pool_num_blocks = num_blocks, pool_block_size = block_size, pool_free_list = Some 0,
         pool_nodes = (pool_link num_blocks 0 (\<lambda>_. None))(num_blocks - 1 := None),
         pool_used = 0, pool_max_used = 0\<rparr>)"

definition pool_allocate :: "pool \<Rightarrow> nat \<Rightarrow> addr option \<times> pool" where
  "pool_allocate p sz =
    (case pool_free_list p of
       None \<Rightarrow> (None, p)
     | Some pmem \<Rightarrow>
         if sz > pool_block_size p then (None, p)
         else
           (let used = pool_used p + 1
            in (Some pmem,
                p\<lparr>pool_free_list := pool_nodes p pmem, pool_used := used,
                  pool_max_used := (if used > pool_max_used p then used else pool_max_used p)\<rparr>)))"

definition pool_deallocate :: "pool \<Rightarrow> addr option \<Rightarrow> pool" where
  "pool_deallocate p ptr =
    (case ptr of
       None \<Rightarrow> p
     | Some a \<Rightarrow>
         p\<lparr>pool_nodes := (pool_nodes p)(a := pool_free_list p), pool_free_list := Some a,
           pool_used := pool_used p - 1\<rparr>)"

definition pool_getBlockCapacity :: "pool \<Rightarrow> nat" where
  "pool_getBlockCapacity p = pool_num_blocks p"

definition pool_getNumFreeBlocks :: "pool \<Rightarrow> u16" where
  "pool_getNumFreeBlocks p = word_of_nat (pool_num_blocks p) - pool_used p"

definition pool_ops :: "pool allocator_ops" where
  "pool_ops = \<lparr>op_allocate = pool_allocate, op_deallocate = pool_deallocate,
     op_getBlockCapacity = pool_getBlockCapacity\<rparr>"

section \<open>LimitedPoolAllocator\<close>

record limited =
  lim_max_blocks :: u16
  lim_used_blocks :: u16

definition LimitedPoolAllocator :: "nat \<Rightarrow> limited" where
  "LimitedPoolAllocator max_blocks =
    \<lparr>lim_max_blocks = word_of_nat (min max_blocks 0xFFFF), lim_used_blocks = 0\<rparr>"

text \<open>The state is the quota and the state of the allocator behind the reference.\<close>

definition limited_allocate ::
  "'s allocator_ops \<Rightarrow> limited \<times> 's \<Rightarrow> nat \<Rightarrow> addr option \<times> (limited \<times> 's)" where
  "limited_allocate A ls sz =
    (let (l, s) = ls
     in if lim_used_blocks l < lim_max_blocks l
        then (let l' = l\<lparr>lim_used_blocks := lim_used_blocks l + 1\<rparr>;
                  (r, s') = op_allocate A s sz
              in (r, (l', s')))
        else (None, (l, s)))"

definition limited_deallocate ::
  "'s allocator_ops \<Rightarrow> limited \<times> 's \<Rightarrow> addr option \<Rightarrow> limited \<times> 's" where
  "limited_deallocate A ls ptr =
    (let (l, s) = ls;
         s' = op_deallocate A s ptr
     in if lim_used_blocks l > 0
        then (l\<lparr>lim_used_blocks := lim_used_blocks l - 1\<rparr>, s')
        else (l, s'))"

definition limited_getBlockCapacity :: "'s allocator_ops \<Rightarrow> limited \<times> 's \<Rightarrow> nat" where
  "limited_getBlockCapacity A ls =
    (let (l, s) = ls in min (unat (lim_max_blocks l)) (op_getBlockCapacity A s))"

definition limited_ops :: "'s allocator_ops \<Rightarrow> (limited \<times> 's) allocator_ops" where
  "limited_ops A = \<lparr>op_allocate = limited_allocate A, op_deallocate = limited_deallocate A,
     op_getBlockCapacity = limited_getBlockCapacity A\<rparr>"

section \<open>The contract of an allocator\<close>

text \<open>Returning a list of blocks one after the other, as destructors do.\<close>

fun deallocate_all :: "'s allocator_ops \<Rightarrow> 's \<Rightarrow> addr list \<Rightarrow> 's" where
  "deallocate_all A s [] = s"
| "deallocate_all A s (a # as) = deallocate_all A (op_deallocate A s (Some a)) as"

text \<open>
  \<open>inv\<close> is the invariant of the allocator's state and \<open>live\<close> the set of the blocks that are
  handed out.
\<close>

locale pool_allocator =
  fixes A :: "'s allocator_ops"
    and inv :: "'s \<Rightarrow> bool"
    and live :: "'s \<Rightarrow> addr set"
  assumes allocate_some:
      "inv s \<Longrightarrow> op_allocate A s n = (Some a, s') \<Longrightarrow>
        inv s' \<and> a \<notin> live s \<and> live s' = insert a (live s)"
    and allocate_none: "inv s \<Longrightarrow> op_allocate A s n = (None, s') \<Longrightarrow> inv s' \<and> live s' = live s"
    and deallocate_null: "inv s \<Longrightarrow> op_deallocate A s None = s' \<Longrightarrow> inv s' \<and> live s' = live s"
    and deallocate_some:
      "inv s \<Longrightarrow> a \<in> live s \<Longrightarrow> op_deallocate A s (Some a) = s' \<Longrightarrow>
        inv s' \<and> live s' = live s - {a}"
begin

lemma deallocate_all_live:
  "inv s \<Longrightarrow> distinct as \<Longrightarrow> set as \<subseteq> live s \<Longrightarrow>
    inv (deallocate_all A s as) \<and> live (deallocate_all A s as) = live s - set as"
proof (induction as arbitrary: s)
  case (Cons a as)
  then have "inv (op_deallocate A s (Some a))" "live (op_deallocate A s (Some a)) = live s - {a}"
    using deallocate_some [OF _ _ refl, of s a] by auto
  then show ?case
    using Cons.IH [of "op_deallocate A s (Some a)"] Cons.prems by auto
qed simp

text \<open>A quota in front of an allocator keeps the contract.\<close>

lemma limited_contract:
  "pool_allocator (limited_ops A) (\<lambda>(l, s). inv s) (\<lambda>(l, s). live s)"
proof unfold_locales
  fix ls :: "limited \<times> 's" and n a ls'
  assume "case ls of (l, s) \<Rightarrow> inv s" and "op_allocate (limited_ops A) ls n = (Some a, ls')"
  then show "(case ls' of (l, s) \<Rightarrow> inv s) \<and> a \<notin> (case ls of (l, s) \<Rightarrow> live s) \<and>
      (case ls' of (l, s) \<Rightarrow> live s) = insert a (case ls of (l, s) \<Rightarrow> live s)"
    using allocate_some
    by (auto simp: limited_ops_def limited_allocate_def Let_def split: prod.splits if_splits)
next
  fix ls :: "limited \<times> 's" and n ls'
  assume "case ls of (l, s) \<Rightarrow> inv s" and "op_allocate (limited_ops A) ls n = (None, ls')"
  then show "(case ls' of (l, s) \<Rightarrow> inv s) \<and> (case ls' of (l, s) \<Rightarrow> live s) = (case ls of (l, s) \<Rightarrow> live s)"
    using allocate_none
    by (auto simp: limited_ops_def limited_allocate_def Let_def split: prod.splits if_splits)
next
  fix ls :: "limited \<times> 's" and ls'
  assume "case ls of (l, s) \<Rightarrow> inv s" and "op_deallocate (limited_ops A) ls None = ls'"
  then show "(case ls' of (l, s) \<Rightarrow> inv s) \<and> (case ls' of (l, s) \<Rightarrow> live s) = (case ls of (l, s) \<Rightarrow> live s)"
    using deallocate_null [OF _ refl]
    by (auto simp: limited_ops_def limited_deallocate_def Let_def split: prod.splits if_splits)
next
  fix ls :: "limited \<times> 's" and a ls'
  assume "case ls of (l, s) \<Rightarrow> inv s" and "a \<in> (case ls of (l, s) \<Rightarrow> live s)"
    and "op_deallocate (limited_ops A) ls (Some a) = ls'"
  then show "(case ls' of (l, s) \<Rightarrow> inv s) \<and>
      (case ls' of (l, s) \<Rightarrow> live s) = (case ls of (l, s) \<Rightarrow> live s) - {a}"
    using deallocate_some [OF _ _ refl]
    by (auto simp: limited_ops_def limited_deallocate_def Let_def split: prod.splits if_splits)
qed

lemma allocate_deallocate:
  "inv s \<Longrightarrow> op_allocate A s n = (Some a, s') \<Longrightarrow> op_deallocate A s' (Some a) = s'' \<Longrightarrow>
    inv s'' \<and> live s'' = live s"
  using allocate_some [of s n a s'] deallocate_some [of s' a s''] by auto

end

section \<open>PoolAllocator keeps the contract\<close>

definition pool_abs :: "pool \<Rightarrow> addr list \<Rightarrow> bool" where
  "pool_abs p fs \<longleftrightarrow> ll_chain (pool_nodes p) (pool_free_list p) fs \<and>
     set fs \<subseteq> {..<pool_num_blocks p} \<and> pool_num_blocks p \<le> 0xFFFF \<and>
     unat (pool_used p) + length fs = pool_num_blocks p \<and>
     pool_used p \<le> pool_max_used p \<and> unat (pool_max_used p) \<le> pool_num_blocks p"

definition pool_inv :: "pool \<Rightarrow> bool" where
  "pool_inv p \<longleftrightarrow> (\<exists>fs. pool_abs p fs)"

text \<open>The free blocks, read off the chain, and the blocks that are handed out.\<close>

definition pool_live :: "pool \<Rightarrow> addr set" where
  "pool_live p = {..<pool_num_blocks p} - {a. \<exists>fs. pool_abs p fs \<and> a \<in> set fs}"

lemma pool_abs_unique: "pool_abs p fs \<Longrightarrow> pool_abs p gs \<Longrightarrow> fs = gs"
  unfolding pool_abs_def using ll_chain_unique by blast

lemma pool_live_abs: "pool_abs p fs \<Longrightarrow> pool_live p = {..<pool_num_blocks p} - set fs"
  using pool_abs_unique unfolding pool_live_def by blast

lemma pool_abs_distinct: "pool_abs p fs \<Longrightarrow> distinct fs"
  unfolding pool_abs_def using ll_chain_distinct by blast

lemma pool_allocate_abs:
  assumes "pool_abs p fs"
  shows "pool_allocate p n = (Some a, p') \<Longrightarrow>
      \<exists>gs. fs = a # gs \<and> pool_abs p' gs \<and> pool_num_blocks p' = pool_num_blocks p"
    and "pool_allocate p n = (None, p') \<Longrightarrow> p' = p \<and> (fs = [] \<or> n > pool_block_size p)"
proof -
  show "p' = p \<and> (fs = [] \<or> n > pool_block_size p)" if "pool_allocate p n = (None, p')"
    using assms that
    by (cases fs) (auto simp: pool_allocate_def pool_abs_def Let_def split: if_splits)
  assume r: "pool_allocate p n = (Some a, p')"
  then obtain gs where gs: "fs = a # gs"
    using assms by (cases fs) (auto simp: pool_allocate_def pool_abs_def Let_def split: if_splits)
  have lt: "unat (pool_used p) < 0xFFFF" using assms gs by (auto simp: pool_abs_def)
  have u: "unat (pool_used p + 1) = unat (pool_used p) + 1"
    using lt by (simp add: unat_word_ariths)
  have "pool_abs p' gs \<and> pool_num_blocks p' = pool_num_blocks p"
    using assms r gs u
    by (auto simp: pool_allocate_def pool_abs_def Let_def word_le_nat_alt word_less_nat_alt
        split: if_splits)
  then show "\<exists>gs. fs = a # gs \<and> pool_abs p' gs \<and> pool_num_blocks p' = pool_num_blocks p"
    using gs by blast
qed

lemma pool_deallocate_abs:
  assumes "pool_abs p fs" and "a \<in> pool_live p"
  shows "pool_abs (pool_deallocate p (Some a)) (a # fs)"
proof -
  have a: "a < pool_num_blocks p" "a \<notin> set fs" using assms by (auto simp: pool_live_abs)
  have "set fs \<subset> {..<pool_num_blocks p}" using a assms by (auto simp: pool_abs_def)
  then have "length fs < pool_num_blocks p"
    using psubset_card_mono [of "{..<pool_num_blocks p}" "set fs"] pool_abs_distinct [OF assms(1)]
    by (simp add: distinct_card)
  then have "0 < unat (pool_used p)" using assms(1) by (simp add: pool_abs_def)
  then have u: "unat (pool_used p - 1) = unat (pool_used p) - 1"
    by (simp add: unat_minus_one unat_gt_0)
  show ?thesis
    using assms(1) a u \<open>0 < unat (pool_used p)\<close>
    by (auto simp: pool_deallocate_def pool_abs_def ll_chain_upd word_le_nat_alt)
qed

interpretation pool: pool_allocator pool_ops pool_inv pool_live
proof unfold_locales
  fix s n a s' assume "pool_inv s" and r: "op_allocate pool_ops s n = (Some a, s')"
  then obtain fs where fs: "pool_abs s fs" by (auto simp: pool_inv_def)
  then obtain gs where "fs = a # gs" "pool_abs s' gs" "pool_num_blocks s' = pool_num_blocks s"
    using pool_allocate_abs(1) [OF fs, of n a s'] r by (auto simp: pool_ops_def)
  moreover from this have "a < pool_num_blocks s" using fs by (simp add: pool_abs_def)
  ultimately show "pool_inv s' \<and> a \<notin> pool_live s \<and> pool_live s' = insert a (pool_live s)"
    using pool_abs_distinct [OF fs]
    by (auto simp: pool_live_abs [OF fs] pool_live_abs [of s' gs] pool_inv_def)
next
  fix s n s' assume "pool_inv s" and r: "op_allocate pool_ops s n = (None, s')"
  then show "pool_inv s' \<and> pool_live s' = pool_live s"
    using pool_allocate_abs(2) [of s _ n s'] by (auto simp: pool_inv_def pool_ops_def)
next
  fix s s' assume "pool_inv s" and "op_deallocate pool_ops s None = s'"
  then show "pool_inv s' \<and> pool_live s' = pool_live s"
    by (auto simp: pool_ops_def pool_deallocate_def)
next
  fix s a s' assume "pool_inv s" and a: "a \<in> pool_live s" and r: "op_deallocate pool_ops s (Some a) = s'"
  then obtain fs where fs: "pool_abs s fs" by (auto simp: pool_inv_def)
  have s': "pool_abs s' (a # fs)" "pool_num_blocks s' = pool_num_blocks s"
    using pool_deallocate_abs [OF fs a] r by (auto simp: pool_ops_def pool_deallocate_def)
  then show "pool_inv s' \<and> pool_live s' = pool_live s - {a}"
    by (auto simp: pool_live_abs [OF fs] pool_live_abs [OF s'(1)] pool_inv_def)
qed

interpretation limited_pool: pool_allocator "limited_ops pool_ops"
  "\<lambda>(l, s). pool_inv s" "\<lambda>(l, s). pool_live s"
  by (rule pool.limited_contract)

section \<open>Behaviour over time\<close>

lemma ll_chain_linked:
  "j \<le> n \<Longrightarrow> (\<And>k. j \<le> k \<Longrightarrow> k < n \<Longrightarrow> nodes k = Some (k + 1)) \<Longrightarrow> nodes n = None \<Longrightarrow>
    ll_chain nodes (Some j) [j..<Suc n]"
proof (induction "n - j" arbitrary: j)
  case 0
  then show ?case by simp
next
  case (Suc d)
  then have "j < n" by simp
  then have "ll_chain nodes (Some (Suc j)) [Suc j..<Suc n]" using Suc by simp
  then show ?case using \<open>j < n\<close> Suc.prems by (simp add: upt_rec [of j])
qed

lemma pool_link_nodes:
  "pool_link n i nodes k = (if i \<le> k \<and> k + 1 < n then Some (k + 1) else nodes k)"
  by (induction n i nodes rule: pool_link.induct) (subst pool_link.simps, auto simp: fun_upd_def)

lemma PoolAllocator_abs:
  assumes "0 < pool_size div block_size" and "pool_size div block_size \<le> 0xFFFF"
  shows "pool_abs (PoolAllocator pool_size block_size) [0..<pool_size div block_size]"
proof -
  obtain n where n: "pool_size div block_size = Suc n" using assms(1) gr0_implies_Suc by blast
  have "ll_chain ((pool_link (Suc n) 0 (\<lambda>_. None))(n := None)) (Some 0) [0..<Suc n]"
    by (rule ll_chain_linked) (auto simp: pool_link_nodes)
  then show ?thesis using assms n by (auto simp: PoolAllocator_def pool_abs_def simp del: upt_Suc)
qed

lemma PoolAllocator_fresh:
  assumes "0 < pool_size div block_size" and "pool_size div block_size \<le> 0xFFFF"
  shows "pool_inv (PoolAllocator pool_size block_size)" "pool_live (PoolAllocator pool_size block_size) = {}"
proof -
  have a: "pool_abs (PoolAllocator pool_size block_size) [0..<pool_size div block_size]"
    by (rule PoolAllocator_abs [OF assms])
  then show "pool_inv (PoolAllocator pool_size block_size)" unfolding pool_inv_def by blast
  have "pool_num_blocks (PoolAllocator pool_size block_size) = pool_size div block_size"
    by (simp add: PoolAllocator_def Let_def)
  then show "pool_live (PoolAllocator pool_size block_size) = {}"
    unfolding pool_live_abs [OF a] by (simp only: set_upt lessThan_atLeast0 Diff_cancel)
qed

text \<open>
  The states that a freshly constructed pool reaches under allocations and returns of blocks, with
  the set of blocks its users hold.
\<close>

inductive pool_reachable :: "nat \<Rightarrow> nat \<Rightarrow> pool \<Rightarrow> addr set \<Rightarrow> bool" for pool_size block_size where
  init: "pool_reachable pool_size block_size (PoolAllocator pool_size block_size) {}"
| alloc: "pool_reachable pool_size block_size p owned \<Longrightarrow> pool_allocate p sz = (Some a, p') \<Longrightarrow>
    pool_reachable pool_size block_size p' (insert a owned)"
| alloc_fail: "pool_reachable pool_size block_size p owned \<Longrightarrow> pool_allocate p sz = (None, p') \<Longrightarrow>
    pool_reachable pool_size block_size p' owned"
| free: "pool_reachable pool_size block_size p owned \<Longrightarrow> a \<in> owned \<Longrightarrow>
    pool_reachable pool_size block_size (pool_deallocate p (Some a)) (owned - {a})"

lemma pool_ops_simps [simp]:
  "op_allocate pool_ops = pool_allocate" "op_deallocate pool_ops = pool_deallocate"
  by (simp_all add: pool_ops_def)

lemma pool_num_blocks_const:
  "pool_allocate p sz = (r, p') \<Longrightarrow> pool_num_blocks p' = pool_num_blocks p"
  "pool_num_blocks (pool_deallocate p ptr) = pool_num_blocks p"
  by (auto simp: pool_allocate_def pool_deallocate_def Let_def split: option.splits if_splits)

lemma pool_reachable_inv:
  assumes "0 < pool_size div block_size" and "pool_size div block_size \<le> 0xFFFF"
  shows "pool_reachable pool_size block_size p owned \<Longrightarrow> pool_inv p \<and> pool_live p = owned \<and>
    pool_num_blocks p = pool_size div block_size"
proof (induction rule: pool_reachable.induct)
  case init
  have n: "pool_num_blocks (PoolAllocator pool_size block_size) = pool_size div block_size"
    by (simp add: PoolAllocator_def Let_def)
  have "{..<k} - set [0..<k] = {}" for k :: nat by auto
  then show ?case
    using PoolAllocator_abs [OF assms] pool_live_abs [OF PoolAllocator_abs [OF assms]] n
    unfolding pool_inv_def by metis
next
  case (alloc p owned sz a p')
  then show ?case using pool.allocate_some [of p sz a p'] pool_num_blocks_const(1) by auto
next
  case (alloc_fail p owned sz p')
  then show ?case using pool.allocate_none [of p sz p'] pool_num_blocks_const(1) by auto
next
  case (free p owned a)
  then show ?case using pool.deallocate_some [of p a, OF _ _ refl] pool_num_blocks_const(2) by auto
qed

lemma pool_used_card:
  assumes "pool_inv p"
  shows "unat (pool_used p) = card (pool_live p)" and "card (pool_live p) \<le> pool_num_blocks p"
proof -
  obtain fs where fs: "pool_abs p fs" using assms by (auto simp: pool_inv_def)
  have "card (pool_live p) = pool_num_blocks p - length fs"
    using fs pool_abs_distinct [OF fs]
    by (simp add: pool_live_abs [OF fs] card_Diff_subset distinct_card pool_abs_def)
  then show "unat (pool_used p) = card (pool_live p)" "card (pool_live p) \<le> pool_num_blocks p"
    using fs by (auto simp: pool_abs_def)
qed

text \<open>
  C13.  Safety of the memory pool over every history of allocations and returns: a block that is in
  use is never handed out again, the usage counter is the number of blocks in use and never
  exceeds the capacity, and an allocation of at most one block size fails only if every block is
  in use.
\<close>

theorem pool_safety:
  assumes "pool_reachable pool_size block_size p owned"
    and "0 < pool_size div block_size" and "pool_size div block_size \<le> 0xFFFF"
    and "pool_allocate p sz = (r, p')"
  shows "unat (pool_used p) = card owned \<and> card owned \<le> pool_size div block_size \<and>
    (case r of Some a \<Rightarrow> a \<notin> owned \<and> a < pool_size div block_size
     | None \<Rightarrow> sz > pool_block_size p \<or> owned = {..<pool_size div block_size})"
proof -
  have i: "pool_inv p" "pool_live p = owned" "pool_num_blocks p = pool_size div block_size"
    using pool_reachable_inv [OF assms(2,3,1)] by auto
  then obtain fs where fs: "pool_abs p fs" by (auto simp: pool_inv_def)
  show ?thesis
    using pool_used_card [OF i(1)] i pool_allocate_abs [OF fs, of sz] fs pool_live_abs [OF fs]
      pool.allocate_some [of p sz] assms(4)
    by (cases r) (fastforce simp: pool_abs_def)+
qed

theorem pool_safety_witness:
  "unat (pool_used (PoolAllocator 128 64)) = card ({} :: addr set)"
proof -
  obtain r p' where "pool_allocate (PoolAllocator 128 64) 64 = (r, p')" by (metis surj_pair)
  then show ?thesis using pool_safety [OF pool_reachable.init [of 128 64], of 64 r p'] by simp
qed

text \<open>Repeated attempts to allocate through a quota.\<close>

fun limited_attempts :: "nat \<Rightarrow> limited \<times> pool \<Rightarrow> nat \<Rightarrow> limited \<times> pool" where
  "limited_attempts 0 ls sz = ls"
| "limited_attempts (Suc k) ls sz = limited_attempts k (snd (limited_allocate pool_ops ls sz)) sz"

lemma limited_attempts_leak:
  assumes "fst (pool_allocate p sz) = None"
  shows "unat (lim_used_blocks l) + k \<le> unat (lim_max_blocks l) \<Longrightarrow>
    \<exists>l'. limited_attempts k (l, p) sz = (l', p) \<and> lim_max_blocks l' = lim_max_blocks l \<and>
      unat (lim_used_blocks l') = unat (lim_used_blocks l) + k"
proof (induction k arbitrary: l)
  case (Suc k)
  have a: "pool_allocate p sz = (None, p)"
    using assms by (auto simp: pool_allocate_def Let_def split: option.splits if_splits)
  let ?l = "l\<lparr>lim_used_blocks := lim_used_blocks l + 1\<rparr>"
  have u: "unat (lim_used_blocks l + 1) = unat (lim_used_blocks l) + 1"
    using Suc.prems unat_u16_lt [of "lim_max_blocks l"] by (simp add: unat_word_ariths)
  have "lim_used_blocks l < lim_max_blocks l" using Suc.prems by (simp add: word_less_nat_alt)
  then have "limited_allocate pool_ops (l, p) sz = (None, (?l, p))"
    using a by (simp add: limited_allocate_def Let_def)
  then show ?case using Suc.IH [of ?l] Suc.prems u by simp
qed simp

text \<open>
  C37.  \<^verbatim>\<open>LimitedPoolAllocator::allocate\<close> charges the quota before it asks the underlying pool and
  does not give the charge back when the pool is exhausted: as many failed attempts as there is
  quota left use all of it up, although no block was obtained, and then every allocation fails
  even after the pool has free blocks again.
\<close>

theorem limited_quota_leak:
  assumes "fst (pool_allocate p sz) = None"
    and "unat (lim_used_blocks l) + k = unat (lim_max_blocks l)"
  shows "\<exists>l'. limited_attempts k (l, p) sz = (l', p) \<and>
    (\<forall>p' sz'. fst (limited_allocate pool_ops (l', p') sz') = None)"
proof -
  obtain l' where l': "limited_attempts k (l, p) sz = (l', p)"
    "lim_max_blocks l' = lim_max_blocks l"
    "unat (lim_used_blocks l') = unat (lim_used_blocks l) + k"
    using limited_attempts_leak [OF assms(1), of l k] assms(2) by auto
  then have "\<not> lim_used_blocks l' < lim_max_blocks l'"
    using assms(2) by (simp add: word_less_nat_alt)
  then show ?thesis using l'(1) by (simp add: limited_allocate_def)
qed

definition exhausted_pool :: pool where
  "exhausted_pool = snd (pool_allocate (PoolAllocator 64 64) 64)"

theorem limited_quota_leak_witness:
  "\<exists>l'. limited_attempts 3 (LimitedPoolAllocator 3, exhausted_pool) 64 = (l', exhausted_pool) \<and>
    (\<forall>p' sz'. fst (limited_allocate pool_ops (l', p') sz') = None)"
  by (rule limited_quota_leak)
     (simp_all add: exhausted_pool_def pool_allocate_def PoolAllocator_def Let_def
       LimitedPoolAllocator_def)

end
