(* ===== verification/KvMaps.thy ===== *)
theory KvMaps
  imports PoolAllocators
begin

text \<open>
  \<^verbatim>\<open>Map<Key, Value>\<close> of \<^verbatim>\<open>util/map.hpp\<close>: key-value pairs in a linked list of groups, each
  group one block of the memory pool with \<^verbatim>\<open>NumKV\<close> slots; the default key marks a free slot.
  A group carries the address of its block.  The container implements a finite map, keeps no
  empty group, and returns every block it gives up to the allocator.
\<close>

section \<open>Definitions\<close>

text \<open>What the template arguments determine: \<^verbatim>\<open>Key()\<close>, \<^verbatim>\<open>Value()\<close>, \<^verbatim>\<open>NumKV\<close> and
  \<^verbatim>\<open>sizeof(KVGroup)\<close>.\<close>

record ('k, 'v) map_type =
  mt_key :: 'k
  mt_value :: 'v
  mt_NumKV :: nat
  mt_sizeof :: nat

type_synonym ('k, 'v) kv_slots = "('k \<times> 'v) list"
type_synonym ('k, 'v) kv_group = "addr \<times> ('k, 'v) kv_slots"
type_synonym ('k, 'v) kv_map = "('k, 'v) kv_group list"

text \<open>\<^verbatim>\<open>KVGroup::instantiate\<close>: a block of free slots.\<close>

definition kvg_instantiate ::
  "'s allocator_ops \<Rightarrow> ('k, 'v) map_type \<Rightarrow> 's \<Rightarrow> ('k, 'v) kv_group option \<times> 's" where
  "kvg_instantiate A T s =
    (case op_allocate A s (mt_sizeof T) of
       (None, s') \<Rightarrow> (None, s')
     | (Some praw, s') \<Rightarrow> (Some (praw, replicate (mt_NumKV T) (mt_key T, mt_value T)), s'))"

definition kvg_destroy :: "'s allocator_ops \<Rightarrow> 's \<Rightarrow> ('k, 'v) kv_group \<Rightarrow> 's" where
  "kvg_destroy A s g = op_deallocate A s (Some (fst g))"

text \<open>\<^verbatim>\<open>KVGroup::find\<close> and \<^verbatim>\<open>findKey\<close>; the result is the pair the returned pointer refers to.\<close>

fun kvg_find :: "'k \<Rightarrow> ('k, 'v) kv_slots \<Rightarrow> ('k \<times> 'v) option" where
  "kvg_find key [] = None"
| "kvg_find key (kv # kvs) = (if fst kv = key then Some kv else kvg_find key kvs)"

fun kv_findKey :: "'k \<Rightarrow> ('k, 'v) kv_map \<Rightarrow> ('k \<times> 'v) option" where
  "kv_findKey key [] = None"
| "kv_findKey key (p # ps) =
    (case kvg_find key (snd p) of Some kv \<Rightarrow> Some kv | None \<Rightarrow> kv_findKey key ps)"

text \<open>Assignment \<^verbatim>\<open>*kv = pair\<close> through the pointer that \<^verbatim>\<open>findKey(key)\<close> returned.\<close>

fun kv_assign :: "'k \<Rightarrow> 'k \<times> 'v \<Rightarrow> ('k, 'v) kv_map \<Rightarrow> ('k, 'v) kv_map" where
  "kv_assign key x [] = []"
| "kv_assign key x (p # ps) =
    (case kvg_find key (snd p) of
       Some _ \<Rightarrow> (fst p, update_first (\<lambda>kv. fst kv = key) (\<lambda>_. x) (snd p)) # ps
     | None \<Rightarrow> p # kv_assign key x ps)"

fun kv_compact ::
  "'s allocator_ops \<Rightarrow> ('k, 'v) map_type \<Rightarrow> 's \<Rightarrow> ('k, 'v) kv_map \<Rightarrow> 's \<times> ('k, 'v) kv_map" where
  "kv_compact A T s [] = (s, [])"
| "kv_compact A T s (p # ps) =
    (if \<forall>kv \<in> set (snd p). fst kv = mt_key T then kv_compact A T (kvg_destroy A s p) ps
     else (let (s', ps') = kv_compact A T s ps in (s', p # ps')))"

definition kv_access :: "'k \<Rightarrow> ('k, 'v) kv_map \<Rightarrow> 'v option" where
  "kv_access key m = map_option snd (kv_findKey key m)"

definition kv_remove ::
  "'s allocator_ops \<Rightarrow> ('k, 'v) map_type \<Rightarrow> 'k \<Rightarrow> 's \<times> ('k, 'v) kv_map \<Rightarrow> 's \<times> ('k, 'v) kv_map" where
  "kv_remove A T key sm =
    (let (s, m) = sm
     in case kv_findKey key m of
          Some _ \<Rightarrow> kv_compact A T s (kv_assign key (mt_key T, mt_value T) m)
        | None \<Rightarrow> (s, m))"

text \<open>\<^verbatim>\<open>insert\<close> returns a pointer to the value, null if there is no memory; the Boolean tells.\<close>

definition kv_insert ::
  "'s allocator_ops \<Rightarrow> ('k, 'v) map_type \<Rightarrow> 'k \<Rightarrow> 'v \<Rightarrow> 's \<times> ('k, 'v) kv_map \<Rightarrow>
    bool \<times> ('s \<times> ('k, 'v) kv_map)" where
  "kv_insert A T key val sm =
    (let (s, m) = kv_remove A T key sm
     in case kv_findKey (mt_key T) m of
          Some _ \<Rightarrow> (True, (s, kv_assign (mt_key T) (key, val) m))
        | None \<Rightarrow>
            (case kvg_instantiate A T s of
               (None, s') \<Rightarrow> (False, (s', m))
             | (Some kvg, s') \<Rightarrow> (True, (s', (fst kvg, (snd kvg)[0 := (key, val)]) # m))))"

text \<open>Writing through the value pointer of \<^verbatim>\<open>access\<close>, as callers do.\<close>

definition kv_update :: "'k \<Rightarrow> 'v \<Rightarrow> ('k, 'v) kv_map \<Rightarrow> ('k, 'v) kv_map" where
  "kv_update key val m = kv_assign key (key, val) m"

text \<open>
  \<^verbatim>\<open>removeAllWhere\<close>.  A predicate object may have effects (one of the callers releases memory in
  it), so it transforms a state that consists of the allocator and whatever else it refers to.
  The sweep returns the number of removed pairs, the state and the slots.
\<close>

fun kv_sweep_slots ::
  "('k, 'v) map_type \<Rightarrow> ('k \<Rightarrow> 'v \<Rightarrow> 'x \<Rightarrow> bool \<times> 'x) \<Rightarrow> 'x \<Rightarrow> ('k, 'v) kv_slots \<Rightarrow>
    nat \<times> 'x \<times> ('k, 'v) kv_slots" where
  "kv_sweep_slots T predicate x [] = (0, x, [])"
| "kv_sweep_slots T predicate x (kv # kvs) =
    (let (hit, x1) = (if fst kv \<noteq> mt_key T then predicate (fst kv) (snd kv) x else (False, x));
         (n, x2, kvs') = kv_sweep_slots T predicate x1 kvs
     in if hit then (Suc n, x2, (mt_key T, mt_value T) # kvs') else (n, x2, kv # kvs'))"

fun kv_sweep ::
  "('k, 'v) map_type \<Rightarrow> ('k \<Rightarrow> 'v \<Rightarrow> 'x \<Rightarrow> bool \<times> 'x) \<Rightarrow> 'x \<Rightarrow> ('k, 'v) kv_map \<Rightarrow>
    nat \<times> 'x \<times> ('k, 'v) kv_map" where
  "kv_sweep T predicate x [] = (0, x, [])"
| "kv_sweep T predicate x (p # ps) =
    (let (n, x1, kvs) = kv_sweep_slots T predicate x (snd p);
         (n', x2, ps') = kv_sweep T predicate x1 ps
     in (n + n', x2, (fst p, kvs) # ps'))"

definition kv_removeAllWhere ::
  "'s allocator_ops \<Rightarrow> ('k, 'v) map_type \<Rightarrow> ('k \<Rightarrow> 'v \<Rightarrow> 's \<times> 'p \<Rightarrow> bool \<times> 's \<times> 'p) \<Rightarrow>
    's \<times> 'p \<Rightarrow> ('k, 'v) kv_map \<Rightarrow> ('s \<times> 'p) \<times> ('k, 'v) kv_map" where
  "kv_removeAllWhere A T predicate sp m =
    (let (num_removed, (s1, p1), m1) = kv_sweep T predicate sp m
     in if num_removed > 0
        then (let (s2, m2) = kv_compact A T s1 m1 in ((s2, p1), m2))
        else ((s1, p1), m1))"

definition kv_find :: "('k, 'v) map_type \<Rightarrow> ('k \<Rightarrow> 'v \<Rightarrow> bool) \<Rightarrow> ('k, 'v) kv_map \<Rightarrow> 'k option" where
  "kv_find T predicate m =
    map_option fst (List.find (\<lambda>kv. fst kv \<noteq> mt_key T \<and> predicate (fst kv) (snd kv))
      (concat (map snd m)))"

definition kv_clear ::
  "'s allocator_ops \<Rightarrow> ('k, 'v) map_type \<Rightarrow> 's \<times> ('k, 'v) kv_map \<Rightarrow> 's \<times> ('k, 'v) kv_map" where
  "kv_clear A T sm =
    (let ((s, _), m) = kv_removeAllWhere A T (\<lambda>_ _ x. (True, x)) (fst sm, ()) (snd sm) in (s, m))"

fun kv_slot_by_index :: "'k \<Rightarrow> ('k, 'v) kv_slots \<Rightarrow> nat \<Rightarrow> ('k \<times> 'v) option" where
  "kv_slot_by_index dk [] index = None"
| "kv_slot_by_index dk (kv # kvs) index =
    (if fst kv \<noteq> dk then (if index = 0 then Some kv else kv_slot_by_index dk kvs (index - 1))
     else kv_slot_by_index dk kvs index)"

definition kv_getByIndex :: "('k, 'v) map_type \<Rightarrow> ('k, 'v) kv_map \<Rightarrow> nat \<Rightarrow> ('k \<times> 'v) option" where
  "kv_getByIndex T m index = kv_slot_by_index (mt_key T) (concat (map snd m)) index"

definition kv_isEmpty :: "('k, 'v) map_type \<Rightarrow> ('k, 'v) kv_map \<Rightarrow> bool" where
  "kv_isEmpty T m \<longleftrightarrow> kv_find T (\<lambda>_ _. True) m = None"

definition kv_getSize :: "('k, 'v) map_type \<Rightarrow> ('k, 'v) kv_map \<Rightarrow> nat" where
  "kv_getSize T m = length (filter (\<lambda>kv. fst kv \<noteq> mt_key T) (concat (map snd m)))"

section \<open>Abstraction and invariant\<close>

definition kv_entries :: "('k, 'v) map_type \<Rightarrow> ('k, 'v) kv_map \<Rightarrow> ('k \<times> 'v) list" where
  "kv_entries T m = filter (\<lambda>kv. fst kv \<noteq> mt_key T) (concat (map snd m))"

definition kv_lookup :: "('k, 'v) map_type \<Rightarrow> ('k, 'v) kv_map \<Rightarrow> 'k \<Rightarrow> 'v option" where
  "kv_lookup T m = map_of (kv_entries T m)"

definition kv_inv :: "('k, 'v) map_type \<Rightarrow> ('k, 'v) kv_map \<Rightarrow> bool" where
  "kv_inv T m \<longleftrightarrow> distinct (map fst m) \<and> distinct (map fst (kv_entries T m)) \<and>
     (\<forall>g \<in> set m. length (snd g) = mt_NumKV T \<and> (\<exists>kv \<in> set (snd g). fst kv \<noteq> mt_key T))"

section \<open>Searching and assigning\<close>

definition kv_all :: "('k, 'v) kv_map \<Rightarrow> ('k \<times> 'v) list" where
  "kv_all m = concat (map snd m)"

lemma kv_all_simps [simp]: "kv_all [] = []" "kv_all (p # ps) = snd p @ kv_all ps"
  by (simp_all add: kv_all_def)

lemma kv_entries_all: "kv_entries T m = filter (\<lambda>kv. fst kv \<noteq> mt_key T) (kv_all m)"
  by (simp add: kv_entries_def kv_all_def)

lemma kv_entries_simps [simp]:
  "kv_entries T [] = []"
  "kv_entries T (p # ps) = filter (\<lambda>kv. fst kv \<noteq> mt_key T) (snd p) @ kv_entries T ps"
  by (simp_all add: kv_entries_all)

lemma kvg_find_find: "kvg_find key kvs = List.find (\<lambda>kv. fst kv = key) kvs"
  by (induction kvs) auto

lemma kv_findKey_find: "kv_findKey key m = List.find (\<lambda>kv. fst kv = key) (kv_all m)"
  by (induction m) (auto simp: kvg_find_find find_append split: option.splits)

lemma find_key_map_of: "map_option snd (List.find (\<lambda>kv. fst kv = key) kvs) = map_of kvs key"
  by (induction kvs) auto

lemma map_of_filter_key:
  "key \<noteq> dk \<Longrightarrow> map_of (filter (\<lambda>kv. fst kv \<noteq> dk) kvs) key = map_of kvs key"
  by (induction kvs) auto

lemma kv_access_lookup: "key \<noteq> mt_key T \<Longrightarrow> kv_access key m = kv_lookup T m key"
  by (simp add: kv_access_def kv_lookup_def kv_findKey_find find_key_map_of kv_entries_all
      map_of_filter_key)

lemma update_first_append:
  "update_first P f (xs @ ys) =
    (if List.find P xs = None then xs @ update_first P f ys else update_first P f xs @ ys)"
  by (induction xs) auto

lemma kv_assign_all: "kv_all (kv_assign key x m) = update_first (\<lambda>kv. fst kv = key) (\<lambda>_. x) (kv_all m)"
  by (induction m) (auto simp: kvg_find_find update_first_append split: option.splits)

lemma kv_assign_addrs [simp]: "map fst (kv_assign key x m) = map fst m"
  by (induction m) (auto split: option.splits)

lemma kv_assign_lengths:
  "\<forall>g \<in> set m. length (snd g) = n \<Longrightarrow> \<forall>g \<in> set (kv_assign key x m). length (snd g) = n"
  by (induction m) (auto split: option.splits)

section \<open>Compaction and removal\<close>

abbreviation kv_vacant :: "('k, 'v) map_type \<Rightarrow> ('k, 'v) kv_group \<Rightarrow> bool" where
  "kv_vacant T g \<equiv> \<forall>kv \<in> set (snd g). fst kv = mt_key T"

lemma kv_compact_eq:
  "kv_compact A T s m =
    (deallocate_all A s (map fst (filter (kv_vacant T) m)), filter (\<lambda>g. \<not> kv_vacant T g) m)"
  by (induction m arbitrary: s) (auto simp: kvg_destroy_def)

lemma kv_entries_compact: "kv_entries T (filter (\<lambda>g. \<not> kv_vacant T g) m) = kv_entries T m"
  by (induction m) (auto simp: filter_empty_conv)

lemma map_of_filter_neq: "map_of (filter (\<lambda>kv. fst kv \<noteq> k) kvs) = (map_of kvs)(k := None)"
  by (induction kvs) auto

lemma kv_entries_clear_slot:
  assumes "kv_inv T m" and "key \<noteq> mt_key T" and "kv_findKey key m = Some kv"
  shows "kv_entries T (kv_assign key (mt_key T, v) m) = filter (\<lambda>kv. fst kv \<noteq> key) (kv_entries T m)"
proof -
  let ?f = "filter (\<lambda>kv. fst kv \<noteq> mt_key T)"
  obtain us vs where uv: "kv_all m = us @ kv # vs" "fst kv = key" "\<forall>u \<in> set us. fst u \<noteq> key"
    using find_split [of "\<lambda>kv. fst kv = key" "kv_all m" kv] assms(3)
    by (auto simp: kv_findKey_find)
  have "distinct (map fst (?f us @ kv # ?f vs))"
    using assms(1,2) uv by (simp add: kv_inv_def kv_entries_all)
  then have "key \<notin> fst ` set (?f us @ ?f vs)" using uv(2) by (simp add: image_Un)
  then have "\<forall>u \<in> set (?f us @ ?f vs). fst u \<noteq> key" by (metis image_eqI)
  then have "filter (\<lambda>kv. fst kv \<noteq> key) (?f us @ ?f vs) = ?f us @ ?f vs" by (rule filter_True)
  then have "filter (\<lambda>kv. fst kv \<noteq> key) (?f us @ kv # ?f vs) = ?f us @ ?f vs"
    using uv(2) by simp
  then show ?thesis
    using uv assms(2) by (simp add: kv_entries_all kv_assign_all update_first_at)
qed

lemma partition_addrs:
  assumes "distinct (map fst m)"
  shows "distinct (map fst (filter Q m) @ map fst (filter (\<lambda>g. \<not> Q g) m))"
    and "set (map fst (filter Q m) @ map fst (filter (\<lambda>g. \<not> Q g) m)) = set (map fst m)"
  using assms by (auto simp: distinct_map inj_on_def)

lemma kv_compact_spec:
  assumes "distinct (map fst m)" and "distinct (map fst (kv_entries T m))"
    and "\<forall>g \<in> set m. length (snd g) = mt_NumKV T" and "kv_compact A T s m = (s', m')"
  shows "kv_inv T m'" and "kv_entries T m' = kv_entries T m"
    and "\<exists>ds. s' = deallocate_all A s ds \<and> distinct (ds @ map fst m') \<and>
      set (ds @ map fst m') = set (map fst m)"
proof -
  have m': "m' = filter (\<lambda>g. \<not> kv_vacant T g) m"
    and s': "s' = deallocate_all A s (map fst (filter (kv_vacant T) m))"
    using assms(4) by (auto simp: kv_compact_eq)
  show e: "kv_entries T m' = kv_entries T m" unfolding m' by (rule kv_entries_compact)
  show "\<exists>ds. s' = deallocate_all A s ds \<and> distinct (ds @ map fst m') \<and>
      set (ds @ map fst m') = set (map fst m)"
    using partition_addrs [OF assms(1), of "kv_vacant T"] m' s' by blast
  have "distinct (map fst m')" unfolding m' using assms(1) by (rule distinct_map_filter)
  then show "kv_inv T m'" using assms(2,3) e by (auto simp: kv_inv_def m')
qed

lemma kv_findKey_None:
  "key \<noteq> mt_key T \<Longrightarrow> kv_findKey key m = None \<longleftrightarrow> (\<forall>kv \<in> set (kv_entries T m). fst kv \<noteq> key)"
  by (auto simp: kv_findKey_find find_None_iff kv_entries_all)

lemma kv_remove_eq:
  assumes "kv_inv T m" and "key \<noteq> mt_key T" and "kv_remove A T key (s, m) = (s', m')"
  shows "kv_inv T m'" and "kv_entries T m' = filter (\<lambda>kv. fst kv \<noteq> key) (kv_entries T m)"
    and "\<exists>ds. s' = deallocate_all A s ds \<and> distinct (ds @ map fst m') \<and>
      set (ds @ map fst m') = set (map fst m)"
proof -
  have "kv_inv T m' \<and> kv_entries T m' = filter (\<lambda>kv. fst kv \<noteq> key) (kv_entries T m) \<and>
    (\<exists>ds. s' = deallocate_all A s ds \<and> distinct (ds @ map fst m') \<and>
      set (ds @ map fst m') = set (map fst m))"
  proof (cases "kv_findKey key m")
    case None
    then have "\<forall>kv \<in> set (kv_entries T m). fst kv \<noteq> key"
      using kv_findKey_None [OF assms(2)] by blast
    then have "s' = s" "m' = m" "filter (\<lambda>kv. fst kv \<noteq> key) (kv_entries T m) = kv_entries T m"
      using assms(3) None by (auto simp: kv_remove_def filter_id_conv)
    then show ?thesis using assms(1) by (auto intro!: exI [of _ "[]"] simp: kv_inv_def)
  next
    case (Some kv)
    let ?m = "kv_assign key (mt_key T, mt_value T) m"
    have c: "kv_compact A T s ?m = (s', m')" using assms(3) Some by (simp add: kv_remove_def)
    have e: "kv_entries T ?m = filter (\<lambda>kv. fst kv \<noteq> key) (kv_entries T m)"
      by (rule kv_entries_clear_slot [OF assms(1,2) Some])
    have pre: "distinct (map fst ?m)" "distinct (map fst (kv_entries T ?m))"
      "\<forall>g \<in> set ?m. length (snd g) = mt_NumKV T"
      using assms(1) e kv_assign_lengths [of m "mt_NumKV T"]
      by (auto simp: kv_inv_def distinct_map_filter)
    show ?thesis using kv_compact_spec [OF pre c] e by simp
  qed
  then show "kv_inv T m'" "kv_entries T m' = filter (\<lambda>kv. fst kv \<noteq> key) (kv_entries T m)"
    "\<exists>ds. s' = deallocate_all A s ds \<and> distinct (ds @ map fst m') \<and>
      set (ds @ map fst m') = set (map fst m)" by auto
qed

section \<open>Insertion\<close>

lemma map_of_insert_middle:
  "k \<notin> fst ` set us \<Longrightarrow> map_of (us @ (k, v) # vs) = (map_of (us @ vs))(k \<mapsto> v)"
  by (induction us) (auto simp: fun_upd_twist)

lemma kv_assign_nonvacant:
  "fst x \<noteq> mt_key T \<Longrightarrow> \<forall>g \<in> set m. \<not> kv_vacant T g \<Longrightarrow> \<forall>g \<in> set (kv_assign k x m). \<not> kv_vacant T g"
proof (induction m)
  case (Cons p ps)
  have "x \<in> set (update_first (\<lambda>kv. fst kv = k) (\<lambda>_. x) kvs)" if "kvg_find k kvs = Some y" for kvs y
    using that by (induction kvs) (auto split: if_splits)
  then show ?case using Cons by (fastforce split: option.splits)
qed simp

lemma kv_entries_fill_slot:
  assumes "kv_findKey (mt_key T) m = Some kv" and "key \<noteq> mt_key T"
  shows "\<exists>us vs. kv_entries T m = us @ vs \<and>
    kv_entries T (kv_assign (mt_key T) (key, v) m) = us @ (key, v) # vs"
proof -
  obtain us vs where uv: "kv_all m = us @ kv # vs" "fst kv = mt_key T"
    "\<forall>u \<in> set us. fst u \<noteq> mt_key T"
    using find_split [of "\<lambda>kv. fst kv = mt_key T" "kv_all m" kv] assms(1)
    by (auto simp: kv_findKey_find)
  then show ?thesis
    using assms(2)
    by (auto simp: kv_entries_all kv_assign_all update_first_at)
qed

lemma kv_fill_slot:
  assumes "kv_inv T m" and "kv_findKey (mt_key T) m = Some kv" and "key \<noteq> mt_key T"
    and "kv_lookup T m key = None"
  shows "kv_inv T (kv_assign (mt_key T) (key, v) m)"
    and "kv_lookup T (kv_assign (mt_key T) (key, v) m) = (kv_lookup T m)(key \<mapsto> v)"
proof -
  obtain us vs where e: "kv_entries T m = us @ vs"
    "kv_entries T (kv_assign (mt_key T) (key, v) m) = us @ (key, v) # vs"
    using kv_entries_fill_slot [OF assms(2,3)] by blast
  have n: "key \<notin> fst ` set us" "key \<notin> fst ` set vs"
    using assms(4) e(1) by (auto simp: kv_lookup_def map_of_eq_None_iff image_Un)
  then show "kv_lookup T (kv_assign (mt_key T) (key, v) m) = (kv_lookup T m)(key \<mapsto> v)"
    by (simp add: kv_lookup_def e map_of_insert_middle del: map_of_append)
  have "\<forall>g \<in> set (kv_assign (mt_key T) (key, v) m). \<not> kv_vacant T g"
    using kv_assign_nonvacant [of "(key, v)" T m "mt_key T"] assms(1,3) by (auto simp: kv_inv_def)
  moreover have "\<forall>g \<in> set (kv_assign (mt_key T) (key, v) m). length (snd g) = mt_NumKV T"
    by (rule kv_assign_lengths) (use assms(1) in \<open>auto simp: kv_inv_def\<close>)
  ultimately show "kv_inv T (kv_assign (mt_key T) (key, v) m)"
    using assms(1) n e by (auto simp: kv_inv_def)
qed

lemma kv_update_spec:
  assumes "kv_inv T m" and "key \<noteq> mt_key T" and "kv_lookup T m key = Some w"
  shows "kv_inv T (kv_update key v m)" and "kv_lookup T (kv_update key v m) = (kv_lookup T m)(key \<mapsto> v)"
    and "map fst (kv_update key v m) = map fst m"
proof -
  let ?f = "filter (\<lambda>kv. fst kv \<noteq> mt_key T)"
  have "kv_findKey key m \<noteq> None"
    using assms(2,3) kv_access_lookup [of key T m] by (auto simp: kv_access_def)
  then obtain kv us vs where uv: "kv_all m = us @ kv # vs" "fst kv = key" "\<forall>u \<in> set us. fst u \<noteq> key"
    using find_split [of "\<lambda>kv. fst kv = key" "kv_all m"] by (auto simp: kv_findKey_find)
  have e: "kv_entries T m = ?f us @ kv # ?f vs" "kv_entries T (kv_update key v m) = ?f us @ (key, v) # ?f vs"
    using uv assms(2) by (simp_all add: kv_entries_all kv_update_def kv_assign_all update_first_at)
  have n: "key \<notin> fst ` set (?f us)" using uv(3) by auto
  have kv: "kv = (key, snd kv)" using uv(2) by auto
  have "map_of (?f us @ (key, v) # ?f vs) = (map_of (?f us @ (key, snd kv) # ?f vs))(key \<mapsto> v)"
    using map_of_insert_middle [OF n, of v "?f vs"] map_of_insert_middle [OF n, of "snd kv" "?f vs"] by simp
  then show "kv_lookup T (kv_update key v m) = (kv_lookup T m)(key \<mapsto> v)"
    using kv by (simp add: kv_lookup_def e del: map_of_append)
  have "map fst (kv_entries T (kv_update key v m)) = map fst (kv_entries T m)" using e uv(2) by simp
  moreover have "\<forall>g \<in> set (kv_update key v m). \<not> kv_vacant T g"
    using kv_assign_nonvacant [of "(key, v)" T m key] assms(1,2) by (auto simp: kv_inv_def kv_update_def)
  moreover have "\<forall>g \<in> set (kv_update key v m). length (snd g) = mt_NumKV T"
    unfolding kv_update_def by (rule kv_assign_lengths) (use assms(1) in \<open>auto simp: kv_inv_def\<close>)
  moreover show "map fst (kv_update key v m) = map fst m" by (simp add: kv_update_def)
  ultimately show "kv_inv T (kv_update key v m)"
    using assms(1) by (auto simp: kv_inv_def)
qed

lemma kv_new_group:
  assumes "kv_inv T m" and "0 < mt_NumKV T" and "key \<noteq> mt_key T"
    and "kv_lookup T m key = None" and "a \<notin> set (map fst m)"
    and g_def: "g = (a, (replicate (mt_NumKV T) (mt_key T, mt_value T))[0 := (key, v)])"
  shows "kv_inv T (g # m)" and "kv_lookup T (g # m) = (kv_lookup T m)(key \<mapsto> v)"
proof -
  have g: "snd g = (key, v) # replicate (mt_NumKV T - 1) (mt_key T, mt_value T)"
    using assms(2) by (cases "mt_NumKV T") (simp_all add: g_def)
  then have e: "kv_entries T (g # m) = (key, v) # kv_entries T m" using assms(3) by simp
  then show "kv_lookup T (g # m) = (kv_lookup T m)(key \<mapsto> v)" by (simp add: kv_lookup_def)
  have "key \<notin> fst ` set (kv_entries T m)"
    using assms(4) by (simp add: kv_lookup_def map_of_eq_None_iff)
  then show "kv_inv T (g # m)"
    using assms(1-3,5) e g by (auto simp: kv_inv_def g_def)
qed

section \<open>Conditional removal\<close>

definition kv_blank :: "('k, 'v) map_type \<Rightarrow> ('k \<Rightarrow> 'v \<Rightarrow> bool) \<Rightarrow> 'k \<times> 'v \<Rightarrow> 'k \<times> 'v" where
  "kv_blank T P kv =
    (if fst kv \<noteq> mt_key T \<and> P (fst kv) (snd kv) then (mt_key T, mt_value T) else kv)"

definition kv_fold :: "('k \<Rightarrow> 'v \<Rightarrow> 'x \<Rightarrow> 'x) \<Rightarrow> 'x \<Rightarrow> ('k \<times> 'v) list \<Rightarrow> 'x" where
  "kv_fold f x kvs = foldl (\<lambda>x kv. f (fst kv) (snd kv) x) x kvs"

lemma kv_sweep_slots_eq:
  "kv_sweep_slots T (\<lambda>k v x. (P k v, f k v x)) x kvs =
    (length (filter (\<lambda>kv. fst kv \<noteq> mt_key T \<and> P (fst kv) (snd kv)) kvs),
     kv_fold f x (filter (\<lambda>kv. fst kv \<noteq> mt_key T) kvs), map (kv_blank T P) kvs)"
  by (induction kvs arbitrary: x) (auto simp: kv_blank_def kv_fold_def)

lemma kv_sweep_eq:
  "kv_sweep T (\<lambda>k v x. (P k v, f k v x)) x m =
    (length (filter (\<lambda>kv. fst kv \<noteq> mt_key T \<and> P (fst kv) (snd kv)) (kv_all m)),
     kv_fold f x (kv_entries T m), map (\<lambda>g. (fst g, map (kv_blank T P) (snd g))) m)"
  by (induction m arbitrary: x) (auto simp: kv_sweep_slots_eq kv_fold_def)

lemma kv_entries_blank:
  "kv_entries T (map (\<lambda>g. (fst g, map (kv_blank T P) (snd g))) m) =
    filter (\<lambda>kv. \<not> P (fst kv) (snd kv)) (kv_entries T m)"
proof (induction m)
  case (Cons g m)
  have "filter (\<lambda>kv. fst kv \<noteq> mt_key T) (map (kv_blank T P) kvs) =
      filter (\<lambda>kv. \<not> P (fst kv) (snd kv)) (filter (\<lambda>kv. fst kv \<noteq> mt_key T) kvs)" for kvs
    by (induction kvs) (auto simp: kv_blank_def)
  then show ?case using Cons by simp
qed simp

lemma kv_removeAllWhere_eq:
  assumes "kv_inv T m"
    and "kv_removeAllWhere A T (\<lambda>k v x. (P k v, f k v x)) (s, p) m = ((s', p'), m')"
  shows "kv_inv T m'"
    and "kv_entries T m' = filter (\<lambda>kv. \<not> P (fst kv) (snd kv)) (kv_entries T m)"
    and "\<exists>ds s1. kv_fold f (s, p) (kv_entries T m) = (s1, p') \<and> s' = deallocate_all A s1 ds \<and>
      distinct (ds @ map fst m') \<and> set (ds @ map fst m') = set (map fst m)"
proof -
  define m1 where "m1 = map (\<lambda>g. (fst g, map (kv_blank T P) (snd g))) m"
  define n where "n = length (filter (\<lambda>kv. fst kv \<noteq> mt_key T \<and> P (fst kv) (snd kv)) (kv_all m))"
  obtain s1 p1 where f: "kv_fold f (s, p) (kv_entries T m) = (s1, p1)" by fastforce
  have e: "kv_entries T m1 = filter (\<lambda>kv. \<not> P (fst kv) (snd kv)) (kv_entries T m)"
    unfolding m1_def by (rule kv_entries_blank)
  have pre: "distinct (map fst m1)" "distinct (map fst (kv_entries T m1))"
    "\<forall>g \<in> set m1. length (snd g) = mt_NumKV T"
    using assms(1) by (auto simp: kv_inv_def e distinct_map_filter, auto simp: m1_def comp_def)
  have "kv_inv T m' \<and> kv_entries T m' = kv_entries T m1 \<and> p' = p1 \<and>
    (\<exists>ds. s' = deallocate_all A s1 ds \<and> distinct (ds @ map fst m') \<and>
      set (ds @ map fst m') = set (map fst m1))"
  proof (cases "n > 0")
    case True
    then have c: "kv_compact A T s1 m1 = (s', m')" and "p' = p1"
      using assms(2) f
      by (auto simp: kv_removeAllWhere_def kv_sweep_eq Let_def n_def m1_def split: prod.splits)
    then show ?thesis using kv_compact_spec [OF pre c] by simp
  next
    case False
    then have "\<forall>kv \<in> set (kv_all m). kv_blank T P kv = kv"
      by (auto simp: n_def kv_blank_def filter_empty_conv)
    then have "m1 = m" by (auto simp: m1_def kv_all_def map_idI)
    moreover have "s' = s1" "p' = p1" "m' = m1"
      using assms(2) f False
      by (auto simp: kv_removeAllWhere_def kv_sweep_eq Let_def n_def m1_def split: prod.splits if_splits)
    ultimately show ?thesis using assms(1) pre(1) by (auto intro!: exI [of _ "[]"])
  qed
  moreover have "set (map fst m1) = set (map fst m)" by (auto simp: m1_def)
  ultimately show "kv_inv T m'"
    "kv_entries T m' = filter (\<lambda>kv. \<not> P (fst kv) (snd kv)) (kv_entries T m)"
    "\<exists>ds s1. kv_fold f (s, p) (kv_entries T m) = (s1, p') \<and> s' = deallocate_all A s1 ds \<and>
      distinct (ds @ map fst m') \<and> set (ds @ map fst m') = set (map fst m)"
    using e f by auto
qed

section \<open>Memory\<close>

text \<open>
  A container owns the blocks of its groups.  The operations change which blocks are live only by
  those they take from or return to the allocator.
\<close>

definition kv_owns :: "('s \<Rightarrow> addr set) \<Rightarrow> 's \<Rightarrow> ('k, 'v) kv_map \<Rightarrow> bool" where
  "kv_owns live s m \<longleftrightarrow> fst ` set m \<subseteq> live s"

definition kv_others :: "('s \<Rightarrow> addr set) \<Rightarrow> 's \<Rightarrow> ('k, 'v) kv_map \<Rightarrow> addr set" where
  "kv_others live s m = live s - fst ` set m"

context pool_allocator
begin

lemma kv_release:
  assumes "inv s" and "kv_owns live s m" and "s' = deallocate_all A s ds"
    and "distinct (ds @ map fst m')" and "set (ds @ map fst m') = set (map fst m)"
  shows "inv s' \<and> kv_owns live s' m' \<and> kv_others live s' m' = kv_others live s m"
proof -
  have "set ds \<inter> fst ` set m' = {}" "fst ` set m = set ds \<union> fst ` set m'"
    using assms(4,5) by simp_all
  then have ds: "set ds \<subseteq> live s" "set ds \<inter> fst ` set m' = {}" "fst ` set m = set ds \<union> fst ` set m'"
    using assms(2) unfolding kv_owns_def by blast+
  then have "inv s'" "live s' = live s - set ds"
    using deallocate_all_live [of s ds] assms by auto
  then show ?thesis using ds assms(2) by (auto simp: kv_owns_def kv_others_def)
qed

lemma kv_remove_spec:
  assumes "inv s" and "kv_inv T m" and "kv_owns live s m" and "key \<noteq> mt_key T"
    and "kv_remove A T key (s, m) = (s', m')"
  shows "inv s' \<and> kv_inv T m' \<and> kv_owns live s' m' \<and> kv_others live s' m' = kv_others live s m \<and>
    kv_lookup T m' = (kv_lookup T m)(key := None)"
proof -
  obtain ds where "s' = deallocate_all A s ds" "distinct (ds @ map fst m')"
    "set (ds @ map fst m') = set (map fst m)"
    using kv_remove_eq(3) [OF assms(2,4,5)] by blast
  then show ?thesis
    using kv_release [OF assms(1,3)] kv_remove_eq(1,2) [OF assms(2,4,5)]
    by (simp add: kv_lookup_def map_of_filter_neq)
qed

lemma kv_insert_spec:
  assumes "inv s" and "kv_inv T m" and "kv_owns live s m" and "key \<noteq> mt_key T"
    and "0 < mt_NumKV T" and "kv_insert A T key v (s, m) = (ok, s', m')"
  shows "inv s' \<and> kv_inv T m' \<and> kv_owns live s' m' \<and> kv_others live s' m' = kv_others live s m \<and>
    kv_lookup T m' = (kv_lookup T m)(key := if ok then Some v else None)"
proof -
  obtain s1 m1 where r: "kv_remove A T key (s, m) = (s1, m1)" by fastforce
  note r1 = kv_remove_spec [OF assms(1-4) r]
  have l: "kv_lookup T m1 key = None" using r1 by simp
  show ?thesis
  proof (cases "kv_findKey (mt_key T) m1")
    case (Some kv)
    then have "ok" "s' = s1" "m' = kv_assign (mt_key T) (key, v) m1"
      using assms(6) r by (auto simp: kv_insert_def)
    then show ?thesis
      using r1 kv_fill_slot [OF _ Some assms(4) l, of v]
      by (auto simp: kv_owns_def kv_others_def set_map [symmetric] simp del: set_map)
  next
    case None
    show ?thesis
    proof (cases "op_allocate A s1 (mt_sizeof T)")
      case (Pair o1 s2)
      show ?thesis
      proof (cases o1)
        case None
        then have "\<not> ok" "s' = s2" "m' = m1"
          using assms(6) r \<open>kv_findKey (mt_key T) m1 = None\<close> Pair
          by (auto simp: kv_insert_def kvg_instantiate_def)
        moreover have "inv s2" "live s2 = live s1"
          using allocate_none [of s1] r1 Pair None by auto
        ultimately show ?thesis using r1 by (auto simp: kv_owns_def kv_others_def)
      next
        case (Some a)
        then have "ok" "s' = s2"
          "m' = (a, (replicate (mt_NumKV T) (mt_key T, mt_value T))[0 := (key, v)]) # m1"
          using assms(6) r \<open>kv_findKey (mt_key T) m1 = None\<close> Pair
          by (auto simp: kv_insert_def kvg_instantiate_def)
        moreover have "inv s2" "a \<notin> live s1" "live s2 = insert a (live s1)"
          using allocate_some [of s1 "mt_sizeof T" a s2] r1 Pair Some by auto
        moreover have "a \<notin> set (map fst m1)"
          using \<open>a \<notin> live s1\<close> r1 by (auto simp: kv_owns_def)
        ultimately show ?thesis
          using r1 kv_new_group [of T m1 key a _ v, OF _ _ _ _ _ refl] l assms(4,5)
          by (auto simp: kv_owns_def kv_others_def)
      qed
    qed
  qed
qed

end

section \<open>The contract of the container\<close>

text \<open>
  What the users of the container rely on: \<open>lookup\<close> gives the abstract map, keys other than the
  default one may be stored, a successful insertion updates the map at its key, a failed one only
  loses the old value of that key.
\<close>

locale kv_container =
  fixes lookup :: "'m \<Rightarrow> 'k \<Rightarrow> 'v option"
    and insert :: "'k \<Rightarrow> 'v \<Rightarrow> 's \<times> 'm \<Rightarrow> bool \<times> 's \<times> 'm"
    and remove :: "'k \<Rightarrow> 's \<times> 'm \<Rightarrow> 's \<times> 'm"
    and cinv :: "'s \<times> 'm \<Rightarrow> bool"
    and valid_key :: "'k \<Rightarrow> bool"
  assumes insert_inv: "cinv c \<Longrightarrow> valid_key k \<Longrightarrow> insert k v c = (ok, c') \<Longrightarrow> cinv c'"
    and insert_lookup: "cinv c \<Longrightarrow> valid_key k \<Longrightarrow> insert k v c = (ok, c') \<Longrightarrow>
      lookup (snd c') = (lookup (snd c))(k := if ok then Some v else None)"
    and remove_inv: "cinv c \<Longrightarrow> valid_key k \<Longrightarrow> cinv (remove k c)"
    and remove_lookup: "cinv c \<Longrightarrow> valid_key k \<Longrightarrow>
      lookup (snd (remove k c)) = (lookup (snd c))(k := None)"
begin

lemma insert_then_lookup:
  "cinv c \<Longrightarrow> valid_key k \<Longrightarrow> insert k v c = (True, c') \<Longrightarrow> lookup (snd c') k = Some v"
  using insert_lookup by fastforce

lemma insert_other:
  "cinv c \<Longrightarrow> valid_key k \<Longrightarrow> insert k v c = (ok, c') \<Longrightarrow> j \<noteq> k \<Longrightarrow>
    lookup (snd c') j = lookup (snd c) j"
  using insert_lookup by fastforce

lemma remove_insert_lookup:
  "cinv c \<Longrightarrow> valid_key k \<Longrightarrow> insert k v c = (ok, c') \<Longrightarrow>
    lookup (snd (remove k c')) = (lookup (snd c))(k := None)"
  using insert_lookup [of c k v ok c'] insert_inv [of c k v ok c'] remove_lookup [of c' k] by simp

end

definition kv_state_inv ::
  "('k, 'v) map_type \<Rightarrow> pool \<times> ('k, 'v) kv_map \<Rightarrow> bool" where
  "kv_state_inv T sm \<longleftrightarrow> 0 < mt_NumKV T \<and> pool_inv (fst sm) \<and> kv_inv T (snd sm) \<and>
     kv_owns pool_live (fst sm) (snd sm)"

interpretation kv_pool: kv_container "kv_lookup T" "kv_insert pool_ops T" "kv_remove pool_ops T"
  "kv_state_inv T" "\<lambda>k. k \<noteq> mt_key T" for T
proof unfold_locales
  fix c :: "pool \<times> ('a, 'b) kv_map" and k v ok c'
  assume a: "kv_state_inv T c" "k \<noteq> mt_key T" and r: "kv_insert pool_ops T k v c = (ok, c')"
  note sp = pool.kv_insert_spec [of "fst c" T "snd c" k v ok "fst c'" "snd c'"]
  show "kv_state_inv T c'" using a r sp by (simp add: kv_state_inv_def)
  show "kv_lookup T (snd c') = (kv_lookup T (snd c))(k := if ok then Some v else None)"
    using a r sp by (simp add: kv_state_inv_def)
next
  fix c :: "pool \<times> ('a, 'b) kv_map" and k
  assume a: "kv_state_inv T c" "k \<noteq> mt_key T"
  note sp = pool.kv_remove_spec [of "fst c" T "snd c" k "fst (kv_remove pool_ops T k c)"
      "snd (kv_remove pool_ops T k c)"]
  show "kv_state_inv T (kv_remove pool_ops T k c)" using a sp by (simp add: kv_state_inv_def)
  show "kv_lookup T (snd (kv_remove pool_ops T k c)) = (kv_lookup T (snd c))(k := None)"
    using a sp by (simp add: kv_state_inv_def)
qed

lemma kv_getSize_card:
  "kv_inv T m \<Longrightarrow> kv_getSize T m = card (dom (kv_lookup T m))"
  using distinct_card [of "map fst (kv_entries T m)"]
  by (simp add: kv_getSize_def kv_lookup_def dom_map_of_conv_image_fst kv_entries_def [symmetric]
      kv_inv_def)

lemma kv_blocks_le_size:
  assumes "kv_inv T m" shows "length m \<le> kv_getSize T m"
proof -
  have "length m \<le> length (kv_entries T m)" if "\<forall>g \<in> set m. \<not> kv_vacant T g"
    using that
  proof (induction m)
    case (Cons g m)
    then have "filter (\<lambda>kv. fst kv \<noteq> mt_key T) (snd g) \<noteq> []" by (auto simp: filter_empty_conv)
    then have "1 \<le> length (filter (\<lambda>kv. fst kv \<noteq> mt_key T) (snd g))" by (simp add: Suc_le_eq)
    then have "1 + length m \<le> length (filter (\<lambda>kv. fst kv \<noteq> mt_key T) (snd g)) + length (kv_entries T m)"
      using Cons by (intro add_mono) simp_all
    then show ?case by simp
  qed simp
  then show ?thesis using assms by (auto simp: kv_inv_def kv_getSize_def kv_entries_def)
qed

text \<open>
  C15.  \<^verbatim>\<open>Map\<close> over the memory pool implements a finite map: after a successful \<^verbatim>\<open>insert\<close> the key
  has the new value and all other keys keep theirs, after a failed one (no memory) only the
  key itself is gone; \<^verbatim>\<open>remove\<close> deletes exactly the key.  The invariants survive, no block of another
  user of the pool is touched, and the container never holds more blocks than entries.
\<close>

theorem map_refines_finite_map:
  assumes "kv_state_inv T (s, m)" and "key \<noteq> mt_key T"
    and "kv_insert pool_ops T key v (s, m) = (ok, s1, m1)"
    and "kv_remove pool_ops T key (s, m) = (s2, m2)"
  shows "kv_state_inv T (s1, m1) \<and> kv_state_inv T (s2, m2) \<and>
    kv_lookup T m1 = (kv_lookup T m)(key := if ok then Some v else None) \<and>
    kv_lookup T m2 = (kv_lookup T m)(key := None) \<and>
    kv_access key m = kv_lookup T m key \<and>
    kv_others pool_live s1 m1 = kv_others pool_live s m \<and>
    kv_others pool_live s2 m2 = kv_others pool_live s m \<and>
    length m1 \<le> kv_getSize T m1 \<and> length m2 \<le> kv_getSize T m2"
  using assms kv_pool.insert_inv [OF assms(1-3)] kv_pool.remove_inv [OF assms(1,2)]
    pool.kv_insert_spec [of s T m key v ok s1 m1] pool.kv_remove_spec [of s T m key s2 m2]
    kv_blocks_le_size [of T m1] kv_blocks_le_size [of T m2]
  by (simp add: kv_state_inv_def kv_access_lookup)

definition example_map_type :: "(nat, nat) map_type" where
  "example_map_type = \<lparr>mt_key = 0, mt_value = 0, mt_NumKV = 2, mt_sizeof = 40\<rparr>"

theorem map_refines_finite_map_witness:
  "kv_lookup example_map_type
     (snd (snd (kv_insert pool_ops example_map_type 7 9 (PoolAllocator 128 64, [])))) = [7 \<mapsto> 9]"
proof -
  let ?p = "PoolAllocator 128 64"
  obtain ok s1 m1 where i: "kv_insert pool_ops example_map_type 7 9 (?p, []) = (ok, s1, m1)"
    by (metis surj_pair)
  obtain s2 m2 where r: "kv_remove pool_ops example_map_type (7 :: nat) (?p, [] :: (nat, nat) kv_map)
      = (s2, m2)" by fastforce
  have "pool_inv ?p" unfolding pool_inv_def using PoolAllocator_abs [of 128 64] by auto
  then have "kv_state_inv example_map_type (?p, [])"
    by (simp add: kv_state_inv_def example_map_type_def kv_inv_def kv_owns_def)
  moreover have "ok"
    using i by (simp add: kv_insert_def kv_remove_def example_map_type_def kvg_instantiate_def
        pool_allocate_def PoolAllocator_def Let_def)
  ultimately show ?thesis
    using map_refines_finite_map [OF _ _ i r] i
    by (simp add: example_map_type_def kv_lookup_def)
qed

end
