(* ===== verification/TransferBuffers.thy ===== *)
theory TransferBuffers
  imports PoolAllocators TransferTypes
begin

text \<open>
  Transfer buffers (\<^verbatim>\<open>transport/transfer_buffer.hpp\<close>, \<^verbatim>\<open>uc_transfer_buffer.cpp\<close>): the static
  buffer, the dynamic buffer made of a chain of pool blocks, and the manager that keeps one
  dynamic buffer per source node and transfer type.  Both buffers satisfy the contract of
  \<^verbatim>\<open>ITransferBuffer\<close>, the locale below: what is written in sequence is what is read.
  Sizes are those of a 64-bit platform with the default block size; the proofs use only that a
  block holds at least one byte.
\<close>

section \<open>The static buffer\<close>

record static_buffer =
  sb_data :: "u8 list"
  sb_size :: u16
  sb_max_write_pos :: u16

definition StaticTransferBuffer :: "u8 list \<Rightarrow> u16 \<Rightarrow> static_buffer" where
  "StaticTransferBuffer buf buf_size = \<lparr>sb_data = buf, sb_size = buf_size, sb_max_write_pos = 0\<rparr>"

text \<open>
  \<^verbatim>\<open>read\<close>: the flag says whether the destination is a null pointer; the result is the bytes
  that are copied, whose number is the return value.
\<close>

definition sb_read :: "static_buffer \<Rightarrow> nat \<Rightarrow> bool \<Rightarrow> nat \<Rightarrow> uavcan_error + u8 list" where
  "sb_read b offset data_null len =
    (if data_null then Inl ErrInvalidParam
     else if offset \<ge> unat (sb_max_write_pos b) then Inr []
     else
       (let len = (if uadd offset len > unat (sb_max_write_pos b)
                   then unat (sb_max_write_pos b) - offset else len)
        in Inr (take len (drop offset (sb_data b)))))"

text \<open>\<^verbatim>\<open>write\<close>: \<open>None\<close> is the null pointer; \<open>Some bytes\<close> are the \<^verbatim>\<open>len\<close> bytes at \<^verbatim>\<open>data\<close>.\<close>

definition sb_write ::
  "static_buffer \<Rightarrow> nat \<Rightarrow> u8 list option \<Rightarrow> (uavcan_error + nat) \<times> static_buffer" where
  "sb_write b offset data =
    (case data of
       None \<Rightarrow> (Inl ErrInvalidParam, b)
     | Some bytes \<Rightarrow>
         if offset \<ge> unat (sb_size b) then (Inr 0, b)
         else
           (let len = (if uadd offset (length bytes) > unat (sb_size b)
                       then unat (sb_size b) - offset else length bytes)
            in (Inr len,
                b\<lparr>sb_data := overwrite (sb_data b) offset (take len bytes),
                  sb_max_write_pos := max (word_of_nat (uadd offset len)) (sb_max_write_pos b)\<rparr>)))"

definition sb_reset :: "static_buffer \<Rightarrow> static_buffer" where
  "sb_reset b = b\<lparr>sb_max_write_pos := 0\<rparr>"

definition sb_setMaxWritePos :: "u16 \<Rightarrow> static_buffer \<Rightarrow> static_buffer" where
  "sb_setMaxWritePos v b = b\<lparr>sb_max_write_pos := v\<rparr>"

section \<open>The dynamic buffer\<close>

definition MemPoolBlockSize :: nat where
  "MemPoolBlockSize = 64"

definition sizeof_ptr :: nat where
  "sizeof_ptr = 8"

text \<open>\<^verbatim>\<open>Block::Size\<close>.\<close>

definition block_Size :: nat where
  "block_Size = MemPoolBlockSize - sizeof_ptr"

definition sizeof_entry :: nat where
  "sizeof_entry = 40"

text \<open>
  A block is its address and its bytes.  The constructor leaves the bytes as they are, so the
  contents of fresh memory, \<open>mem\<close>, are a parameter.
\<close>

type_synonym block = "addr \<times> u8 list"

definition blk_instantiate ::
  "'s allocator_ops \<Rightarrow> (addr \<Rightarrow> nat \<Rightarrow> u8) \<Rightarrow> 's \<Rightarrow> block option \<times> 's" where
  "blk_instantiate A mem s =
    (case op_allocate A s (block_Size + sizeof_ptr) of
       (None, s') \<Rightarrow> (None, s')
     | (Some praw, s') \<Rightarrow> (Some (praw, map (mem praw) [0..<block_Size]), s'))"

text \<open>\<^verbatim>\<open>Block::read\<close>: bytes read, the new total offset and what is left to read.\<close>

fun blk_read :: "u8 list \<Rightarrow> nat \<Rightarrow> nat \<Rightarrow> nat \<Rightarrow> u8 list \<times> nat \<times> nat" where
  "blk_read [] target_offset total_offset left_to_read = ([], total_offset, left_to_read)"
| "blk_read (d # ds) target_offset total_offset left_to_read =
    (if left_to_read > 0 then
       (if total_offset \<ge> target_offset
        then (let (out, t, l) = blk_read ds target_offset (total_offset + 1) (left_to_read - 1)
              in (d # out, t, l))
        else blk_read ds target_offset (total_offset + 1) left_to_read)
     else ([], total_offset, left_to_read))"

text \<open>
  \<^verbatim>\<open>Block::write\<close>: the list \<open>inp\<close> stands for \<^verbatim>\<open>inptr\<close> and \<^verbatim>\<open>left_to_write\<close>; the result is the new
  contents of the block, the input that is left and the new total offset.
\<close>

fun blk_write :: "u8 list \<Rightarrow> u8 list \<Rightarrow> nat \<Rightarrow> nat \<Rightarrow> u8 list \<times> u8 list \<times> nat" where
  "blk_write [] inp target_offset total_offset = ([], inp, total_offset)"
| "blk_write (d # ds) inp target_offset total_offset =
    (case inp of
       [] \<Rightarrow> (d # ds, [], total_offset)
     | x # xs \<Rightarrow>
         if total_offset \<ge> target_offset
         then (let (ds', inp', t) = blk_write ds xs target_offset (total_offset + 1)
               in (x # ds', inp', t))
         else (let (ds', inp', t) = blk_write ds inp target_offset (total_offset + 1)
               in (d # ds', inp', t)))"

record buffer_key =
  tbk_node_id :: node_id
  tbk_transfer_type :: transfer_type

definition buffer_key_default :: buffer_key where
  "buffer_key_default = \<lparr>tbk_node_id = node_id_invalid, tbk_transfer_type = TransferTypeServiceResponse\<rparr>"

definition buffer_key_isEmpty :: "buffer_key \<Rightarrow> bool" where
  "buffer_key_isEmpty k \<longleftrightarrow> \<not> node_id_isValid (tbk_node_id k)"

record buffer_entry =
  te_addr :: addr
  te_blocks :: "block list"
  te_max_write_pos :: u16
  te_max_size :: u16
  te_key :: buffer_key

fun te_read_blocks :: "block list \<Rightarrow> nat \<Rightarrow> nat \<Rightarrow> nat \<Rightarrow> u8 list" where
  "te_read_blocks [] offset total_offset left_to_read = []"
| "te_read_blocks (p # ps) offset total_offset left_to_read =
    (let (out, t, l) = blk_read (snd p) offset total_offset left_to_read
     in if l = 0 then out else out @ te_read_blocks ps offset t l)"

definition te_read :: "buffer_entry \<Rightarrow> nat \<Rightarrow> bool \<Rightarrow> nat \<Rightarrow> uavcan_error + u8 list" where
  "te_read e offset data_null len =
    (if data_null then Inl ErrInvalidParam
     else if offset \<ge> unat (te_max_write_pos e) then Inr []
     else
       (let len = (if uadd offset len > unat (te_max_write_pos e)
                   then unat (te_max_write_pos e) - offset else len)
        in Inr (te_read_blocks (te_blocks e) offset 0 len)))"

text \<open>The first loop of \<^verbatim>\<open>write\<close>: the blocks that exist already.\<close>

fun te_write_existing :: "block list \<Rightarrow> u8 list \<Rightarrow> nat \<Rightarrow> nat \<Rightarrow> block list \<times> u8 list \<times> nat" where
  "te_write_existing [] inp offset total_offset = ([], inp, total_offset)"
| "te_write_existing (p # ps) inp offset total_offset =
    (let (ds, inp', t) = blk_write (snd p) inp offset total_offset
     in if inp' = [] then ((fst p, ds) # ps, inp', t)
        else (let (ps', inp'', t') = te_write_existing ps inp' offset t
              in ((fst p, ds) # ps', inp'', t')))"

lemma blk_write_progress:
  "inp \<noteq> [] \<Longrightarrow> ds \<noteq> [] \<Longrightarrow> blk_write ds inp target tot = (ds', inp', t) \<Longrightarrow>
    length inp' + (target - t) < length inp + (target - tot)"
proof -
  have le: "blk_write ds inp target tot = (ds', inp', t) \<Longrightarrow>
      length inp' \<le> length inp \<and> tot \<le> t" for ds inp target tot ds' inp' t
    by (induction ds inp target tot arbitrary: ds' rule: blk_write.induct)
       (fastforce split: list.splits if_splits prod.splits)+
  assume a: "inp \<noteq> []" "ds \<noteq> []" "blk_write ds inp target tot = (ds', inp', t)"
  then obtain d es x xs where d: "ds = d # es" and x: "inp = x # xs" by (meson neq_Nil_conv)
  show ?thesis
  proof (cases "tot \<ge> target")
    case True
    obtain es' where "blk_write es xs target (tot + 1) = (es', inp', t)"
      using a(3) d x True by (auto split: prod.splits)
    from le [OF this] show ?thesis using x True by simp
  next
    case False
    obtain es' where "blk_write es inp target (tot + 1) = (es', inp', t)"
      using a(3) d x False by (auto split: prod.splits)
    from le [OF this] show ?thesis using False by linarith
  qed
qed

lemma block_Size_pos: "0 < block_Size"
  by (simp add: block_Size_def MemPoolBlockSize_def sizeof_ptr_def)

lemma blk_instantiate_ne:
  "blk_instantiate A mem s = (Some p, s') \<Longrightarrow> snd p \<noteq> []"
  using block_Size_pos by (auto simp: blk_instantiate_def split: prod.splits option.splits)

text \<open>The second loop: new blocks are appended until all data is written or memory runs out.\<close>

function te_write_new ::
  "'s allocator_ops \<Rightarrow> (addr \<Rightarrow> nat \<Rightarrow> u8) \<Rightarrow> 's \<Rightarrow> u8 list \<Rightarrow> nat \<Rightarrow> nat \<Rightarrow> 's \<times> block list \<times> u8 list" where
  "te_write_new A mem s inp offset total_offset =
    (if inp = [] then (s, [], inp)
     else
       (case blk_instantiate A mem s of
          (None, s') \<Rightarrow> (s', [], inp)
        | (Some p, s') \<Rightarrow>
            (case blk_write (snd p) inp offset total_offset of
               (ds, inp', t) \<Rightarrow>
                 (case te_write_new A mem s' inp' offset t of
                    (s'', ps, inp'') \<Rightarrow> (s'', (fst p, ds) # ps, inp'')))))"
  by pat_completeness auto
termination
  by (relation "measure (\<lambda>(A, mem, s, inp, offset, t). length inp + (offset - t))", simp)
     (auto, metis blk_write_progress blk_instantiate_ne snd_conv)

declare te_write_new.simps [simp del]

definition te_write ::
  "'s allocator_ops \<Rightarrow> (addr \<Rightarrow> nat \<Rightarrow> u8) \<Rightarrow> 's \<times> buffer_entry \<Rightarrow> nat \<Rightarrow> u8 list option \<Rightarrow>
    (uavcan_error + nat) \<times> ('s \<times> buffer_entry)" where
  "te_write A mem se offset data =
    (let (s, e) = se
     in case data of
          None \<Rightarrow> (Inl ErrInvalidParam, (s, e))
        | Some bytes \<Rightarrow>
            if offset \<ge> unat (te_max_size e) then (Inr 0, (s, e))
            else
              (let len = (if uadd offset (length bytes) > unat (te_max_size e)
                          then unat (te_max_size e) - offset else length bytes);
                   (ps, inp, t) = te_write_existing (te_blocks e) (take len bytes) offset 0;
                   (s', qs, left) = te_write_new A mem s inp offset t;
                   actually_written = len - length left
               in (Inr actually_written,
                   (s', e\<lparr>te_blocks := ps @ qs,
                          te_max_write_pos :=
                            max (word_of_nat (uadd offset actually_written)) (te_max_write_pos e)\<rparr>))))"

text \<open>\<^verbatim>\<open>reset\<close> returns the blocks in the order of the chain.\<close>

definition te_reset :: "'s allocator_ops \<Rightarrow> buffer_key \<Rightarrow> 's \<times> buffer_entry \<Rightarrow> 's \<times> buffer_entry" where
  "te_reset A key se =
    (let (s, e) = se
     in (deallocate_all A s (map fst (te_blocks e)),
         e\<lparr>te_key := key, te_max_write_pos := 0, te_blocks := []\<rparr>))"

definition te_instantiate :: "'s allocator_ops \<Rightarrow> u16 \<Rightarrow> 's \<Rightarrow> buffer_entry option \<times> 's" where
  "te_instantiate A max_size s =
    (case op_allocate A s sizeof_entry of
       (None, s') \<Rightarrow> (None, s')
     | (Some praw, s') \<Rightarrow>
         (Some \<lparr>te_addr = praw, te_blocks = [], te_max_write_pos = 0, te_max_size = max_size,
                te_key = buffer_key_default\<rparr>, s'))"

definition te_destroy :: "'s allocator_ops \<Rightarrow> 's \<times> buffer_entry \<Rightarrow> 's" where
  "te_destroy A se =
    (let (s, e) = te_reset A buffer_key_default se in op_deallocate A s (Some (te_addr e)))"

section \<open>The manager\<close>

record buffer_manager =
  bm_buffers :: "buffer_entry list"
  bm_max_buf_size :: u16

definition bm_findFirst :: "buffer_key \<Rightarrow> buffer_manager \<Rightarrow> buffer_entry option" where
  "bm_findFirst key m = List.find (\<lambda>e. te_key e = key) (bm_buffers m)"

definition bm_access :: "buffer_key \<Rightarrow> buffer_manager \<Rightarrow> buffer_entry option" where
  "bm_access key m = (if buffer_key_isEmpty key then None else bm_findFirst key m)"

definition bm_remove ::
  "'s allocator_ops \<Rightarrow> buffer_key \<Rightarrow> 's \<times> buffer_manager \<Rightarrow> 's \<times> buffer_manager" where
  "bm_remove A key sm =
    (let (s, m) = sm
     in case bm_findFirst key m of
          None \<Rightarrow> (s, m)
        | Some dyn \<Rightarrow>
            (te_destroy A (s, dyn),
             m\<lparr>bm_buffers := remove_first (\<lambda>e. te_key e = key) (bm_buffers m)\<rparr>))"

text \<open>\<^verbatim>\<open>create\<close>: the Boolean says that the returned pointer is not null.\<close>

definition bm_create ::
  "'s allocator_ops \<Rightarrow> buffer_key \<Rightarrow> 's \<times> buffer_manager \<Rightarrow> bool \<times> 's \<times> buffer_manager" where
  "bm_create A key sm =
    (if buffer_key_isEmpty key then (False, sm)
     else
       (let (s, m) = bm_remove A key sm
        in case te_instantiate A (bm_max_buf_size m) s of
             (None, s') \<Rightarrow> (False, (s', m))
           | (Some tbme, s') \<Rightarrow>
               (let (s'', e) = te_reset A key (s', tbme)
                in (True, (s'', m\<lparr>bm_buffers := e # bm_buffers m\<rparr>)))))"

text \<open>Writing through the pointer that \<^verbatim>\<open>access\<close> or \<^verbatim>\<open>create\<close> returned for a key.\<close>

definition bm_write ::
  "'s allocator_ops \<Rightarrow> (addr \<Rightarrow> nat \<Rightarrow> u8) \<Rightarrow> buffer_key \<Rightarrow> nat \<Rightarrow> u8 list \<Rightarrow> 's \<times> buffer_manager \<Rightarrow>
    (uavcan_error + nat) \<times> ('s \<times> buffer_manager)" where
  "bm_write A mem key offset bytes sm =
    (let (s, m) = sm
     in case bm_findFirst key m of
          None \<Rightarrow> (Inl ErrLogic, (s, m))
        | Some e \<Rightarrow>
            (let (r, (s', e')) = te_write A mem (s, e) offset (Some bytes)
             in (r, (s', m\<lparr>bm_buffers :=
                            update_first (\<lambda>e. te_key e = key) (\<lambda>_. e') (bm_buffers m)\<rparr>))))"

fun bm_destroy_all :: "'s allocator_ops \<Rightarrow> 's \<Rightarrow> buffer_entry list \<Rightarrow> 's" where
  "bm_destroy_all A s [] = s"
| "bm_destroy_all A s (dyn # ds) = bm_destroy_all A (te_destroy A (s, dyn)) ds"

definition bm_getNumBuffers :: "buffer_manager \<Rightarrow> nat" where
  "bm_getNumBuffers m = length (bm_buffers m)"

definition bm_isEmpty :: "buffer_manager \<Rightarrow> bool" where
  "bm_isEmpty m \<longleftrightarrow> bm_getNumBuffers m = 0"

section \<open>The contract of a transfer buffer\<close>

text \<open>
  \<open>contents\<close> are the bytes below the highest written position.  Writes start at or below that
  position, as those of the transfer receiver do; a write may store less than it was given when
  the capacity or the memory is exhausted.
\<close>

locale transfer_buffer =
  fixes bread :: "'b \<Rightarrow> nat \<Rightarrow> nat \<Rightarrow> u8 list"
    and bwrite :: "'b \<Rightarrow> nat \<Rightarrow> u8 list \<Rightarrow> nat \<times> 'b"
    and binv :: "'b \<Rightarrow> bool"
    and contents :: "'b \<Rightarrow> u8 list"
    and capacity :: "'b \<Rightarrow> nat"
  assumes read_contents: "binv b \<Longrightarrow> off + len < 2 ^ 32 \<Longrightarrow>
      bread b off len = take len (drop off (contents b))"
    and write_spec: "binv b \<Longrightarrow> off \<le> length (contents b) \<Longrightarrow> off + length d < 2 ^ 32 \<Longrightarrow>
      bwrite b off d = (n, b') \<Longrightarrow>
      binv b' \<and> capacity b' = capacity b \<and> n \<le> min (length d) (capacity b - off) \<and>
      contents b' = take off (contents b) @ take n d @ drop (off + n) (contents b)"
    and contents_capacity: "binv b \<Longrightarrow> length (contents b) \<le> capacity b"
begin

lemma append_spec:
  "binv b \<Longrightarrow> length (contents b) + length d < 2 ^ 32 \<Longrightarrow>
    bwrite b (length (contents b)) d = (length d, b') \<Longrightarrow>
    binv b' \<and> contents b' = contents b @ d"
  using write_spec [of b "length (contents b)" d "length d" b'] by simp

lemma write_read:
  assumes "binv b" and "off \<le> length (contents b)" and "off + length d < 2 ^ 32"
    and "bwrite b off d = (length d, b')"
  shows "bread b' off (length d) = d"
proof -
  have c: "binv b'" "contents b' = take off (contents b) @ d @ drop (off + length d) (contents b)"
    using write_spec [OF assms] by simp_all
  then show ?thesis using assms(2,3) by (simp add: read_contents)
qed

text \<open>Chunks written one behind the other give their concatenation.\<close>

fun write_chunks :: "'b \<Rightarrow> u8 list list \<Rightarrow> 'b option" where
  "write_chunks b [] = Some b"
| "write_chunks b (c # cs) =
    (let (n, b') = bwrite b (length (contents b)) c
     in if n = length c then write_chunks b' cs else None)"

lemma write_chunks_concat:
  "binv b \<Longrightarrow> length (contents b) + length (concat cs) < 2 ^ 32 \<Longrightarrow>
    write_chunks b cs = Some b' \<Longrightarrow> binv b' \<and> contents b' = contents b @ concat cs"
proof (induction cs arbitrary: b)
  case (Cons c cs)
  obtain b1 where w: "bwrite b (length (contents b)) c = (length c, b1)"
    and r: "write_chunks b1 cs = Some b'"
    using Cons.prems(3) by (auto split: prod.splits if_splits)
  then have "binv b1" "contents b1 = contents b @ c"
    using append_spec [OF Cons.prems(1) _ w] Cons.prems(2) by simp_all
  then show ?case using Cons.IH [OF _ _ r] Cons.prems(2) by simp
qed simp

end

section \<open>The static buffer keeps the contract\<close>

definition sb_inv :: "static_buffer \<Rightarrow> bool" where
  "sb_inv b \<longleftrightarrow> length (sb_data b) = unat (sb_size b) \<and> sb_max_write_pos b \<le> sb_size b"

definition sb_contents :: "static_buffer \<Rightarrow> u8 list" where
  "sb_contents b = take (unat (sb_max_write_pos b)) (sb_data b)"

definition sb_bread :: "static_buffer \<Rightarrow> nat \<Rightarrow> nat \<Rightarrow> u8 list" where
  "sb_bread b off len = projr (sb_read b off False len)"

definition sb_bwrite :: "static_buffer \<Rightarrow> nat \<Rightarrow> u8 list \<Rightarrow> nat \<times> static_buffer" where
  "sb_bwrite b off d = (let (r, b') = sb_write b off (Some d) in (projr r, b'))"

lemma unat_max_word: "unat (max a b) = max (unat a) (unat (b :: 'a::len word))"
  by (simp add: max_def word_le_nat_alt)

lemma unat_u16_of_nat: "n < 65536 \<Longrightarrow> unat (word_of_nat n :: u16) = n"
  by (simp add: unat_of_nat)

lemma sb_len: "sb_inv b \<Longrightarrow> length (sb_contents b) = unat (sb_max_write_pos b)"
  by (simp add: sb_inv_def sb_contents_def word_le_nat_alt)

lemma sb_read_spec:
  assumes "sb_inv b" and "off + len < 2 ^ 32"
  shows "sb_read b off False len = Inr (take len (drop off (sb_contents b)))"
  using assms
  by (auto simp: sb_read_def sb_contents_def sb_inv_def word_le_nat_alt drop_take min_def)

lemma take_max_splice:
  assumes "off \<le> m" and "m \<le> length xs" and "off + length d \<le> length xs"
  shows "take (max (off + length d) m) (overwrite xs off d) =
    take off (take m xs) @ d @ drop (off + length d) (take m xs)"
proof (cases "m = off")
  case True
  then show ?thesis using assms by (simp add: overwrite_def max_def)
next
  case False
  then have "off < m" using assms(1) by simp
  then show ?thesis using assms
    by (cases "off + length d \<le> m") (simp_all add: overwrite_def max_def min_def drop_take)
qed

lemma sb_write_spec:
  assumes "sb_inv b" and "off \<le> length (sb_contents b)" and "off + length d < 2 ^ 32"
    and "sb_write b off (Some d) = (r, b')"
  shows "\<exists>n. r = Inr n \<and> n = min (length d) (unat (sb_size b) - off) \<and> sb_inv b' \<and>
    sb_size b' = sb_size b \<and>
    sb_contents b' = take off (sb_contents b) @ take n d @ drop (off + n) (sb_contents b)"
proof (cases "off \<ge> unat (sb_size b)")
  case True
  then show ?thesis
    using assms sb_len [OF assms(1)]
    by (auto simp: sb_write_def sb_inv_def sb_contents_def word_le_nat_alt)
next
  case False
  define n where "n = min (length d) (unat (sb_size b) - off)"
  have sz: "unat (sb_size b) < 65536" using unat_u16_lt by blast
  have n: "off + n \<le> unat (sb_size b)" "n = length (take n d)" using False by (simp_all add: n_def)
  have m: "off \<le> unat (sb_max_write_pos b)" "unat (sb_max_write_pos b) \<le> length (sb_data b)"
    "length (sb_data b) = unat (sb_size b)"
    using assms(1,2) sb_len [OF assms(1)] by (simp_all add: sb_inv_def word_le_nat_alt)
  have eq: "r = Inr n" "b' = b\<lparr>sb_data := overwrite (sb_data b) off (take n d),
      sb_max_write_pos := max (word_of_nat (off + n)) (sb_max_write_pos b)\<rparr>"
    using assms(3,4) False n sz by (auto simp: sb_write_def Let_def n_def min_def split: if_splits)
  have pos: "unat (max (word_of_nat (off + n)) (sb_max_write_pos b)) =
      max (off + n) (unat (sb_max_write_pos b))"
    using n sz by (simp add: unat_max_word unat_u16_of_nat del: of_nat_add)
  have "sb_contents b' = take off (sb_contents b) @ take n d @ drop (off + n) (sb_contents b)"
    using take_max_splice [of off "unat (sb_max_write_pos b)" "sb_data b" "take n d"] m n
    by (simp add: eq(2) sb_contents_def pos del: of_nat_add)
  moreover have "sb_inv b'"
    using m n pos assms(1) by (simp add: eq(2) sb_inv_def word_le_nat_alt del: of_nat_add)
  ultimately show ?thesis using eq n_def by simp
qed

interpretation sb: transfer_buffer sb_bread sb_bwrite sb_inv sb_contents "\<lambda>b. unat (sb_size b)"
proof unfold_locales
  fix b and off len :: nat assume "sb_inv b" and "off + len < 2 ^ 32"
  then show "sb_bread b off len = take len (drop off (sb_contents b))"
    by (simp add: sb_bread_def sb_read_spec)
next
  fix b off d n b'
  assume a: "sb_inv b" "off \<le> length (sb_contents b)" "off + length d < 2 ^ 32"
    and w: "sb_bwrite b off d = (n, b')"
  obtain r where r: "sb_write b off (Some d) = (r, b')" "n = projr r"
    using w by (auto simp: sb_bwrite_def split: prod.splits)
  show "sb_inv b' \<and> unat (sb_size b') = unat (sb_size b) \<and>
      n \<le> min (length d) (unat (sb_size b) - off) \<and>
      sb_contents b' = take off (sb_contents b) @ take n d @ drop (off + n) (sb_contents b)"
    using sb_write_spec [OF a r(1)] r(2) by auto
next
  fix b assume "sb_inv b"
  then show "length (sb_contents b) \<le> unat (sb_size b)"
    by (simp add: sb_len) (simp add: sb_inv_def word_le_nat_alt)
qed

section \<open>Writing to a chain of blocks\<close>

definition bytes_of :: "block list \<Rightarrow> u8 list" where
  "bytes_of ps = concat (map snd ps)"

lemma bytes_of_simps [simp]:
  "bytes_of [] = []" "bytes_of (p # ps) = snd p @ bytes_of ps"
  "bytes_of (ps @ qs) = bytes_of ps @ bytes_of qs"
  by (simp_all add: bytes_of_def)

text \<open>The array \<open>ds\<close> with \<open>inp\<close> written from index \<open>k\<close> on, cut at the end of the array.\<close>

definition put_bytes :: "u8 list \<Rightarrow> u8 list \<Rightarrow> nat \<Rightarrow> u8 list" where
  "put_bytes ds inp k = take k ds @ take (length ds - k) inp @ drop (k + length inp) ds"

lemma length_put_bytes [simp]: "length (put_bytes ds inp k) = length ds"
  by (simp add: put_bytes_def min_def)

lemma put_bytes_Nil [simp]: "put_bytes ds [] k = ds" "put_bytes [] inp k = []"
  by (simp_all add: put_bytes_def)

lemma put_bytes_append:
  "put_bytes (ds @ es) inp k = put_bytes ds inp k @ put_bytes es (drop (length ds - k) inp) (k - length ds)"
proof (cases "k \<le> length ds")
  case True
  then have "take (length ds + length es - k) inp =
      take (length ds - k) inp @ take (length es) (drop (length ds - k) inp)"
    using take_add [of "length ds - k" "length es" inp] by simp
  then show ?thesis using True
    by (cases "length inp + k \<le> length ds") (simp_all add: put_bytes_def add.commute [of k])
qed (simp add: put_bytes_def add.commute)

lemma put_bytes_overwrite:
  "k \<le> length ds \<Longrightarrow> put_bytes ds inp k = overwrite ds k (take (length ds - k) inp)"
  by (cases "length inp \<le> length ds - k") (simp_all add: put_bytes_def overwrite_def min_def)

lemma blk_write_splice:
  "blk_write ds inp target tot = (ds', inp', t) \<Longrightarrow>
    ds' = put_bytes ds inp (target - tot) \<and> inp' = drop (length ds - (target - tot)) inp \<and>
    (inp' \<noteq> [] \<longrightarrow> t = tot + length ds)"
proof (induction ds inp target tot arbitrary: ds' inp' t rule: blk_write.induct)
  case (2 d ds inp target tot)
  show ?case
  proof (cases inp)
    case Nil
    then show ?thesis using 2 by simp
  next
    case (Cons x xs)
    show ?thesis
    proof (cases "tot \<ge> target")
      case True
      obtain es where w: "blk_write ds xs target (tot + 1) = (es, inp', t)" "ds' = x # es"
        using 2(3) Cons True by (auto split: prod.splits)
      show ?thesis using 2(1) [OF Cons True w(1)] w(2) True Cons by (simp add: put_bytes_def)
    next
      case False
      obtain es where w: "blk_write ds inp target (tot + 1) = (es, inp', t)" "ds' = d # es"
        using 2(3) Cons False by (auto split: prod.splits)
      have k: "target - tot = Suc (target - (tot + 1))" using False by simp
      show ?thesis using 2(2) [OF Cons False w(1)] w(2) by (simp add: put_bytes_def k)
    qed
  qed
qed simp

lemma drop_drop_diff: "drop (b - (k - a)) (drop (a - k) xs) = drop (a + b - k) xs" for a b k :: nat
  by (cases "k \<le> a") (simp_all add: add.commute)

lemma te_write_existing_splice:
  "te_write_existing ps inp off tot = (ps', inp', t) \<Longrightarrow>
    bytes_of ps' = put_bytes (bytes_of ps) inp (off - tot) \<and>
    inp' = drop (length (bytes_of ps) - (off - tot)) inp \<and>
    (inp' \<noteq> [] \<longrightarrow> t = tot + length (bytes_of ps)) \<and>
    map fst ps' = map fst ps \<and> map (length \<circ> snd) ps' = map (length \<circ> snd) ps"
proof (induction ps arbitrary: inp tot ps' inp' t)
  case (Cons p ps)
  obtain ds inp1 t1 where w: "blk_write (snd p) inp off tot = (ds, inp1, t1)" by (metis prod_cases3)
  note b = blk_write_splice [OF w]
  show ?case
  proof (cases "inp1 = []")
    case True
    then have "ps' = (fst p, ds) # ps" "inp' = []" using Cons.prems w by (auto split: prod.splits)
    then show ?thesis using b True by (auto simp: put_bytes_append)
  next
    case False
    obtain ps1 where r: "te_write_existing ps inp1 off t1 = (ps1, inp', t)" "ps' = (fst p, ds) # ps1"
      using Cons.prems w False by (auto split: prod.splits)
    have t1: "t1 = tot + length (snd p)" "off - t1 = (off - tot) - length (snd p)" using b False by auto
    show ?thesis using Cons.IH [OF r(1)] r(2) b t1(1)
      drop_drop_diff [of "length (bytes_of ps)" "off - tot" "length (snd p)" inp]
      unfolding t1(2) by (simp add: put_bytes_append del: drop_drop)
  qed
qed simp

definition te_contents :: "buffer_entry \<Rightarrow> u8 list" where
  "te_contents e = take (unat (te_max_write_pos e)) (bytes_of (te_blocks e))"

definition blocks_ok :: "block list \<Rightarrow> bool" where
  "blocks_ok ps \<longleftrightarrow> distinct (map fst ps) \<and> (\<forall>p \<in> set ps. length (snd p) = block_Size)"

definition te_wf :: "buffer_entry \<Rightarrow> bool" where
  "te_wf e \<longleftrightarrow> blocks_ok (te_blocks e) \<and> te_addr e \<notin> fst ` set (te_blocks e) \<and>
     unat (te_max_write_pos e) \<le> length (bytes_of (te_blocks e)) \<and>
     te_max_write_pos e \<le> te_max_size e"

text \<open>The blocks of memory that an entry occupies.\<close>

definition te_owned :: "buffer_entry \<Rightarrow> addr set" where
  "te_owned e = insert (te_addr e) (fst ` set (te_blocks e))"

lemma te_len: "te_wf e \<Longrightarrow> length (te_contents e) = unat (te_max_write_pos e)"
  by (simp add: te_wf_def te_contents_def)

lemma blk_read_eq:
  "blk_read ds target tot left = (out, t, l) \<Longrightarrow>
    out = take left (drop (target - tot) ds) \<and> l = left - length out \<and>
    (l \<noteq> 0 \<longrightarrow> t = tot + length ds)"
proof (induction ds target tot left arbitrary: out t l rule: blk_read.induct)
  case (2 d ds target tot left)
  show ?case
  proof (cases "left > 0")
    case True
    show ?thesis
    proof (cases "tot \<ge> target")
      case ge: True
      obtain out1 where w: "blk_read ds target (tot + 1) (left - 1) = (out1, t, l)" "out = d # out1"
        using 2(3) True ge by (auto split: prod.splits)
      show ?thesis using 2(1) [OF True ge w(1)] w(2) ge True by (cases left) auto
    next
      case lt: False
      then have w: "blk_read ds target (tot + 1) left = (out, t, l)" using 2(3) True by simp
      have "target - tot = Suc (target - (tot + 1))" using lt by simp
      then show ?thesis using 2(2) [OF True lt w] by simp
    qed
  next
    case False
    then show ?thesis using 2(3) by simp
  qed
qed simp

lemma te_read_blocks_eq:
  "te_read_blocks ps off tot left = take left (drop (off - tot) (bytes_of ps))"
proof (induction ps arbitrary: tot left)
  case (Cons p ps)
  obtain out t l where w: "blk_read (snd p) off tot left = (out, t, l)" by (metis prod_cases3)
  note b = blk_read_eq [OF w]
  show ?case
  proof (cases "l = 0")
    case True
    then have "left \<le> length (snd p) - (off - tot)" using b by auto
    then show ?thesis using w b True by (simp add: Let_def)
  next
    case False
    then have "t = tot + length (snd p)" using b by simp
    then show ?thesis using w b False Cons.IH [of t l] by (auto simp: Let_def min_def split: if_splits)
  qed
qed simp

lemma te_read_spec:
  assumes "te_wf e" and "off + len < 2 ^ 32"
  shows "te_read e off False len = Inr (take len (drop off (te_contents e)))"
  using assms
  by (auto simp: te_read_def te_read_blocks_eq te_contents_def te_wf_def drop_take min_def)

context pool_allocator
begin

lemma blk_instantiate_spec:
  "inv s \<Longrightarrow> blk_instantiate A mem s = (Some p, s') \<Longrightarrow>
    inv s' \<and> fst p \<notin> live s \<and> live s' = insert (fst p) (live s) \<and> length (snd p) = block_Size"
  "inv s \<Longrightarrow> blk_instantiate A mem s = (None, s') \<Longrightarrow> inv s' \<and> live s' = live s"
  using allocate_some [of s "block_Size + sizeof_ptr" "fst p" s']
    allocate_none [of s "block_Size + sizeof_ptr" s']
  by (auto simp: blk_instantiate_def split: prod.splits option.splits)

lemma te_write_new_spec:
  "inv s \<Longrightarrow> te_write_new A mem s inp off tot = (s', qs, left) \<Longrightarrow>
    \<exists>js. length js = length (bytes_of qs) \<and> bytes_of qs = put_bytes js inp (off - tot) \<and>
      left = drop (length js - (off - tot)) inp \<and> inv s' \<and>
      live s' = live s \<union> fst ` set qs \<and> live s \<inter> fst ` set qs = {} \<and> blocks_ok qs"
proof (induction "length inp + (off - tot)" arbitrary: s inp tot s' qs left rule: less_induct)
  case less
  show ?case
  proof (cases "inp = []")
    case True
    then show ?thesis using less.prems by (simp add: te_write_new.simps blocks_ok_def)
  next
    case False
    obtain o1 s1 where i: "blk_instantiate A mem s = (o1, s1)" by fastforce
    show ?thesis
    proof (cases o1)
      case None
      then show ?thesis using less.prems False i blk_instantiate_spec(2) [of s mem s1]
        by (auto simp: te_write_new.simps [of A mem s inp] blocks_ok_def)
    next
      case (Some p)
      have al: "inv s1" "fst p \<notin> live s" "live s1 = insert (fst p) (live s)"
        "length (snd p) = block_Size"
        using blk_instantiate_spec(1) [of s mem p s1] less.prems(1) i Some by simp_all
      obtain ds inp1 t1 where w: "blk_write (snd p) inp off tot = (ds, inp1, t1)"
        by (metis prod_cases3)
      obtain qs1 where r: "te_write_new A mem s1 inp1 off t1 = (s', qs1, left)"
        and qs: "qs = (fst p, ds) # qs1"
        using less.prems(2) False i Some w
        by (auto simp: te_write_new.simps [of A mem s inp] split: prod.splits)
      have "snd p \<noteq> []" using i Some blk_instantiate_ne [of A mem s p s1] by simp
      then have lt: "length inp1 + (off - t1) < length inp + (off - tot)"
        using blk_write_progress False w by blast
      obtain js where js: "length js = length (bytes_of qs1)" "bytes_of qs1 = put_bytes js inp1 (off - t1)"
        "left = drop (length js - (off - t1)) inp1" "inv s'" "live s' = live s1 \<union> fst ` set qs1"
        "live s1 \<inter> fst ` set qs1 = {}" "blocks_ok qs1"
        using less.hyps [OF lt al(1) r] by blast
      note b = blk_write_splice [OF w]
      have k: "off - t1 = off - tot - length (snd p)" if "inp1 \<noteq> []" using b that by auto
      have "bytes_of qs = put_bytes (snd p @ js) inp (off - tot)"
        using b js(2) k by (cases "inp1 = []") (auto simp: qs put_bytes_append)
      moreover have "left = drop (length (snd p @ js) - (off - tot)) inp"
      proof (cases "inp1 = []")
        case True
        then have "length inp \<le> length (snd p) - (off - tot)" using b by auto
        then show ?thesis using True js(3) by auto
      next
        case False
        then show ?thesis
          using js(3) k [OF False] b drop_drop_diff [of "length js" "off - tot" "length (snd p)" inp]
          by simp
      qed
      moreover have "blocks_ok qs" "live s' = live s \<union> fst ` set qs" "live s \<inter> fst ` set qs = {}"
        using js al b by (auto simp: qs blocks_ok_def)
      ultimately show ?thesis using js(1,4) b by (intro exI [of _ "snd p @ js"]) (auto simp: qs)
    qed
  qed
qed

lemma te_write_full:
  assumes "inv s" and "te_wf e" and "te_owned e \<subseteq> live s"
    and "off < unat (te_max_size e)" and "off + length d < 2 ^ 32"
    and "te_write A mem (s, e) off (Some d) = (r, s', e')"
  shows "\<exists>js len n. len = min (length d) (unat (te_max_size e) - off) \<and> r = Inr n \<and> inv s' \<and>
    bytes_of (te_blocks e') = put_bytes (bytes_of (te_blocks e) @ js) (take len d) off \<and>
    n = len - length (drop (length (bytes_of (te_blocks e) @ js) - off) (take len d)) \<and>
    blocks_ok (te_blocks e') \<and> te_owned e' \<inter> live s = te_owned e \<and>
    live s' = live s \<union> te_owned e' \<and> te_addr e' = te_addr e \<and> te_key e' = te_key e \<and>
    te_max_size e' = te_max_size e \<and> te_addr e' \<notin> fst ` set (te_blocks e') \<and>
    te_max_write_pos e' = max (word_of_nat (off + n)) (te_max_write_pos e)"
proof -
  define len where "len = min (length d) (unat (te_max_size e) - off)"
  have len_code: "(if uadd off (length d) > unat (te_max_size e) then unat (te_max_size e) - off
      else length d) = len"
    using assms(4,5) by (auto simp: len_def)
  obtain ps inp t where x: "te_write_existing (te_blocks e) (take len d) off 0 = (ps, inp, t)"
    by (metis prod_cases3)
  obtain qs left s1 where y: "te_write_new A mem s inp off t = (s1, qs, left)" by (metis prod_cases3)
  note xs = te_write_existing_splice [OF x]
  obtain js where js: "length js = length (bytes_of qs)" "bytes_of qs = put_bytes js inp (off - t)"
    "left = drop (length js - (off - t)) inp" "inv s1" "live s1 = live s \<union> fst ` set qs"
    "live s \<inter> fst ` set qs = {}" "blocks_ok qs"
    using te_write_new_spec [OF assms(1) y] by blast
  have sz: "off + len < 65536" using unat_u16_lt [of "te_max_size e"] assms(4) by (simp add: len_def)
  have res: "r = Inr (len - length left)" "s' = s1"
    "e' = e\<lparr>te_blocks := ps @ qs,
      te_max_write_pos := max (word_of_nat (off + (len - length left))) (te_max_write_pos e)\<rparr>"
    using assms(4,6) x y sz by (auto simp: te_write_def Let_def len_code simp del: of_nat_add)
  have k: "off - t = off - length (bytes_of (te_blocks e))" if "inp \<noteq> []" using xs that by auto
  have bytes: "bytes_of (ps @ qs) = put_bytes (bytes_of (te_blocks e) @ js) (take len d) off"
    using xs js(2) k by (cases "inp = []") (auto simp: put_bytes_append)
  have left: "left = drop (length (bytes_of (te_blocks e) @ js) - off) (take len d)"
  proof (cases "inp = []")
    case True
    then show ?thesis using xs js(3) by auto
  next
    case False
    then show ?thesis using xs js(3) k
        drop_drop_diff [of "length js" off "length (bytes_of (te_blocks e))" "take len d"] by simp
  qed
  have fs: "fst ` set ps = fst ` set (te_blocks e)" using xs by (metis set_map)
  have "length (snd p) = block_Size" if "p \<in> set ps" for p
  proof -
    have "(length \<circ> snd) p \<in> set (map (length \<circ> snd) (te_blocks e))" using that xs by (metis image_eqI set_map)
    then show ?thesis using assms(2) by (auto simp: te_wf_def blocks_ok_def)
  qed
  moreover have "distinct (map fst ps)" using xs assms(2) by (simp add: te_wf_def blocks_ok_def)
  moreover have "fst ` set ps \<inter> fst ` set qs = {}"
    using fs js(6) assms(3) unfolding te_owned_def by blast
  ultimately have ok: "blocks_ok (ps @ qs)"
    using js(7) by (auto simp: blocks_ok_def)
  have oe: "te_owned e' = te_owned e \<union> fst ` set qs"
    by (simp add: res(3) te_owned_def image_Un fs)
  have own: "te_owned e' \<inter> live s = te_owned e" "live s' = live s \<union> te_owned e'"
    unfolding oe res(2) js(5) using js(6) assms(3) by blast+
  have "te_addr e \<in> live s" using assms(3) by (simp add: te_owned_def)
  then have ad: "te_addr e' \<notin> fst ` set (te_blocks e')"
    using js(6) assms(2) by (auto simp: res(3) image_Un fs te_wf_def)
  have e': "te_blocks e' = ps @ qs" "te_addr e' = te_addr e" "te_key e' = te_key e"
    "te_max_size e' = te_max_size e"
    "te_max_write_pos e' = max (word_of_nat (off + (len - length left))) (te_max_write_pos e)"
    by (simp_all add: res(3))
  show ?thesis
  proof (intro exI conjI)
    show "len = min (length d) (unat (te_max_size e) - off)" by (rule len_def)
    show "r = Inr (len - length left)" by (rule res(1))
    show "inv s'" unfolding res(2) by (rule js(4))
    show "bytes_of (te_blocks e') = put_bytes (bytes_of (te_blocks e) @ js) (take len d) off"
      unfolding e'(1) by (rule bytes)
    show "len - length left =
        len - length (drop (length (bytes_of (te_blocks e) @ js) - off) (take len d))"
      by (subst left) (rule refl)
    show "blocks_ok (te_blocks e')" unfolding e'(1) by (rule ok)
  qed (rule own ad e')+
qed

lemma te_write_spec:
  assumes "inv s" and "te_wf e" and "te_owned e \<subseteq> live s" and "off \<le> length (te_contents e)"
    and "off + length d < 2 ^ 32" and "te_write A mem (s, e) off (Some d) = (r, s', e')"
  shows "\<exists>n. r = Inr n \<and> n \<le> min (length d) (unat (te_max_size e) - off) \<and> inv s' \<and> te_wf e' \<and>
    te_contents e' = take off (te_contents e) @ take n d @ drop (off + n) (te_contents e) \<and>
    te_owned e' \<inter> live s = te_owned e \<and> live s' = live s \<union> te_owned e' \<and>
    te_addr e' = te_addr e \<and> te_key e' = te_key e \<and> te_max_size e' = te_max_size e"
proof (cases "off < unat (te_max_size e)")
  case False
  then have "r = Inr 0" "s' = s" "e' = e" using assms(6) by (auto simp: te_write_def)
  then show ?thesis using assms(1-4) by auto
next
  case True
  define B where "B = bytes_of (te_blocks e)"
  define m where "m = unat (te_max_write_pos e)"
  obtain js len n where f: "len = min (length d) (unat (te_max_size e) - off)" "r = Inr n" "inv s'"
    "bytes_of (te_blocks e') = put_bytes (B @ js) (take len d) off"
    "n = len - length (drop (length (B @ js) - off) (take len d))" "blocks_ok (te_blocks e')"
    "te_owned e' \<inter> live s = te_owned e" "live s' = live s \<union> te_owned e'" "te_addr e' = te_addr e"
    "te_key e' = te_key e" "te_max_size e' = te_max_size e" "te_addr e' \<notin> fst ` set (te_blocks e')"
    "te_max_write_pos e' = max (word_of_nat (off + n)) (te_max_write_pos e)"
    using te_write_full [OF assms(1-3) True assms(5,6)] unfolding B_def by blast
  have m: "off \<le> m" "m \<le> length B" "m \<le> unat (te_max_size e)"
    using assms(2,4) te_len [OF assms(2)] by (simp_all add: te_wf_def B_def m_def word_le_nat_alt)
  have n: "n = min len (length (B @ js) - off)" "len \<le> length d" using f(1,5) by (auto simp: min_def)
  then have nn: "off + n \<le> length (B @ js)" "length (take n d) = n" "take (length (B @ js) - off) (take len d) = take n d"
    using m by (auto simp: min_def)
  have b': "bytes_of (te_blocks e') = overwrite (B @ js) off (take n d)"
    using m by (simp add: f(4) put_bytes_overwrite nn(3) [simplified])
  have off_n: "off + n < 65536" "off + n \<le> unat (te_max_size e)"
    using f(1) n True unat_u16_lt [of "te_max_size e"] by (simp_all add: min_def split: if_splits)
  have pos: "unat (te_max_write_pos e') = max (off + n) m"
    using off_n by (simp add: f(13) unat_max_word unat_u16_of_nat m_def del: of_nat_add)
  have "te_contents e' = take off (te_contents e) @ take n d @ drop (off + n) (te_contents e)"
    using take_max_splice [of off m "B @ js" "take n d"] m nn
    by (simp add: te_contents_def pos b' B_def [symmetric] m_def [symmetric])
  moreover have "te_wf e'"
    using f(6,12) pos b' nn m off_n by (simp add: te_wf_def word_le_nat_alt f(11))
  moreover have "n \<le> min (length d) (unat (te_max_size e) - off)"
    unfolding f(1) [symmetric] using n(1) by simp
  ultimately show ?thesis using f by blast
qed

lemma te_destroy_spec:
  assumes "inv s" and "te_wf e" and "te_owned e \<subseteq> live s"
  shows "inv (te_destroy A (s, e)) \<and> live (te_destroy A (s, e)) = live s - te_owned e"
proof -
  let ?s = "deallocate_all A s (map fst (te_blocks e))"
  have "inv ?s" "live ?s = live s - fst ` set (te_blocks e)"
    using deallocate_all_live [OF assms(1), of "map fst (te_blocks e)"] assms(2,3)
    by (auto simp: te_wf_def blocks_ok_def te_owned_def)
  moreover have "te_addr e \<in> live s - fst ` set (te_blocks e)"
    using assms(2,3) by (auto simp: te_wf_def te_owned_def)
  ultimately show ?thesis
    using deallocate_some [of ?s "te_addr e", OF _ _ refl]
    by (auto simp: te_destroy_def te_reset_def te_owned_def)
qed

end

text \<open>The dynamic buffer together with the pool behind it.\<close>

definition te_bread :: "pool \<times> buffer_entry \<Rightarrow> nat \<Rightarrow> nat \<Rightarrow> u8 list" where
  "te_bread b off len = projr (te_read (snd b) off False len)"

definition te_bwrite ::
  "(addr \<Rightarrow> nat \<Rightarrow> u8) \<Rightarrow> pool \<times> buffer_entry \<Rightarrow> nat \<Rightarrow> u8 list \<Rightarrow> nat \<times> (pool \<times> buffer_entry)" where
  "te_bwrite mem b off d = (let (r, b') = te_write pool_ops mem b off (Some d) in (projr r, b'))"

definition te_binv :: "pool \<times> buffer_entry \<Rightarrow> bool" where
  "te_binv b \<longleftrightarrow> pool_inv (fst b) \<and> te_wf (snd b) \<and> te_owned (snd b) \<subseteq> pool_live (fst b)"

interpretation dyn: transfer_buffer te_bread "te_bwrite mem" te_binv "\<lambda>b. te_contents (snd b)"
  "\<lambda>b. unat (te_max_size (snd b))" for mem
proof unfold_locales
  fix b and off len :: nat assume "te_binv b" and "off + len < 2 ^ 32"
  then show "te_bread b off len = take len (drop off (te_contents (snd b)))"
    by (simp add: te_bread_def te_read_spec te_binv_def)
next
  fix b and off :: nat and d n b'
  assume a: "te_binv b" "off \<le> length (te_contents (snd b))" "off + length d < 2 ^ 32"
    and w: "te_bwrite mem b off d = (n, b')"
  obtain r where r: "te_write pool_ops mem (fst b, snd b) off (Some d) = (r, fst b', snd b')" "n = projr r"
    using w by (auto simp: te_bwrite_def split: prod.splits)
  show "te_binv b' \<and> unat (te_max_size (snd b')) = unat (te_max_size (snd b)) \<and>
      n \<le> min (length d) (unat (te_max_size (snd b)) - off) \<and>
      te_contents (snd b') = take off (te_contents (snd b)) @ take n d @ drop (off + n) (te_contents (snd b))"
    using pool.te_write_spec [OF _ _ _ a(2,3) r(1)] a(1) r(2) unfolding te_binv_def by fastforce
next
  fix b assume "te_binv b"
  then show "length (te_contents (snd b)) \<le> unat (te_max_size (snd b))"
    by (simp add: te_binv_def te_len) (simp add: te_wf_def word_le_nat_alt)
qed

section \<open>The manager\<close>

definition bm_owned :: "buffer_manager \<Rightarrow> addr set" where
  "bm_owned m = (\<Union>e \<in> set (bm_buffers m). te_owned e)"

definition bm_wf :: "buffer_manager \<Rightarrow> bool" where
  "bm_wf m \<longleftrightarrow> (\<forall>e \<in> set (bm_buffers m). te_wf e \<and> te_max_size e = bm_max_buf_size m) \<and>
     distinct (map te_key (bm_buffers m)) \<and>
     sorted_wrt (\<lambda>a b. te_owned a \<inter> te_owned b = {}) (bm_buffers m)"

text \<open>The bytes collected for each key.\<close>

definition bm_lookup :: "buffer_manager \<Rightarrow> buffer_key \<Rightarrow> u8 list option" where
  "bm_lookup m key = map_option te_contents (bm_findFirst key m)"

lemma bm_find_split:
  assumes "bm_wf m" and "bm_findFirst key m = Some e"
  obtains us vs where "bm_buffers m = us @ e # vs" "te_key e = key"
    "\<forall>u \<in> set us. te_key u \<noteq> key" "\<forall>u \<in> set vs. te_key u \<noteq> key"
    "te_owned e \<inter> (\<Union>u \<in> set (us @ vs). te_owned u) = {}"
proof -
  obtain us vs where uv: "bm_buffers m = us @ e # vs" "te_key e = key" "\<forall>u \<in> set us. te_key u \<noteq> key"
    using find_split [of "\<lambda>e. te_key e = key" "bm_buffers m" e] assms(2)
    by (auto simp: bm_findFirst_def)
  have "distinct (map te_key (us @ e # vs))" using assms(1) uv(1) by (simp add: bm_wf_def)
  then have "\<forall>u \<in> set vs. te_key u \<noteq> key" using uv(2) by auto (metis image_eqI)
  moreover have "te_owned e \<inter> (\<Union>u \<in> set (us @ vs). te_owned u) = {}"
    using assms(1) uv(1) by (auto simp: bm_wf_def sorted_wrt_append)
  ultimately show ?thesis using that uv by blast
qed

lemma bm_lookup_other:
  "te_key e = key \<Longrightarrow> k \<noteq> key \<Longrightarrow>
    List.find (\<lambda>x. te_key x = k) (us @ e # vs) = List.find (\<lambda>x. te_key x = k) (us @ vs)"
  by (simp add: find_append split: option.splits)

context pool_allocator
begin

definition bm_ok :: "'s \<Rightarrow> buffer_manager \<Rightarrow> bool" where
  "bm_ok s m \<longleftrightarrow> inv s \<and> bm_wf m \<and> bm_owned m \<subseteq> live s"

lemma bm_remove_spec:
  assumes "bm_ok s m" and "bm_remove A key (s, m) = (s', m')"
  shows "bm_ok s' m' \<and> bm_lookup m' = (bm_lookup m)(key := None) \<and>
    live s' - bm_owned m' = live s - bm_owned m \<and> bm_max_buf_size m' = bm_max_buf_size m"
proof (cases "bm_findFirst key m")
  case None
  then have "bm_lookup m = (bm_lookup m)(key := None)" by (auto simp: bm_lookup_def)
  then show ?thesis using assms None by (simp add: bm_remove_def)
next
  case (Some e)
  have wf: "bm_wf m" using assms(1) by (simp add: bm_ok_def)
  obtain us vs where uv: "bm_buffers m = us @ e # vs" "te_key e = key" "\<forall>u \<in> set us. te_key u \<noteq> key"
    "\<forall>u \<in> set vs. te_key u \<noteq> key" "te_owned e \<inter> (\<Union>u \<in> set (us @ vs). te_owned u) = {}"
    by (rule bm_find_split [OF wf Some])
  have r: "s' = te_destroy A (s, e)" "m' = m\<lparr>bm_buffers := us @ vs\<rparr>"
    using assms(2) Some uv by (auto simp: bm_remove_def remove_first_at)
  have own: "bm_owned m = te_owned e \<union> bm_owned m'" by (auto simp: bm_owned_def uv(1) r(2))
  have d: "inv s'" "live s' = live s - te_owned e"
    using te_destroy_spec [of s e] assms(1) uv(1) own r(1) by (auto simp: bm_ok_def bm_wf_def)
  have disj: "te_owned e \<inter> bm_owned m' = {}" using uv(5) by (simp add: bm_owned_def r(2))
  have "bm_lookup m' k = ((bm_lookup m)(key := None)) k" for k
    using uv bm_lookup_other [OF uv(2), of k us vs]
    by (auto simp: bm_lookup_def bm_findFirst_def r(2) find_None_all)
  moreover have "bm_wf m'" using wf uv(1) by (auto simp: bm_wf_def r(2) sorted_wrt_append)
  ultimately show ?thesis
    using d own disj assms(1) r(2) by (auto simp: bm_ok_def)
qed

lemma bm_create_spec:
  assumes "bm_ok s m" and "\<not> buffer_key_isEmpty key" and "bm_create A key (s, m) = (ok, s', m')"
  shows "bm_ok s' m' \<and> bm_lookup m' = (bm_lookup m)(key := if ok then Some [] else None) \<and>
    live s' - bm_owned m' = live s - bm_owned m \<and> bm_max_buf_size m' = bm_max_buf_size m"
proof -
  obtain s1 m1 where r: "bm_remove A key (s, m) = (s1, m1)" by fastforce
  note r1 = bm_remove_spec [OF assms(1) r]
  obtain o1 s2 where al: "op_allocate A s1 sizeof_entry = (o1, s2)" by fastforce
  show ?thesis
  proof (cases o1)
    case None
    then have "\<not> ok" "s' = s2" "m' = m1"
      using assms(2,3) r al by (auto simp: bm_create_def te_instantiate_def)
    moreover have "inv s2" "live s2 = live s1"
      using allocate_none [of s1] r1 al None by (auto simp: bm_ok_def)
    ultimately show ?thesis using r1 by (auto simp: bm_ok_def)
  next
    case (Some a)
    define e where "e = \<lparr>te_addr = a, te_blocks = [], te_max_write_pos = 0,
      te_max_size = bm_max_buf_size m1, te_key = key\<rparr>"
    have eq: "ok" "s' = s2" "m' = m1\<lparr>bm_buffers := e # bm_buffers m1\<rparr>"
      using assms(2,3) r al Some by (auto simp: bm_create_def te_instantiate_def te_reset_def e_def)
    have fresh: "inv s2" "a \<notin> live s1" "live s2 = insert a (live s1)"
      using allocate_some [of s1 sizeof_entry a s2] r1 al Some by (auto simp: bm_ok_def)
    have own: "bm_owned m' = insert a (bm_owned m1)"
      by (simp add: eq(3) bm_owned_def e_def te_owned_def)
    have "bm_lookup m1 key = None" using r1 by simp
    then have nokey: "key \<notin> te_key ` set (bm_buffers m1)"
      by (auto simp: bm_lookup_def bm_findFirst_def find_None_all)
    have a_new: "a \<notin> bm_owned m1" using fresh(2) r1 by (auto simp: bm_ok_def)
    have "bm_wf m'"
      using r1 nokey a_new
      by (auto simp: bm_ok_def bm_wf_def eq(3) e_def te_wf_def blocks_ok_def te_owned_def bm_owned_def)
    moreover have "bm_lookup m' = (bm_lookup m1)(key \<mapsto> [])"
      by (auto simp: bm_lookup_def bm_findFirst_def eq(3) e_def te_contents_def)
    ultimately show ?thesis
      using r1 fresh own a_new eq by (auto simp: bm_ok_def)
  qed
qed

lemma bm_write_spec:
  assumes "bm_ok s m" and "bm_lookup m key = Some c" and "off \<le> length c"
    and "off + length d < 2 ^ 32" and "bm_write A mem key off d (s, m) = (r, s', m')"
  shows "\<exists>n. r = Inr n \<and> n \<le> min (length d) (unat (bm_max_buf_size m) - off) \<and> bm_ok s' m' \<and>
    bm_lookup m' = (bm_lookup m)(key \<mapsto> take off c @ take n d @ drop (off + n) c) \<and>
    live s' - bm_owned m' = live s - bm_owned m \<and> bm_max_buf_size m' = bm_max_buf_size m"
proof -
  have wf: "bm_wf m" using assms(1) by (simp add: bm_ok_def)
  obtain e where e: "bm_findFirst key m = Some e" "c = te_contents e"
    using assms(2) by (auto simp: bm_lookup_def)
  obtain us vs where uv: "bm_buffers m = us @ e # vs" "te_key e = key" "\<forall>u \<in> set us. te_key u \<noteq> key"
    "\<forall>u \<in> set vs. te_key u \<noteq> key" "te_owned e \<inter> (\<Union>u \<in> set (us @ vs). te_owned u) = {}"
    by (rule bm_find_split [OF wf e(1)])
  obtain e' where w: "te_write A mem (s, e) off (Some d) = (r, s', e')"
    and m': "m' = m\<lparr>bm_buffers := us @ e' # vs\<rparr>"
    using assms(5) e(1) uv by (auto simp: bm_write_def update_first_at split: prod.splits)
  have pre: "inv s" "te_wf e" "te_owned e \<subseteq> live s" "te_max_size e = bm_max_buf_size m"
    using assms(1) uv(1) by (auto simp: bm_ok_def bm_wf_def bm_owned_def)
  obtain n where n: "r = Inr n" "n \<le> min (length d) (unat (te_max_size e) - off)" "inv s'" "te_wf e'"
    "te_contents e' = take off c @ take n d @ drop (off + n) c"
    "te_owned e' \<inter> live s = te_owned e" "live s' = live s \<union> te_owned e'"
    "te_key e' = te_key e" "te_max_size e' = te_max_size e"
    using te_write_spec [OF pre(1-3) _ assms(4) w] assms(3) e(2) by auto
  let ?R = "\<Union>u \<in> set (us @ vs). te_owned u"
  have own: "bm_owned m = te_owned e \<union> ?R" "bm_owned m' = te_owned e' \<union> ?R"
    by (auto simp: bm_owned_def uv(1) m')
  have R: "?R \<subseteq> live s" using assms(1) own by (simp add: bm_ok_def)
  have disj: "te_owned e' \<inter> ?R = {}" using R uv(5) n(6) by blast
  have "List.find (\<lambda>x. te_key x = key) us = None" using uv(3) by (simp add: find_None_all)
  then have "bm_lookup m' k = ((bm_lookup m)(key \<mapsto> te_contents e')) k" for k
    using uv n(8) bm_lookup_other [of e' key k us vs] bm_lookup_other [of e key k us vs]
    by (cases "k = key") (simp_all add: bm_lookup_def bm_findFirst_def m' find_append)
  then have "bm_lookup m' = (bm_lookup m)(key \<mapsto> te_contents e')" by blast
  moreover have "bm_wf m'"
    using wf uv(1) n(4,8,9) disj by (auto simp: bm_wf_def m' sorted_wrt_append)
  moreover have "live s' - bm_owned m' = live s - bm_owned m"
    using n(6,7) own R uv(5) by auto
  moreover have "bm_owned m' \<subseteq> live s'" using own(2) n(7) R by auto
  ultimately show ?thesis using n pre(4) m' by (auto simp: bm_ok_def)
qed

end

section \<open>Buffers and exhausted memory\<close>

definition bm_others :: "buffer_manager \<Rightarrow> buffer_key \<Rightarrow> buffer_entry list" where
  "bm_others m key = filter (\<lambda>e. te_key e \<noteq> key) (bm_buffers m)"

lemma filter_remove_first: "filter (\<lambda>x. \<not> P x) (remove_first P xs) = filter (\<lambda>x. \<not> P x) xs"
  by (induction xs) auto

lemma filter_update_first:
  "(\<And>x. P x \<Longrightarrow> P (f x)) \<Longrightarrow> filter (\<lambda>x. \<not> P x) (update_first P f xs) = filter (\<lambda>x. \<not> P x) xs"
  by (induction xs) auto

lemma te_write_key: "te_write A mem (s, e) off d = (r, s', e') \<Longrightarrow> te_key e' = te_key e"
  by (auto simp: te_write_def Let_def split: option.splits if_splits prod.splits)

lemma bm_remove_others: "bm_remove A key (s, m) = (s', m') \<Longrightarrow> bm_others m' key = bm_others m key"
  by (auto simp: bm_remove_def bm_others_def filter_remove_first split: option.splits)

lemma bm_create_others: "bm_create A key (s, m) = (ok, s', m') \<Longrightarrow> bm_others m' key = bm_others m key"
  using bm_remove_others [of A key s m]
  by (auto simp: bm_create_def bm_others_def te_reset_def split: option.splits if_splits prod.splits)

lemma bm_write_others:
  assumes "bm_write A mem key off d (s, m) = (r, s', m')"
  shows "bm_others m' key = bm_others m key"
proof (cases "bm_findFirst key m")
  case None
  then show ?thesis using assms by (simp add: bm_write_def)
next
  case (Some e)
  obtain r1 s1 e' where w: "te_write A mem (s, e) off (Some d) = (r1, s1, e')" by (metis prod_cases3)
  have "te_key e' = key" using te_write_key [OF w] Some find_split
    by (fastforce simp: bm_findFirst_def)
  then show ?thesis using assms Some w
    filter_update_first [of "\<lambda>e. te_key e = key" "\<lambda>_. e'" "bm_buffers m"]
    by (auto simp: bm_write_def bm_others_def)
qed

lemma bm_max_const:
  "bm_remove A key (s, m) = (s', m') \<Longrightarrow> bm_max_buf_size m' = bm_max_buf_size m"
  "bm_create A key (s, m) = (ok, s', m') \<Longrightarrow> bm_max_buf_size m' = bm_max_buf_size m"
  "bm_write A mem key off d (s, m) = (r, s', m') \<Longrightarrow> bm_max_buf_size m' = bm_max_buf_size m"
  by (auto simp: bm_remove_def bm_create_def bm_write_def split: option.splits prod.splits if_splits)

text \<open>The blocks of memory that the buffer of a key does not occupy.\<close>

definition bm_foreign :: "addr set \<Rightarrow> buffer_manager \<Rightarrow> buffer_key \<Rightarrow> addr set" where
  "bm_foreign L m key = L - (case bm_findFirst key m of Some e \<Rightarrow> te_owned e | None \<Rightarrow> {})"

lemma bm_foreign_eq:
  assumes "bm_wf m" and "bm_owned m \<subseteq> L"
  shows "bm_foreign L m key = (L - bm_owned m) \<union> (\<Union>e \<in> set (bm_others m key). te_owned e)"
proof (cases "bm_findFirst key m")
  case None
  then have "bm_others m key = bm_buffers m"
    by (auto simp: bm_others_def bm_findFirst_def find_None_all filter_id_conv)
  then show ?thesis using None assms(2) by (auto simp: bm_foreign_def bm_owned_def)
next
  case (Some e)
  obtain us vs where uv: "bm_buffers m = us @ e # vs" "te_key e = key" "\<forall>u \<in> set us. te_key u \<noteq> key"
    "\<forall>u \<in> set vs. te_key u \<noteq> key" "te_owned e \<inter> (\<Union>u \<in> set (us @ vs). te_owned u) = {}"
    by (rule bm_find_split [OF assms(1) Some])
  then have o: "bm_others m key = us @ vs" by (simp add: bm_others_def filter_id_conv)
  show ?thesis using uv assms(2) Some unfolding bm_foreign_def bm_owned_def o by auto
qed

definition blocks_for :: "nat \<Rightarrow> nat" where
  "blocks_for n = (n + block_Size - 1) div block_Size"

lemma blocks_for_mono: "a \<le> b \<Longrightarrow> blocks_for a \<le> blocks_for b"
  by (simp add: blocks_for_def div_le_mono)

lemma blocks_for_less: "k * block_Size < n \<Longrightarrow> k < blocks_for n"
proof -
  assume "k * block_Size < n"
  then have "Suc k * block_Size \<le> n + block_Size - 1" using block_Size_pos by simp
  then have "Suc k \<le> blocks_for n"
    unfolding blocks_for_def using block_Size_pos by (simp add: less_eq_div_iff_mult_less_eq)
  then show ?thesis by simp
qed

text \<open>An allocator that refuses a block only when all of its blocks are in use.\<close>

locale bounded_allocator = pool_allocator +
  fixes capacity :: nat
  assumes exhausted:
      "inv s \<Longrightarrow> n \<le> MemPoolBlockSize \<Longrightarrow> op_allocate A s n = (None, s') \<Longrightarrow> capacity \<le> card (live s)"
    and finite_live: "inv s \<Longrightarrow> finite (live s)"
begin

lemma te_write_new_short:
  "inv s \<Longrightarrow> te_write_new A mem s inp off tot = (s', qs, left) \<Longrightarrow> left \<noteq> [] \<Longrightarrow>
    capacity \<le> card (live s')"
proof (induction "length inp + (off - tot)" arbitrary: s inp tot qs rule: less_induct)
  case less
  have ne: "inp \<noteq> []" using less.prems(2,3) by (auto simp: te_write_new.simps [of A mem s inp])
  obtain o1 s1 where i: "blk_instantiate A mem s = (o1, s1)" by fastforce
  show ?case
  proof (cases o1)
    case None
    then have "op_allocate A s MemPoolBlockSize = (None, s1)" "s' = s1"
      using i less.prems(2) ne
      by (auto simp: te_write_new.simps [of A mem s inp] blk_instantiate_def block_Size_def
          MemPoolBlockSize_def sizeof_ptr_def split: prod.splits option.splits)
    then show ?thesis using exhausted [OF less.prems(1) order_refl] allocate_none less.prems(1) by metis
  next
    case (Some p)
    obtain ds inp1 t1 where w: "blk_write (snd p) inp off tot = (ds, inp1, t1)"
      by (metis prod_cases3)
    obtain qs1 where r: "te_write_new A mem s1 inp1 off t1 = (s', qs1, left)"
      using less.prems(2) ne i Some w
      by (auto simp: te_write_new.simps [of A mem s inp] split: prod.splits)
    have "snd p \<noteq> []" using i Some blk_instantiate_ne [of A mem s p s1] by simp
    then have lt: "length inp1 + (off - t1) < length inp + (off - tot)"
      using blk_write_progress ne w by blast
    have "inv s1" using blk_instantiate_spec(1) [of s mem p s1] less.prems(1) i Some by simp
    then show ?thesis using less.hyps [OF lt _ r less.prems(3)] by blast
  qed
qed

lemma te_write_short:
  assumes "inv s" and "te_wf e" and "te_owned e \<subseteq> live s"
    and "off + length d \<le> unat (te_max_size e)" and "te_write A mem (s, e) off (Some d) = (Inr n, s', e')"
    and "n < length d"
  shows "capacity \<le> card (live s') \<and> length (bytes_of (te_blocks e')) < off + length d"
proof -
  have sz: "off < unat (te_max_size e)" "off + length d < 2 ^ 32" "off + length d < 65536"
    using assms(4,6) unat_u16_lt [of "te_max_size e"] by auto
  obtain js where js: "bytes_of (te_blocks e') = put_bytes (bytes_of (te_blocks e) @ js) d off"
    "n = length d - length (drop (length (bytes_of (te_blocks e) @ js) - off) d)"
    using te_write_full [OF assms(1-3) sz(1,2) assms(5)] assms(4) by auto
  obtain ps inp t where x: "te_write_existing (te_blocks e) d off 0 = (ps, inp, t)" by (metis prod_cases3)
  obtain qs left s1 where y: "te_write_new A mem s inp off t = (s1, qs, left)" by (metis prod_cases3)
  have "n = length d - length left" "s' = s1"
    using assms(4,5) sz x y by (auto simp: te_write_def Let_def)
  then have "capacity \<le> card (live s')"
    using te_write_new_short [OF assms(1) y] assms(6) by (cases "left = []") simp_all
  moreover have "length (bytes_of (te_blocks e')) < off + length d"
    using js assms(6) by (auto simp: put_bytes_def)
  ultimately show ?thesis by blast
qed

lemma te_owned_card: "te_wf e \<Longrightarrow> card (te_owned e) = Suc (length (te_blocks e))"
  using distinct_card [of "map fst (te_blocks e)"] by (auto simp: te_wf_def te_owned_def blocks_ok_def)

lemma bytes_of_length: "blocks_ok ps \<Longrightarrow> length (bytes_of ps) = length ps * block_Size"
  by (induction ps) (auto simp: bytes_of_def blocks_ok_def)

text \<open>
  A write within the maximum size is complete, if the blocks outside this buffer leave room for
  the blocks that its bytes need.
\<close>

lemma bm_write_complete:
  assumes "bm_ok s m" and "bm_lookup m key = Some c" and "off \<le> length c"
    and "off + length d \<le> unat (bm_max_buf_size m)"
    and "card (bm_foreign (live s) m key) + 1 + blocks_for (off + length d) \<le> capacity"
    and "bm_write A mem key off d (s, m) = (Inr n, s', m')"
  shows "n = length d"
proof (rule ccontr)
  assume "n \<noteq> length d"
  have d32: "off + length d < 2 ^ 32" using assms(4) unat_u16_lt [of "bm_max_buf_size m"] by simp
  note sp = bm_write_spec [OF assms(1-3) d32 assms(6)]
  then have nlt: "n < length d" using \<open>n \<noteq> length d\<close> by auto
  have wf: "bm_wf m" "bm_owned m \<subseteq> live s" "inv s" using assms(1) by (auto simp: bm_ok_def)
  obtain e where e: "bm_findFirst key m = Some e" using assms(2) by (auto simp: bm_lookup_def)
  obtain us vs where uv: "bm_buffers m = us @ e # vs" "te_key e = key" "\<forall>u \<in> set us. te_key u \<noteq> key"
    by (rule bm_find_split [OF wf(1) e])
  obtain e' where w: "te_write A mem (s, e) off (Some d) = (Inr n, s', e')"
    and m': "m' = m\<lparr>bm_buffers := us @ e' # vs\<rparr>"
    using assms(6) e uv by (auto simp: bm_write_def update_first_at split: prod.splits)
  have pre: "te_wf e" "te_owned e \<subseteq> live s" "te_max_size e = bm_max_buf_size m"
    using wf uv(1) by (auto simp: bm_wf_def bm_owned_def)
  have k: "te_key e' = key" using te_write_key [OF w] uv(2) by simp
  have "List.find (\<lambda>x. te_key x = key) us = None" using uv(3) by (simp add: find_None_all)
  then have fnd: "bm_findFirst key m' = Some e'" using k by (simp add: m' bm_findFirst_def find_append)
  have full: "capacity \<le> card (live s')" "length (bytes_of (te_blocks e')) < off + length d"
    using te_write_short [OF wf(3) pre(1,2) _ w nlt] assms(4) pre(3) by auto
  have ok': "bm_ok s' m'" "live s' - bm_owned m' = live s - bm_owned m" using sp by auto
  then have wf': "bm_wf m'" "bm_owned m' \<subseteq> live s'" "inv s'" by (auto simp: bm_ok_def)
  have e'wf: "te_wf e'" using wf'(1) by (simp add: bm_wf_def m')
  then have "length (te_blocks e') < blocks_for (off + length d)"
    using full(2) bytes_of_length blocks_for_less by (metis te_wf_def)
  moreover have "bm_foreign (live s') m' key = bm_foreign (live s) m key"
    using bm_foreign_eq [OF wf'(1,2)] bm_foreign_eq [OF wf(1,2)] bm_write_others [OF assms(6)] ok'(2)
    by simp
  moreover have "live s' = bm_foreign (live s') m' key \<union> te_owned e'"
    using fnd wf'(2) by (auto simp: bm_foreign_def bm_owned_def m')
  then have "card (live s') \<le> card (bm_foreign (live s') m' key) + card (te_owned e')"
    by (metis card_Un_le)
  ultimately show False using full(1) assms(5) te_owned_card [OF e'wf] by simp
qed

lemma bm_create_complete:
  assumes "bm_ok s m" and "\<not> buffer_key_isEmpty key" and "bm_lookup m key = None"
    and "card (bm_foreign (live s) m key) < capacity" and "bm_create A key (s, m) = (ok, s', m')"
  shows ok
proof (rule ccontr)
  assume "\<not> ok"
  have "bm_findFirst key m = None" using assms(3) by (simp add: bm_lookup_def)
  then have "op_allocate A s sizeof_entry = (None, s')" "bm_foreign (live s) m key = live s"
    using assms(2,5) \<open>\<not> ok\<close>
    by (auto simp: bm_create_def bm_remove_def te_instantiate_def bm_foreign_def split: prod.splits option.splits)
  then show False
    using exhausted [of s sizeof_entry s'] assms(1,4)
    by (simp add: bm_ok_def sizeof_entry_def MemPoolBlockSize_def)
qed

end

text \<open>The memory pool of a node: blocks of \<^const>\<open>MemPoolBlockSize\<close> bytes, \<open>n\<close> of them.\<close>

definition node_pool_inv :: "nat \<Rightarrow> pool \<Rightarrow> bool" where
  "node_pool_inv n p \<longleftrightarrow> pool_inv p \<and> pool_num_blocks p = n \<and> pool_block_size p = MemPoolBlockSize"

lemma pool_const [simp]:
  "pool_num_blocks (snd (pool_allocate p sz)) = pool_num_blocks p"
  "pool_block_size (snd (pool_allocate p sz)) = pool_block_size p"
  "pool_num_blocks (pool_deallocate p a) = pool_num_blocks p"
  "pool_block_size (pool_deallocate p a) = pool_block_size p"
  by (auto simp: pool_allocate_def pool_deallocate_def Let_def split: option.splits)

interpretation node_pool: bounded_allocator pool_ops "node_pool_inv n" pool_live n for n
proof
  fix s sz a s' assume i: "node_pool_inv n s" and r: "op_allocate pool_ops s sz = (Some a, s')"
  then show "node_pool_inv n s' \<and> a \<notin> pool_live s \<and> pool_live s' = insert a (pool_live s)"
    using pool.allocate_some [OF _ r] pool_const(1,2) [of s sz] by (auto simp: node_pool_inv_def)
next
  fix s sz s' assume i: "node_pool_inv n s" and r: "op_allocate pool_ops s sz = (None, s')"
  then show "node_pool_inv n s' \<and> pool_live s' = pool_live s"
    using pool.allocate_none [OF _ r] pool_const(1,2) [of s sz] by (auto simp: node_pool_inv_def)
next
  fix s s' assume i: "node_pool_inv n s" and r: "op_deallocate pool_ops s None = s'"
  then show "node_pool_inv n s' \<and> pool_live s' = pool_live s"
    using pool.deallocate_null [OF _ r] by (auto simp: node_pool_inv_def)
next
  fix s a s' assume i: "node_pool_inv n s" and r: "a \<in> pool_live s" "op_deallocate pool_ops s (Some a) = s'"
  have "pool_inv s" using i by (simp add: node_pool_inv_def)
  then have "pool_inv s' \<and> pool_live s' = pool_live s - {a}" by (rule pool.deallocate_some [OF _ r])
  moreover have "pool_num_blocks s' = pool_num_blocks s" "pool_block_size s' = pool_block_size s"
    using r(2) by auto
  ultimately show "node_pool_inv n s' \<and> pool_live s' = pool_live s - {a}"
    using i by (simp add: node_pool_inv_def)
next
  fix s sz s' assume i: "node_pool_inv n s" and "sz \<le> MemPoolBlockSize" and r: "op_allocate pool_ops s sz = (None, s')"
  obtain fs where fs: "pool_abs s fs" using i by (auto simp: node_pool_inv_def pool_inv_def)
  then have "fs = []"
    using pool_allocate_abs(2) [OF fs, of sz s'] r i \<open>sz \<le> MemPoolBlockSize\<close> by (auto simp: node_pool_inv_def)
  then show "n \<le> card (pool_live s)" using pool_live_abs [OF fs] i by (simp add: node_pool_inv_def)
next
  fix s assume "node_pool_inv n s"
  then show "finite (pool_live s)" by (simp add: pool_live_def)
qed

lemma bm_destroy_all_live:
  assumes "pool_inv p" and "\<forall>e \<in> set es. te_wf e"
    and "sorted_wrt (\<lambda>a b. te_owned a \<inter> te_owned b = {}) es" and "(\<Union>e \<in> set es. te_owned e) \<subseteq> pool_live p"
  shows "pool_inv (bm_destroy_all pool_ops p es) \<and>
    pool_live (bm_destroy_all pool_ops p es) = pool_live p - (\<Union>e \<in> set es. te_owned e)"
  using assms
proof (induction es arbitrary: p)
  case (Cons e es)
  let ?p = "te_destroy pool_ops (p, e)"
  have d: "pool_inv ?p" "pool_live ?p = pool_live p - te_owned e"
    using pool.te_destroy_spec [of p e] Cons.prems by auto
  have "(\<Union>e \<in> set es. te_owned e) \<subseteq> pool_live ?p"
    using Cons.prems(3,4) d(2) by auto
  then show ?case using Cons.IH [OF d(1)] Cons.prems d by auto
qed simp

text \<open>Histories of a manager that has a pool of its own; writes are sequential, as those of the receivers.\<close>

inductive bm_reachable :: "(addr \<Rightarrow> nat \<Rightarrow> u8) \<Rightarrow> pool \<times> buffer_manager \<Rightarrow> bool" for mem where
  bm_init: "0 < n div b \<Longrightarrow> n div b \<le> 0xFFFF \<Longrightarrow> bm_reachable mem (PoolAllocator n b, \<lparr>bm_buffers = [], bm_max_buf_size = mx\<rparr>)"
| bm_do_create: "bm_reachable mem pm \<Longrightarrow> bm_create pool_ops key pm = (ok, pm') \<Longrightarrow> bm_reachable mem pm'"
| bm_do_remove: "bm_reachable mem pm \<Longrightarrow> bm_remove pool_ops key pm = pm' \<Longrightarrow> bm_reachable mem pm'"
| bm_do_write: "bm_reachable mem pm \<Longrightarrow> bm_lookup (snd pm) key = Some c \<Longrightarrow> off \<le> length c \<Longrightarrow>
    off + length d < 2 ^ 32 \<Longrightarrow> bm_write pool_ops mem key off d pm = (r, pm') \<Longrightarrow> bm_reachable mem pm'"

lemma bm_reachable_ok:
  assumes "bm_reachable mem pm"
  shows "pool.bm_ok (fst pm) (snd pm) \<and> pool_live (fst pm) = bm_owned (snd pm)"
  using assms
proof induction
  case (bm_init n b mx)
  have "pool_inv (PoolAllocator n b)" "pool_live (PoolAllocator n b) = {}"
    using PoolAllocator_fresh bm_init by auto
  then show ?case by (simp add: pool.bm_ok_def bm_wf_def bm_owned_def)
next
  case (bm_do_create pm key ok pm')
  obtain s m s' m' where st: "pm = (s, m)" "pm' = (s', m')" by fastforce
  show ?case
  proof (cases "buffer_key_isEmpty key")
    case True
    then show ?thesis using bm_do_create by (simp add: bm_create_def)
  next
    case False
    then show ?thesis
      using pool.bm_create_spec [of s m key ok s' m'] bm_do_create st by (auto simp: pool.bm_ok_def)
  qed
next
  case (bm_do_remove pm key pm')
  obtain s m s' m' where st: "pm = (s, m)" "pm' = (s', m')" by fastforce
  then show ?case
    using pool.bm_remove_spec [of s m key s' m'] bm_do_remove by (auto simp: pool.bm_ok_def)
next
  case (bm_do_write pm key c off d r pm')
  obtain s m s' m' where st: "pm = (s, m)" "pm' = (s', m')" by fastforce
  then show ?case
    using pool.bm_write_spec [of s m key c off d mem r s' m'] bm_do_write by (auto simp: pool.bm_ok_def)
qed

section \<open>Properties\<close>

text \<open>
  C6.  \<^verbatim>\<open>TransferBufferManager\<close> over the memory pool implements a map from keys to byte strings:
  \<^verbatim>\<open>create\<close> gives the key an empty string (or, without memory, takes the key away), a write at or
  before the end of a key's bytes replaces them from the offset on by the bytes that were accepted,
  the string never grows over the maximum size, and no other key or other user of the pool is touched.
\<close>

theorem buffer_manager_refines:
  assumes "pool_inv p" and "bm_wf m" and "bm_owned m \<subseteq> pool_live p" and "\<not> buffer_key_isEmpty key"
    and "bm_create pool_ops key (p, m) = (ok, p1, m1)"
    and "bm_remove pool_ops key (p, m) = (p2, m2)"
    and "bm_lookup m key' = Some c" and "off \<le> length c" and "off + length d < 2 ^ 32"
    and "bm_write pool_ops mem key' off d (p, m) = (r, p3, m3)"
  shows "bm_lookup m1 = (bm_lookup m)(key := if ok then Some [] else None) \<and>
    bm_lookup m2 = (bm_lookup m)(key := None) \<and>
    (\<exists>n. r = Inr n \<and> n \<le> min (length d) (unat (bm_max_buf_size m) - off) \<and>
      bm_lookup m3 = (bm_lookup m)(key' \<mapsto> take off c @ take n d @ drop (off + n) c)) \<and>
    (\<forall>(q, mq) \<in> {(p1, m1), (p2, m2), (p3, m3)}. pool_inv q \<and> bm_wf mq \<and> bm_owned mq \<subseteq> pool_live q \<and>
      pool_live q - bm_owned mq = pool_live p - bm_owned m)"
proof -
  have ok: "pool.bm_ok p m" using assms by (simp add: pool.bm_ok_def)
  show ?thesis
    using pool.bm_create_spec [OF ok assms(4,5)] pool.bm_remove_spec [OF ok assms(6)]
      pool.bm_write_spec [OF ok assms(7-10)] by (auto simp: pool.bm_ok_def)
qed

definition example_key :: buffer_key where
  "example_key = \<lparr>tbk_node_id = 42, tbk_transfer_type = TransferTypeMessageBroadcast\<rparr>"

theorem buffer_manager_refines_witness:
  "let s = (PoolAllocator 128 64, \<lparr>bm_buffers = [], bm_max_buf_size = 100\<rparr>);
       (ok, s1) = bm_create pool_ops example_key s;
       (r, s2) = bm_write pool_ops (\<lambda>_ _. 0) example_key 0 [1, 2, 3] s1
   in \<exists>n. r = Inr n \<and> bm_lookup (snd s2) = [example_key \<mapsto> take n [1, 2, 3]]"
proof -
  let ?s = "(PoolAllocator 128 64, \<lparr>bm_buffers = [], bm_max_buf_size = 100\<rparr>)"
  obtain ok p m where c: "bm_create pool_ops example_key ?s = (ok, p, m)" by (metis prod_cases3)
  obtain ok1 p1 m1 where c1: "bm_create pool_ops example_key (p, m) = (ok1, p1, m1)" by (metis prod_cases3)
  obtain p2 m2 where c2: "bm_remove pool_ops example_key (p, m) = (p2, m2)" by fastforce
  obtain r p3 m3 where c3: "bm_write pool_ops (\<lambda>_ _. 0) example_key 0 [1, 2, 3] (p, m) = (r, p3, m3)"
    by (metis prod_cases3)
  have "bm_reachable (\<lambda>_ _. 0) (p, m)" by (rule bm_do_create [OF bm_init c]) simp_all
  then have st: "pool_inv p" "bm_wf m" "bm_owned m \<subseteq> pool_live p"
    using bm_reachable_ok by (auto simp: pool.bm_ok_def)
  have "bm_lookup m = [example_key \<mapsto> []]"
    using c by (auto simp: bm_create_def bm_remove_def bm_findFirst_def example_key_def node_id_isValid_def node_id_Max_def
        buffer_key_isEmpty_def te_instantiate_def te_reset_def bm_lookup_def te_contents_def
        pool_allocate_def PoolAllocator_def sizeof_entry_def fun_eq_iff)
  then show ?thesis
    using buffer_manager_refines [OF st _ c1 c2 _ _ _ c3, of "[]"] c c3
    by (auto simp: example_key_def node_id_isValid_def node_id_Max_def buffer_key_isEmpty_def)
qed

text \<open>
  C17.  In every history of a manager with a pool of its own, the blocks in use are exactly those
  of its buffers and their data blocks, keys are unique, and the destructor gives all of them back.
\<close>

theorem buffer_manager_no_leak:
  assumes "bm_reachable mem (p, m)"
  shows "bm_wf m \<and> pool_live p = bm_owned m \<and> pool_live (bm_destroy_all pool_ops p (bm_buffers m)) = {}"
  using bm_reachable_ok [OF assms] bm_destroy_all_live [of p "bm_buffers m"]
  by (auto simp: pool.bm_ok_def bm_wf_def bm_owned_def)

theorem buffer_manager_no_leak_witness:
  "let (ok, p, m) = bm_create pool_ops example_key
       (PoolAllocator 128 64, \<lparr>bm_buffers = [], bm_max_buf_size = 100\<rparr>)
   in ok \<and> pool_live p \<noteq> {} \<and> pool_live p = bm_owned m"
proof -
  let ?s = "(PoolAllocator 128 64, \<lparr>bm_buffers = [], bm_max_buf_size = 100\<rparr>)"
  obtain ok p m where c: "bm_create pool_ops example_key ?s = (ok, p, m)" by (metis prod_cases3)
  have "bm_reachable (\<lambda>_ _. 0) (p, m)"
    by (rule bm_do_create [OF bm_init c]) simp_all
  note inv = buffer_manager_no_leak [OF this]
  have "ok \<and> bm_buffers m \<noteq> []"
    using c by (auto simp: bm_create_def bm_remove_def bm_findFirst_def example_key_def node_id_isValid_def node_id_Max_def
        buffer_key_isEmpty_def te_instantiate_def te_reset_def
        pool_allocate_def PoolAllocator_def sizeof_entry_def)
  then show ?thesis using inv c by (auto simp: bm_owned_def te_owned_def neq_Nil_conv)
qed

end
