(* ===== verification/TransferReceivers.thy ===== *)
theory TransferReceivers
  imports Frames TransferBuffers
begin

text \<open>
  \<^verbatim>\<open>TransferReceiver\<close> (include/uavcan/transport/transfer_receiver.hpp, src/transport/uc_transfer_receiver.cpp):
  the state machine that reassembles the frames of one source and transfer type, over the buffer
  that \<^verbatim>\<open>TransferBufferAccessor\<close> reaches for its key.  The fields of the class keep their widths: the
  timestamps are 64-bit words, the bit fields are bytes whose ranges are an invariant.
\<close>

unbundle bit_operations_syntax

section \<open>State\<close>

datatype result_code = ResultNotComplete | ResultComplete | ResultSingleFrame

definition MaxCanIfaces :: nat where
  "MaxCanIfaces = 3"

definition MinTransferIntervalMSec :: u16 where
  "MinTransferIntervalMSec = 1"

definition MaxTransferIntervalMSec :: u16 where
  "MaxTransferIntervalMSec = 0xFFFF"

definition DefaultTransferIntervalMSec :: u16 where
  "DefaultTransferIntervalMSec = 1000"

definition DefaultTidTimeoutMSec :: u16 where
  "DefaultTidTimeoutMSec = 1000"

definition IfaceIndexNotSet :: u8 where
  "IfaceIndexNotSet = of_nat MaxCanIfaces"

record receiver =
  tr_prev_transfer_ts :: time
  tr_this_transfer_ts :: time
  tr_first_frame_ts :: time
  tr_transfer_interval_msec :: u16
  tr_this_transfer_crc :: u16
  tr_buffer_write_pos :: u16
  tr_tid :: transfer_id
  tr_next_toggle :: bool
  tr_iface_index :: u8
  tr_error_cnt :: u8

definition TransferReceiver :: receiver where
  "TransferReceiver = \<lparr>tr_prev_transfer_ts = 0, tr_this_transfer_ts = 0, tr_first_frame_ts = 0,
     tr_transfer_interval_msec = DefaultTransferIntervalMSec, tr_this_transfer_crc = 0,
     tr_buffer_write_pos = 0, tr_tid = 0, tr_next_toggle = False,
     tr_iface_index = IfaceIndexNotSet, tr_error_cnt = 0\<rparr>"

definition tr_isInitialized :: "receiver \<Rightarrow> bool" where
  "tr_isInitialized r \<longleftrightarrow> tr_iface_index r \<noteq> IfaceIndexNotSet"

definition tr_isMidTransfer :: "receiver \<Rightarrow> bool" where
  "tr_isMidTransfer r \<longleftrightarrow> tr_buffer_write_pos r > 0"

definition tr_getIfaceSwitchDelay :: "receiver \<Rightarrow> duration" where
  "tr_getIfaceSwitchDelay r = dur_fromMSec (uint (tr_transfer_interval_msec r))"

definition tr_getTidTimeout :: "receiver \<Rightarrow> duration" where
  "tr_getTidTimeout r = dur_fromMSec (uint DefaultTidTimeoutMSec)"

definition tr_registerError :: "receiver \<Rightarrow> receiver" where
  "tr_registerError r = r\<lparr>tr_error_cnt := (tr_error_cnt r + 1) AND 31\<rparr>"

section \<open>Operations\<close>

text \<open>The arithmetic on intervals is in \<^verbatim>\<open>uint64_t\<close>.\<close>

definition tr_updateTransferTimings :: "receiver \<Rightarrow> receiver" where
  "tr_updateTransferTimings r =
    (let prev_prev_ts = tr_prev_transfer_ts r;
         r = r\<lparr>tr_prev_transfer_ts := tr_this_transfer_ts r\<rparr>
     in if prev_prev_ts \<noteq> 0 \<and> tr_prev_transfer_ts r \<noteq> 0 \<and> tr_prev_transfer_ts r \<ge> prev_prev_ts
        then
          (let i0 = word_of_int (dur_toMSec (time_diff (tr_prev_transfer_ts r) prev_prev_ts)) :: u64;
               i1 = min i0 (ucast MaxTransferIntervalMSec);
               i2 = max i1 (ucast MinTransferIntervalMSec)
           in r\<lparr>tr_transfer_interval_msec :=
                 ucast ((ucast (tr_transfer_interval_msec r) * 7 + i2) div 8)\<rparr>)
        else r)"

definition tr_prepareForNextTransfer :: "receiver \<Rightarrow> receiver" where
  "tr_prepareForNextTransfer r =
    r\<lparr>tr_tid := tid_increment (tr_tid r), tr_next_toggle := False, tr_buffer_write_pos := 0\<rparr>"

text \<open>\<^verbatim>\<open>validate\<close> is \<^verbatim>\<open>const\<close> but counts errors in a \<^verbatim>\<open>mutable\<close> field.\<close>

definition tr_validate :: "rx_frame \<Rightarrow> receiver \<Rightarrow> bool \<times> receiver" where
  "tr_validate rx r =
    (let frame = rxf_frame rx
     in if tr_iface_index r \<noteq> rxf_iface_index rx then (False, r)
        else if fr_start_of_transfer frame \<and> \<not> fr_end_of_transfer frame \<and>
                length (fr_payload frame) < crc_NumBytes then (False, tr_registerError r)
        else if fr_start_of_transfer frame \<and> fr_toggle frame then (False, tr_registerError r)
        else
          (let r = (if fr_start_of_transfer frame \<and> tr_isMidTransfer r then tr_registerError r else r)
           in if fr_toggle frame \<noteq> tr_next_toggle r then (False, tr_registerError r)
              else if fr_transfer_id frame \<noteq> tr_tid r then (False, tr_registerError r)
              else (True, r)))"

text \<open>
  The accessor \<^verbatim>\<open>tba\<close> is the key with the manager; \<^verbatim>\<open>buf\<close> is the buffer it reaches, so that a write
  through \<^verbatim>\<open>buf\<close> is \<^const>\<open>bm_write\<close> at the key.
\<close>

definition tr_writePayload ::
  "'s allocator_ops \<Rightarrow> (addr \<Rightarrow> nat \<Rightarrow> u8) \<Rightarrow> buffer_key \<Rightarrow> rx_frame \<Rightarrow>
    receiver \<times> 's \<times> buffer_manager \<Rightarrow> bool \<times> receiver \<times> 's \<times> buffer_manager" where
  "tr_writePayload A mem key rx rsm =
    (let (r, sm) = rsm;
         frame = rxf_frame rx;
         payload = fr_payload frame
     in if fr_start_of_transfer frame then
          (if length payload < crc_NumBytes then (False, r, sm)
           else
             (let r = r\<lparr>tr_this_transfer_crc := ucast (payload ! 0 AND 0xFF)\<rparr>;
                  r = r\<lparr>tr_this_transfer_crc := tr_this_transfer_crc r OR
                                                push_bit 8 (ucast (payload ! 1 AND 0xFF))\<rparr>;
                  effective_payload = drop crc_NumBytes payload;
                  (res, sm) = bm_write A mem key (unat (tr_buffer_write_pos r)) effective_payload sm;
                  success = (ret_int res = int (length effective_payload))
              in (success,
                  if success
                  then r\<lparr>tr_buffer_write_pos := tr_buffer_write_pos r + of_nat (length effective_payload)\<rparr>
                  else r,
                  sm)))
        else
          (let (res, sm) = bm_write A mem key (unat (tr_buffer_write_pos r)) payload sm;
               success = (ret_int res = int (length payload))
           in (success,
               if success then r\<lparr>tr_buffer_write_pos := tr_buffer_write_pos r + of_nat (length payload)\<rparr> else r,
               sm)))"

definition tr_receive ::
  "'s allocator_ops \<Rightarrow> (addr \<Rightarrow> nat \<Rightarrow> u8) \<Rightarrow> buffer_key \<Rightarrow> rx_frame \<Rightarrow>
    receiver \<times> 's \<times> buffer_manager \<Rightarrow> result_code \<times> receiver \<times> 's \<times> buffer_manager" where
  "tr_receive A mem key rx rsm =
    (let (r, sm) = rsm;
         frame = rxf_frame rx;
         r = (if fr_start_of_transfer frame
              then r\<lparr>tr_this_transfer_ts := rxf_ts_mono rx, tr_first_frame_ts := rxf_ts_utc rx\<rparr> else r)
     in if fr_start_of_transfer frame \<and> fr_end_of_transfer frame then
          (let sm = bm_remove A key sm;
               r = tr_prepareForNextTransfer (tr_updateTransferTimings r)
           in (ResultSingleFrame, r\<lparr>tr_this_transfer_crc := 0\<rparr>, sm))
        else
          (let (buf, sm) = (case bm_access key (snd sm) of
                              Some _ \<Rightarrow> (True, sm)
                            | None \<Rightarrow> bm_create A key sm)
           in if \<not> buf then (ResultNotComplete, tr_registerError (tr_prepareForNextTransfer r), sm)
              else
                (let (success, r, sm) = tr_writePayload A mem key rx (r, sm)
                 in if \<not> success then
                      (ResultNotComplete, tr_registerError (tr_prepareForNextTransfer r), bm_remove A key sm)
                    else
                      (let r = r\<lparr>tr_next_toggle := \<not> tr_next_toggle r\<rparr>
                       in if fr_end_of_transfer frame
                          then (ResultComplete, tr_prepareForNextTransfer (tr_updateTransferTimings r), sm)
                          else (ResultNotComplete, r, sm)))))"

definition tr_isTimedOut :: "time \<Rightarrow> receiver \<Rightarrow> bool" where
  "tr_isTimedOut current_ts r \<longleftrightarrow> time_diff current_ts (tr_this_transfer_ts r) > tr_getTidTimeout r"

definition tr_need_restart :: "rx_frame \<Rightarrow> receiver \<Rightarrow> bool" where
  "tr_need_restart rx r =
    (let frame = rxf_frame rx;
         not_initialized = \<not> tr_isInitialized r;
         tid_timed_out = tr_isTimedOut (rxf_ts_mono rx) r;
         same_iface = (rxf_iface_index rx = tr_iface_index r);
         first_frame = fr_start_of_transfer frame;
         non_wrapped_tid = (tid_computeForwardDistance (tr_tid r) (fr_transfer_id frame) < int (unat tid_Half));
         not_previous_tid = (tid_computeForwardDistance (fr_transfer_id frame) (tr_tid r) > 1);
         iface_switch_allowed =
           (time_diff (rxf_ts_mono rx) (tr_this_transfer_ts r) > tr_getIfaceSwitchDelay r)
     in not_initialized \<or> tid_timed_out \<or> same_iface \<and> first_frame \<and> not_previous_tid \<or>
        iface_switch_allowed \<and> first_frame \<and> non_wrapped_tid)"

definition tr_restart :: "rx_frame \<Rightarrow> receiver \<Rightarrow> receiver" where
  "tr_restart rx r =
    (let r = (if tr_isInitialized r \<and> tr_tid r \<noteq> fr_transfer_id (rxf_frame rx)
              then tr_registerError r else r)
     in r\<lparr>tr_iface_index := rxf_iface_index rx AND IfaceIndexNotSet,
          tr_tid := fr_transfer_id (rxf_frame rx), tr_next_toggle := False,
          tr_buffer_write_pos := 0, tr_this_transfer_crc := 0\<rparr>)"

definition tr_addFrame ::
  "'s allocator_ops \<Rightarrow> (addr \<Rightarrow> nat \<Rightarrow> u8) \<Rightarrow> buffer_key \<Rightarrow> rx_frame \<Rightarrow>
    receiver \<times> 's \<times> buffer_manager \<Rightarrow> result_code \<times> receiver \<times> 's \<times> buffer_manager" where
  "tr_addFrame A mem key rx rsm =
    (let (r, sm) = rsm
     in if rxf_ts_mono rx = 0 \<or> rxf_ts_mono rx < tr_prev_transfer_ts r \<or>
           rxf_ts_mono rx < tr_this_transfer_ts r
        then (ResultNotComplete, r, sm)
        else
          (let restart = tr_need_restart rx r;
               sm = (if restart then bm_remove A key sm else sm);
               r = (if restart then tr_restart rx r else r)
           in if restart \<and> \<not> fr_start_of_transfer (rxf_frame rx)
              then (ResultNotComplete, r\<lparr>tr_tid := tid_increment (tr_tid r)\<rparr>, sm)
              else
                (let (ok, r) = tr_validate rx r
                 in if ok then tr_receive A mem key rx (r, sm) else (ResultNotComplete, r, sm))))"

definition tr_yieldErrorCount :: "receiver \<Rightarrow> u8 \<times> receiver" where
  "tr_yieldErrorCount r = (tr_error_cnt r, r\<lparr>tr_error_cnt := 0\<rparr>)"

definition tr_getLastTransferTimestampMonotonic :: "receiver \<Rightarrow> time" where
  "tr_getLastTransferTimestampMonotonic r = tr_prev_transfer_ts r"

definition tr_getInterval :: "receiver \<Rightarrow> duration" where
  "tr_getInterval r = dur_fromMSec (uint (tr_transfer_interval_msec r))"

section \<open>Ranges of the fields\<close>

definition tr_wf :: "receiver \<Rightarrow> bool" where
  "tr_wf r \<longleftrightarrow> unat (tr_tid r) < 32 \<and> unat (tr_iface_index r) < 4 \<and> unat (tr_error_cnt r) < 32 \<and>
     0 < unat (tr_transfer_interval_msec r)"

lemma tr_registerError_wf: "tr_wf r \<Longrightarrow> tr_wf (tr_registerError r)"
  using unat_and_mask [of "tr_error_cnt r + 1" 5]
  by (simp add: tr_wf_def tr_registerError_def mask_eq_exp_minus_1)

lemma tid_increment_range: "unat (tid_increment t) < 32"
  using unat_and_mask [of "t + 1" 5]
  by (simp add: tid_increment_def tid_Max_def tid_BitLen_def mask_eq_exp_minus_1)

lemma tr_prepare_wf: "tr_wf r \<Longrightarrow> tr_wf (tr_prepareForNextTransfer r)"
  by (simp add: tr_wf_def tr_prepareForNextTransfer_def tid_increment_range)

text \<open>The interval is the moving average of the clamped one: it needs no more than its 16 bits.\<close>

lemma interval_average:
  fixes x :: u16 and i :: u64
  assumes "0 < unat x" and "1 \<le> unat i" and "unat i \<le> 0xFFFF"
  shows "unat (ucast ((ucast x * 7 + i) div 8) :: u16) = (unat x * 7 + unat i) div 8"
    and "0 < (unat x * 7 + unat i) div 8"
proof -
  have x: "unat x < 2 ^ 16" using unat_u16_lt [of x] by simp
  have u: "unat (ucast x :: u64) = unat x" using x by (simp add: unsigned_ucast_eq take_bit_nat_eq_self)
  have "unat (ucast x * 7 + i :: u64) = unat x * 7 + unat i"
    using x assms by (simp add: unat_word_ariths u)
  then have "unat ((ucast x * 7 + i :: u64) div 8) = (unat x * 7 + unat i) div 8"
    by (simp add: unat_div)
  moreover have "(unat x * 7 + unat i) div 8 < 2 ^ 16" using x assms by simp
  ultimately show "unat (ucast ((ucast x * 7 + i) div 8) :: u16) = (unat x * 7 + unat i) div 8"
    by (simp add: unsigned_ucast_eq take_bit_nat_eq_self)
  show "0 < (unat x * 7 + unat i) div 8" using assms by simp
qed

lemma interval_clamped:
  fixes i :: u64
  defines "j \<equiv> max (min i (ucast MaxTransferIntervalMSec)) (ucast MinTransferIntervalMSec)"
  shows "1 \<le> unat j" and "unat j \<le> 0xFFFF"
  by (auto simp: j_def MaxTransferIntervalMSec_def MinTransferIntervalMSec_def max_def min_def
      word_le_nat_alt split: if_splits)

lemma tr_timings_wf: "tr_wf r \<Longrightarrow> tr_wf (tr_updateTransferTimings r)"
  using interval_average interval_clamped
  by (simp add: tr_wf_def tr_updateTransferTimings_def Let_def)

lemma tr_timings_fields [simp]:
  "tr_this_transfer_ts (tr_updateTransferTimings r) = tr_this_transfer_ts r"
  "tr_this_transfer_crc (tr_updateTransferTimings r) = tr_this_transfer_crc r"
  "tr_tid (tr_updateTransferTimings r) = tr_tid r"
  "tr_iface_index (tr_updateTransferTimings r) = tr_iface_index r"
  "tr_error_cnt (tr_updateTransferTimings r) = tr_error_cnt r"
  "tr_prev_transfer_ts (tr_updateTransferTimings r) = tr_this_transfer_ts r"
  by (simp_all add: tr_updateTransferTimings_def Let_def)

lemma tr_validate_cases:
  assumes "tr_validate rx r = (ok, r')"
  shows "r' = r \<or> r' = tr_registerError r \<or> r' = tr_registerError (tr_registerError r)"
  using assms by (auto simp: tr_validate_def Let_def split: if_splits)

lemma tr_validate_wf: "tr_wf r \<Longrightarrow> tr_wf (snd (tr_validate rx r))"
  using tr_validate_cases [of rx r] tr_registerError_wf by (metis prod.collapse)

lemma tr_writePayload_wf: "tr_wf r \<Longrightarrow> tr_wf (fst (snd (tr_writePayload A mem key rx (r, sm))))"
  by (auto simp: tr_wf_def tr_writePayload_def Let_def split: prod.splits)

lemma tr_receive_wf: "tr_wf r \<Longrightarrow> tr_wf (fst (snd (tr_receive A mem key rx (r, sm))))"
proof -
  assume wf: "tr_wf r"
  define r1 where "r1 = (if fr_start_of_transfer (rxf_frame rx)
    then r\<lparr>tr_this_transfer_ts := rxf_ts_mono rx, tr_first_frame_ts := rxf_ts_utc rx\<rparr> else r)"
  have w1: "tr_wf r1" using wf by (simp add: r1_def tr_wf_def)
  have upd: "tr_wf x \<Longrightarrow> tr_wf (x\<lparr>tr_next_toggle := b\<rparr>)" "tr_wf x \<Longrightarrow> tr_wf (x\<lparr>tr_this_transfer_crc := c\<rparr>)"
    for x b c by (simp_all add: tr_wf_def)
  obtain b sm1 where b: "(case bm_access key (snd sm) of Some _ \<Rightarrow> (True, sm) | None \<Rightarrow> bm_create A key sm)
      = (b, sm1)" by (metis surj_pair)
  obtain ok r2 sm2 where w: "tr_writePayload A mem key rx (r1, sm1) = (ok, r2, sm2)" by (metis prod_cases3)
  have w2: "tr_wf r2" using tr_writePayload_wf [OF w1, of A mem key rx sm1] w by simp
  show ?thesis
    using b w w1 w2 by (cases "fr_start_of_transfer (rxf_frame rx)")
      (simp_all add: tr_receive_def r1_def Let_def upd tr_prepare_wf tr_timings_wf tr_registerError_wf)
qed

lemma tr_restart_wf:
  "tr_wf r \<Longrightarrow> unat (fr_transfer_id (rxf_frame rx)) < 32 \<Longrightarrow> tr_wf (tr_restart rx r)"
  using unat_and_mask [of "rxf_iface_index rx" 2] tr_registerError_wf [of r]
  by (simp add: tr_restart_def Let_def tr_wf_def IfaceIndexNotSet_def MaxCanIfaces_def mask_eq_exp_minus_1)

lemma tr_addFrame_wf:
  assumes "tr_wf r" and "unat (fr_transfer_id (rxf_frame rx)) < 32"
  shows "tr_wf (fst (snd (tr_addFrame A mem key rx (r, sm))))"
proof -
  define r1 where "r1 = (if tr_need_restart rx r then tr_restart rx r else r)"
  define sm1 where "sm1 = (if tr_need_restart rx r then bm_remove A key sm else sm)"
  have w1: "tr_wf r1" using assms tr_restart_wf by (simp add: r1_def)
  obtain ok r2 where v: "tr_validate rx r1 = (ok, r2)" by fastforce
  have w2: "tr_wf r2" using tr_validate_wf [OF w1, of rx] v by simp
  have "tr_wf (r1\<lparr>tr_tid := tid_increment (tr_tid r1)\<rparr>)"
    using w1 tid_increment_range by (simp add: tr_wf_def)
  then show ?thesis
    using v w2 assms(1) tr_receive_wf [OF w2, of A mem key rx sm1]
    by (cases "tr_need_restart rx r") (simp_all add: tr_addFrame_def r1_def sm1_def Let_def)
qed

section \<open>Reassembly\<close>

text \<open>The part of the payload of a frame that belongs to the transfer.\<close>

definition rx_body :: "rx_frame \<Rightarrow> u8 list" where
  "rx_body rx = (if fr_start_of_transfer (rxf_frame rx) then drop crc_NumBytes (fr_payload (rxf_frame rx))
    else fr_payload (rxf_frame rx))"

definition le16 :: "u8 \<Rightarrow> u8 \<Rightarrow> u16" where
  "le16 lo hi = ucast lo OR push_bit 8 (ucast hi)"

definition rx_crc :: "rx_frame \<Rightarrow> u16 \<Rightarrow> u16" where
  "rx_crc rx c = (if fr_start_of_transfer (rxf_frame rx)
    then le16 (fr_payload (rxf_frame rx) ! 0) (fr_payload (rxf_frame rx) ! 1) else c)"

lemma u8_and_FF: "(x :: u8) AND 0xFF = x"
proof -
  have "(0xFF :: u8) = mask 8" by (simp add: mask_eq_exp_minus_1)
  then show ?thesis using take_bit_word_eq_self [of 8 x] take_bit_eq_mask [of 8 x] by simp
qed

text \<open>
  What \<^verbatim>\<open>receive\<close> does with a frame of a multi-frame transfer: the state after a write that memory
  or size did not allow, and the state after a write to a buffer with the bytes \<open>c\<close> that succeeded.
\<close>

definition tr_failed :: "rx_frame \<Rightarrow> receiver \<Rightarrow> result_code \<Rightarrow> receiver \<Rightarrow> bool" where
  "tr_failed rx r res r' \<longleftrightarrow> res = ResultNotComplete \<and> tr_tid r' = tid_increment (tr_tid r) \<and>
     tr_iface_index r' = tr_iface_index r \<and> tr_prev_transfer_ts r' = tr_prev_transfer_ts r \<and>
     tr_buffer_write_pos r' = 0 \<and>
     tr_this_transfer_ts r' =
       (if fr_start_of_transfer (rxf_frame rx) then rxf_ts_mono rx else tr_this_transfer_ts r)"

definition tr_stored ::
  "rx_frame \<Rightarrow> receiver \<Rightarrow> u8 list \<Rightarrow> result_code \<Rightarrow> receiver \<Rightarrow> u8 list option \<Rightarrow> bool" where
  "tr_stored rx r c res r' bytes \<longleftrightarrow>
     bytes = Some (take (unat (tr_buffer_write_pos r)) c @ rx_body rx @
       drop (unat (tr_buffer_write_pos r) + length (rx_body rx)) c) \<and>
     tr_this_transfer_crc r' = rx_crc rx (tr_this_transfer_crc r) \<and>
     tr_iface_index r' = tr_iface_index r \<and>
     tr_this_transfer_ts r' =
       (if fr_start_of_transfer (rxf_frame rx) then rxf_ts_mono rx else tr_this_transfer_ts r) \<and>
     (if fr_end_of_transfer (rxf_frame rx)
      then res = ResultComplete \<and> tr_tid r' = tid_increment (tr_tid r) \<and> tr_buffer_write_pos r' = 0 \<and>
        \<not> tr_next_toggle r' \<and> tr_prev_transfer_ts r' = tr_this_transfer_ts r'
      else res = ResultNotComplete \<and> tr_tid r' = tr_tid r \<and>
        tr_prev_transfer_ts r' = tr_prev_transfer_ts r \<and>
        unat (tr_buffer_write_pos r') = unat (tr_buffer_write_pos r) + length (rx_body rx) \<and>
        tr_next_toggle r' = (\<not> tr_next_toggle r))"

definition bm_bytes :: "buffer_manager \<Rightarrow> buffer_key \<Rightarrow> u8 list" where
  "bm_bytes m key = (case bm_lookup m key of Some c \<Rightarrow> c | None \<Rightarrow> [])"

text \<open>Whether there is a buffer for the frame that takes all of its bytes.\<close>

definition tr_can_store ::
  "'s allocator_ops \<Rightarrow> (addr \<Rightarrow> nat \<Rightarrow> u8) \<Rightarrow> buffer_key \<Rightarrow> rx_frame \<Rightarrow> receiver \<times> 's \<times> buffer_manager \<Rightarrow> bool" where
  "tr_can_store A mem key rx rsm =
    (let (r, s, m) = rsm;
         (b, sm) = (case bm_access key m of Some _ \<Rightarrow> (True, s, m) | None \<Rightarrow> bm_create A key (s, m))
     in b \<and> ret_int (fst (bm_write A mem key (unat (tr_buffer_write_pos r)) (rx_body rx) sm)) =
              int (length (rx_body rx)))"

lemma tr_writePayload_ok:
  "(fr_start_of_transfer (rxf_frame rx) \<Longrightarrow> crc_NumBytes \<le> length (fr_payload (rxf_frame rx))) \<Longrightarrow>
   fst (tr_writePayload A mem key rx (r, sm)) \<longleftrightarrow>
     ret_int (fst (bm_write A mem key (unat (tr_buffer_write_pos r)) (rx_body rx) sm)) = int (length (rx_body rx))"
  by (auto simp: tr_writePayload_def rx_body_def Let_def split: prod.splits)

lemma tr_writePayload_sm:
  "tr_writePayload A mem key rx (r, s, m) = (ok, r', s', m') \<Longrightarrow>
    bm_others m' key = bm_others m key \<and> bm_max_buf_size m' = bm_max_buf_size m"
  by (auto simp: tr_writePayload_def Let_def bm_write_others bm_max_const split: if_splits prod.splits)

lemma tr_receive_sm:
  assumes "tr_receive A mem key rx (r, s, m) = (res, r', s', m')"
  shows "bm_others m' key = bm_others m key \<and> bm_max_buf_size m' = bm_max_buf_size m"
proof -
  let ?f = "rxf_frame rx"
  define r1 where "r1 = (if fr_start_of_transfer ?f
    then r\<lparr>tr_this_transfer_ts := rxf_ts_mono rx, tr_first_frame_ts := rxf_ts_utc rx\<rparr> else r)"
  obtain b s1 m1 where b: "(case bm_access key m of Some _ \<Rightarrow> (True, s, m) | None \<Rightarrow> bm_create A key (s, m))
      = (b, s1, m1)" by (metis prod_cases3)
  then have 1: "bm_others m1 key = bm_others m key" "bm_max_buf_size m1 = bm_max_buf_size m"
    by (auto simp: bm_create_others bm_max_const split: option.splits)
  obtain w r2 s2 m2 where w: "tr_writePayload A mem key rx (r1, s1, m1) = (w, r2, s2, m2)"
    by (metis prod_cases4)
  obtain s3 m3 where rm: "bm_remove A key (s2, m2) = (s3, m3)" by fastforce
  obtain s4 m4 where rm4: "bm_remove A key (s, m) = (s4, m4)" by fastforce
  have "m' \<in> {m1, m2, m3, m4}"
    using assms b w rm rm4 by (cases "fr_start_of_transfer ?f"; cases b; cases w)
      (auto simp: tr_receive_def r1_def Let_def split: if_splits)
  then show ?thesis
    using 1 tr_writePayload_sm [OF w] bm_remove_others [OF rm] bm_remove_others [OF rm4]
      bm_max_const(1) [OF rm] bm_max_const(1) [OF rm4] by auto
qed

context pool_allocator
begin

lemma tr_writePayload_spec:
  assumes "bm_ok s m" and "bm_lookup m key = Some c" and "unat (tr_buffer_write_pos r) \<le> length c"
    and "fr_start_of_transfer (rxf_frame rx) \<Longrightarrow> crc_NumBytes \<le> length (fr_payload (rxf_frame rx))"
    and "length (fr_payload (rxf_frame rx)) \<le> PayloadCapacity"
    and "tr_writePayload A mem key rx (r, s, m) = (ok, r', s', m')"
  shows "bm_ok s' m' \<and> live s' - bm_owned m' = live s - bm_owned m \<and>
    bm_max_buf_size m' = bm_max_buf_size m \<and> (\<exists>c'. bm_lookup m' = (bm_lookup m)(key \<mapsto> c')) \<and>
    tr_tid r' = tr_tid r \<and> tr_iface_index r' = tr_iface_index r \<and> tr_this_transfer_ts r' = tr_this_transfer_ts r \<and>
    tr_prev_transfer_ts r' = tr_prev_transfer_ts r \<and> tr_next_toggle r' = tr_next_toggle r \<and>
    (ok \<longrightarrow> tr_this_transfer_crc r' = rx_crc rx (tr_this_transfer_crc r) \<and>
       unat (tr_buffer_write_pos r') = unat (tr_buffer_write_pos r) + length (rx_body rx) \<and>
       bm_lookup m' key = Some (take (unat (tr_buffer_write_pos r)) c @ rx_body rx @
         drop (unat (tr_buffer_write_pos r) + length (rx_body rx)) c))"
proof -
  let ?p = "unat (tr_buffer_write_pos r)"
  obtain res s1 m1 where w: "bm_write A mem key ?p (rx_body rx) (s, m) = (res, s1, m1)"
    by (metis prod_cases3)
  have plt: "?p < 2 ^ 16" using unat_u16_lt [of "tr_buffer_write_pos r"] by simp
  have len: "length (rx_body rx) \<le> 7" using assms(5) by (auto simp: rx_body_def PayloadCapacity_def)
  obtain n where n: "res = Inr n" "n \<le> min (length (rx_body rx)) (unat (bm_max_buf_size m) - ?p)"
    "bm_ok s1 m1" "bm_lookup m1 = (bm_lookup m)(key \<mapsto> take ?p c @ take n (rx_body rx) @ drop (?p + n) c)"
    "live s1 - bm_owned m1 = live s - bm_owned m" "bm_max_buf_size m1 = bm_max_buf_size m"
    using bm_write_spec [OF assms(1-3) _ w] len plt by auto
  have st: "s' = s1" "m' = m1" "ok = (n = length (rx_body rx))"
    "ok \<Longrightarrow> tr_buffer_write_pos r' = tr_buffer_write_pos r + of_nat (length (rx_body rx))"
    "ok \<Longrightarrow> tr_this_transfer_crc r' = rx_crc rx (tr_this_transfer_crc r)"
    "tr_tid r' = tr_tid r" "tr_iface_index r' = tr_iface_index r"
    "tr_this_transfer_ts r' = tr_this_transfer_ts r" "tr_prev_transfer_ts r' = tr_prev_transfer_ts r"
    "tr_next_toggle r' = tr_next_toggle r"
    using assms(4,6) w n(1)
    by (auto simp: tr_writePayload_def rx_body_def rx_crc_def le16_def u8_and_FF Let_def split: if_splits)
  have "ok \<Longrightarrow> ?p + length (rx_body rx) < 2 ^ 16"
    using st(3) n(2) plt unat_u16_lt [of "bm_max_buf_size m"] by (auto simp: min_def split: if_splits)
  then have "ok \<Longrightarrow> unat (tr_buffer_write_pos r') = ?p + length (rx_body rx)"
    using st(4) len by (simp add: unat_word_ariths unat_of_nat)
  then show ?thesis using n st by auto
qed

lemma tr_receive_spec:
  assumes ok: "bm_ok s m" and key: "\<not> buffer_key_isEmpty key"
    and multi: "\<not> (fr_start_of_transfer (rxf_frame rx) \<and> fr_end_of_transfer (rxf_frame rx))"
    and crc: "fr_start_of_transfer (rxf_frame rx) \<Longrightarrow> crc_NumBytes \<le> length (fr_payload (rxf_frame rx))"
    and cap: "length (fr_payload (rxf_frame rx)) \<le> PayloadCapacity"
    and pos: "unat (tr_buffer_write_pos r) \<le> length (bm_bytes m key)"
    and rcv: "tr_receive A mem key rx (r, s, m) = (res, r', s', m')"
  shows "bm_ok s' m'" and "live s' - bm_owned m' = live s - bm_owned m"
    and "tr_failed rx r res r' \<and> \<not> tr_can_store A mem key rx (r, s, m) \<or>
      tr_stored rx r (bm_bytes m key) res r' (bm_lookup m' key)"
proof -
  let ?f = "rxf_frame rx"
  define r1 where "r1 = (if fr_start_of_transfer ?f
    then r\<lparr>tr_this_transfer_ts := rxf_ts_mono rx, tr_first_frame_ts := rxf_ts_utc rx\<rparr> else r)"
  have r1: "tr_buffer_write_pos r1 = tr_buffer_write_pos r" by (simp add: r1_def)
  obtain b s1 m1 where b: "(case bm_access key m of Some _ \<Rightarrow> (True, s, m) | None \<Rightarrow> bm_create A key (s, m))
      = (b, s1, m1)" by (metis prod_cases3)
  have st1: "bm_ok s1 m1 \<and> live s1 - bm_owned m1 = live s - bm_owned m \<and>
      (b \<longrightarrow> bm_lookup m1 key = Some (bm_bytes m key))"
  proof (cases "bm_findFirst key m")
    case None
    then have "bm_lookup m key = None" by (simp add: bm_lookup_def)
    moreover have "bm_create A key (s, m) = (b, s1, m1)" using b None key by (simp add: bm_access_def)
    ultimately show ?thesis using bm_create_spec [OF ok key] by (auto simp: bm_bytes_def)
  next
    case (Some e)
    then show ?thesis using b key ok by (auto simp: bm_access_def bm_lookup_def bm_bytes_def)
  qed
  obtain w r2 s2 m2 where w: "tr_writePayload A mem key rx (r1, s1, m1) = (w, r2, s2, m2)"
    by (metis prod_cases4)
  have eq: "(res, r', s', m') =
     (if \<not> b then (ResultNotComplete, tr_registerError (tr_prepareForNextTransfer r1), s1, m1)
      else if \<not> w then (ResultNotComplete, tr_registerError (tr_prepareForNextTransfer r2), bm_remove A key (s2, m2))
      else (let r3 = r2\<lparr>tr_next_toggle := \<not> tr_next_toggle r2\<rparr>
            in if fr_end_of_transfer ?f
               then (ResultComplete, tr_prepareForNextTransfer (tr_updateTransferTimings r3), s2, m2)
               else (ResultNotComplete, r3, s2, m2)))"
    using rcv b w multi by (cases "fr_start_of_transfer ?f"; cases b; cases w)
      (auto simp: tr_receive_def r1_def Let_def)
  show "bm_ok s' m'" "live s' - bm_owned m' = live s - bm_owned m"
    "tr_failed rx r res r' \<and> \<not> tr_can_store A mem key rx (r, s, m) \<or>
      tr_stored rx r (bm_bytes m key) res r' (bm_lookup m' key)"
  proof (atomize (full), cases b)
    case False
    then show "bm_ok s' m' \<and> live s' - bm_owned m' = live s - bm_owned m \<and>
      (tr_failed rx r res r' \<and> \<not> tr_can_store A mem key rx (r, s, m) \<or>
        tr_stored rx r (bm_bytes m key) res r' (bm_lookup m' key))"
      using eq st1 b by (auto simp: tr_can_store_def tr_failed_def r1_def tr_registerError_def tr_prepareForNextTransfer_def)
  next
    case True
    then have look: "bm_lookup m1 key = Some (bm_bytes m key)" using st1 by blast
    note sp = tr_writePayload_spec [OF conjunct1 [OF st1] look _ crc cap w]
    obtain s3 m3 where rm: "bm_remove A key (s2, m2) = (s3, m3)" by fastforce
    have "bm_ok s2 m2" using sp pos r1 by simp
    note rs = bm_remove_spec [OF this rm]
    have can: "tr_can_store A mem key rx (r, s, m) = w"
      using tr_writePayload_ok [OF crc, of A mem key r1 "(s1, m1)"] w b True r1
      by (simp add: tr_can_store_def)
    show "bm_ok s' m' \<and> live s' - bm_owned m' = live s - bm_owned m \<and>
      (tr_failed rx r res r' \<and> \<not> tr_can_store A mem key rx (r, s, m) \<or>
        tr_stored rx r (bm_bytes m key) res r' (bm_lookup m' key))"
      using sp pos r1 st1 eq True rm rs can
      by (cases w; cases "fr_end_of_transfer ?f")
        (auto simp: tr_failed_def tr_stored_def r1_def tr_registerError_def
          tr_prepareForNextTransfer_def Let_def)
  qed
qed

end

section \<open>The frames of a transfer\<close>

text \<open>
  The frames of a transfer after the first: same source interface and transfer ID, alternating
  toggle, the end flag on the last one only, none of them later than the transfer ID timeout.
\<close>

definition rx_follows :: "transfer_id \<Rightarrow> u8 \<Rightarrow> time \<Rightarrow> rx_frame \<Rightarrow> bool" where
  "rx_follows tid iface t0 rx \<longleftrightarrow> \<not> fr_start_of_transfer (rxf_frame rx) \<and>
     fr_transfer_id (rxf_frame rx) = tid \<and> rxf_iface_index rx = iface \<and>
     length (fr_payload (rxf_frame rx)) \<le> PayloadCapacity \<and> rxf_ts_mono rx \<noteq> 0 \<and>
     t0 \<le> rxf_ts_mono rx \<and> time_diff (rxf_ts_mono rx) t0 \<le> dur_fromMSec (uint DefaultTidTimeoutMSec)"

fun rx_rest :: "transfer_id \<Rightarrow> u8 \<Rightarrow> time \<Rightarrow> bool \<Rightarrow> rx_frame list \<Rightarrow> bool" where
  "rx_rest tid iface t0 tog [] \<longleftrightarrow> False"
| "rx_rest tid iface t0 tog (rx # rxs) \<longleftrightarrow> rx_follows tid iface t0 rx \<and> fr_toggle (rxf_frame rx) = tog \<and>
     fr_end_of_transfer (rxf_frame rx) = (rxs = []) \<and> (rxs \<noteq> [] \<longrightarrow> rx_rest tid iface t0 (\<not> tog) rxs)"

definition rx_first :: "transfer_id \<Rightarrow> u8 \<Rightarrow> time \<Rightarrow> rx_frame \<Rightarrow> bool" where
  "rx_first tid iface t0 rx \<longleftrightarrow> fr_start_of_transfer (rxf_frame rx) \<and> \<not> fr_end_of_transfer (rxf_frame rx) \<and>
     \<not> fr_toggle (rxf_frame rx) \<and> fr_transfer_id (rxf_frame rx) = tid \<and> rxf_iface_index rx = iface \<and>
     unat iface < MaxCanIfaces \<and> crc_NumBytes \<le> length (fr_payload (rxf_frame rx)) \<and>
     length (fr_payload (rxf_frame rx)) \<le> PayloadCapacity \<and> rxf_ts_mono rx = t0 \<and> t0 \<noteq> 0"

text \<open>A receiver between two transfers that waits for a transfer ID.\<close>

definition tr_idle :: "transfer_id \<Rightarrow> u8 \<Rightarrow> time \<Rightarrow> receiver \<Rightarrow> bool" where
  "tr_idle tid iface t0 r \<longleftrightarrow> tr_tid r = tid \<and> tr_iface_index r = iface \<and> \<not> tr_next_toggle r \<and>
     tr_buffer_write_pos r = 0 \<and> tr_prev_transfer_ts r = t0 \<and> tr_this_transfer_ts r = t0"

text \<open>
  The listener feeds a receiver frame by frame and takes its error count after every frame that does
  not complete a transfer.
\<close>

definition tr_polled :: "result_code \<Rightarrow> receiver \<Rightarrow> receiver" where
  "tr_polled res r = (if res = ResultNotComplete then snd (tr_yieldErrorCount r) else r)"

fun tr_run ::
  "'s allocator_ops \<Rightarrow> (addr \<Rightarrow> nat \<Rightarrow> u8) \<Rightarrow> buffer_key \<Rightarrow> rx_frame list \<Rightarrow>
    receiver \<times> 's \<times> buffer_manager \<Rightarrow> result_code list \<times> receiver \<times> 's \<times> buffer_manager" where
  "tr_run A mem key [] rsm = ([], rsm)"
| "tr_run A mem key (rx # rxs) rsm =
    (let (res, r, sm) = tr_addFrame A mem key rx rsm;
         (rs, rsm') = tr_run A mem key rxs (tr_polled res r, sm)
     in (res # rs, rsm'))"

lemma tr_polled_fields [simp]:
  "tr_prev_transfer_ts (tr_polled res r) = tr_prev_transfer_ts r"
  "tr_this_transfer_ts (tr_polled res r) = tr_this_transfer_ts r"
  "tr_first_frame_ts (tr_polled res r) = tr_first_frame_ts r"
  "tr_this_transfer_crc (tr_polled res r) = tr_this_transfer_crc r"
  "tr_buffer_write_pos (tr_polled res r) = tr_buffer_write_pos r"
  "tr_tid (tr_polled res r) = tr_tid r" "tr_next_toggle (tr_polled res r) = tr_next_toggle r"
  "tr_iface_index (tr_polled res r) = tr_iface_index r"
  "tr_isInitialized (tr_polled res r) = tr_isInitialized r"
  by (simp_all add: tr_polled_def tr_yieldErrorCount_def tr_isInitialized_def)

lemma tid_increment_neq: "tid_increment t \<noteq> t"
proof
  assume e: "tid_increment t = t"
  then have "unat t < 32" using tid_increment_range [of t] by simp
  then have "unat t \<in> {0..<32}" by simp
  moreover have "unat (tid_increment t) = (unat t + 1) mod 32"
    using calculation unat_and_mask [of "t + 1" 5]
    by (simp add: tid_increment_def tid_Max_def tid_BitLen_def mask_eq_exp_minus_1 unat_word_ariths
        take_bit_eq_mod)
  ultimately show False using e by (cases "unat t = 31") auto
qed

lemma tr_addFrame_follow:
  assumes "rx_follows tid iface t0 rx" and "tr_this_transfer_ts r = t0" and "tr_prev_transfer_ts r \<le> t0"
    and "tr_isInitialized r"
  shows "tr_addFrame A mem key rx (r, sm) =
    (let (ok, r) = tr_validate rx r in if ok then tr_receive A mem key rx (r, sm) else (ResultNotComplete, r, sm))"
proof -
  have "\<not> tr_need_restart rx r"
    using assms by (auto simp: tr_need_restart_def rx_follows_def tr_isTimedOut_def tr_getTidTimeout_def Let_def)
  moreover have "\<not> rxf_ts_mono rx < tr_prev_transfer_ts r" "\<not> rxf_ts_mono rx < tr_this_transfer_ts r"
    "rxf_ts_mono rx \<noteq> 0"
    using assms by (auto simp: rx_follows_def)
  ultimately show ?thesis by (simp add: tr_addFrame_def Let_def)
qed

lemma tr_run_wf:
  assumes "tr_wf r" and "\<forall>rx \<in> set rxs. unat (fr_transfer_id (rxf_frame rx)) < 32"
    and "tr_run A mem key rxs (r, sm) = (rs, r', sm')"
  shows "tr_wf r'"
  using assms
proof (induction rxs arbitrary: r sm rs)
  case (Cons rx rxs)
  obtain res r1 sm1 where a: "tr_addFrame A mem key rx (r, sm) = (res, r1, sm1)" by (metis prod_cases3)
  have "tr_wf r1" using tr_addFrame_wf [OF Cons.prems(1), of rx A mem key sm] Cons.prems(2) a by simp
  then have "tr_wf (tr_polled res r1)" by (simp add: tr_wf_def tr_polled_def tr_yieldErrorCount_def)
  then show ?case using Cons.IH [of "tr_polled res r1" sm1] Cons.prems(2,3) a by (auto split: prod.splits)
qed simp

lemma tr_run_dead:
  assumes "rx_rest tid iface t0 tog rxs" and "tr_this_transfer_ts r = t0" and "tr_prev_transfer_ts r \<le> t0"
    and "tr_isInitialized r" and "tr_tid r \<noteq> tid"
  shows "\<exists>r'. tr_run A mem key rxs (r, sm) = (replicate (length rxs) ResultNotComplete, r', sm)"
  using assms
proof (induction rxs arbitrary: r tog)
  case (Cons rx rxs)
  have f: "rx_follows tid iface t0 rx" using Cons.prems by simp
  obtain ok r1 where v: "tr_validate rx r = (ok, r1)" by fastforce
  have "\<not> ok" using v f Cons.prems(5)
    by (auto simp: tr_validate_def rx_follows_def tr_registerError_def Let_def split: if_splits)
  then have a: "tr_addFrame A mem key rx (r, sm) = (ResultNotComplete, r1, sm)"
    using tr_addFrame_follow [OF f Cons.prems(2-4)] v by simp
  have "tr_this_transfer_ts r1 = t0" "tr_prev_transfer_ts r1 \<le> t0" "tr_isInitialized r1" "tr_tid r1 \<noteq> tid"
    using tr_validate_cases [OF v] Cons.prems by (auto simp: tr_registerError_def tr_isInitialized_def)
  then show ?case
    using Cons.IH [of "\<not> tog" "tr_polled ResultNotComplete r1"] Cons.prems(1) a by (cases "rxs = []") auto
qed simp

lemma and_small_mask: "unat (i :: u8) < 4 \<Longrightarrow> i AND 3 = i"
  using unat_and_mask [of i 2] by (simp add: word_unat_eq_iff mask_eq_exp_minus_1)

context pool_allocator
begin

lemma tr_run_mid:
  assumes "rx_rest tid iface t0 tog rxs" and "tr_this_transfer_ts r = t0" and "tr_prev_transfer_ts r \<le> t0"
    and "tr_isInitialized r" and "tr_tid r = tid" and "tr_iface_index r = iface" and "tr_next_toggle r = tog"
    and "unat (tr_buffer_write_pos r) = length acc"
    and "bm_lookup m key = Some (acc @ drop (length acc) stale)"
    and "bm_ok s m" and "\<not> buffer_key_isEmpty key"
    and "tr_run A mem key rxs (r, s, m) = (rs, r', s', m')"
  shows "bm_ok s' m' \<and> live s' - bm_owned m' = live s - bm_owned m \<and>
    (\<exists>x. rs = replicate (length rxs - 1) ResultNotComplete @ [x] \<and> x \<noteq> ResultSingleFrame \<and>
      (x = ResultComplete \<longrightarrow>
        (let bytes = acc @ concat (map (\<lambda>rx. fr_payload (rxf_frame rx)) rxs)
         in bm_lookup m' key = Some (bytes @ drop (length bytes) stale) \<and>
            tr_this_transfer_crc r' = tr_this_transfer_crc r \<and> tr_idle (tid_increment tid) iface t0 r')))"
  using assms
proof (induction rxs arbitrary: r s m tog acc rs)
  case (Cons rx rxs)
  have f: "rx_follows tid iface t0 rx" "fr_toggle (rxf_frame rx) = tog"
    "fr_end_of_transfer (rxf_frame rx) = (rxs = [])"
    "\<not> fr_start_of_transfer (rxf_frame rx)" "length (fr_payload (rxf_frame rx)) \<le> PayloadCapacity"
    using Cons.prems(1) by (auto simp: rx_follows_def)
  have v: "tr_validate rx r = (True, r)"
    using f Cons.prems(5-7) by (auto simp: tr_validate_def rx_follows_def)
  obtain res r1 s1 m1 where rc: "tr_receive A mem key rx (r, s, m) = (res, r1, s1, m1)"
    by (metis prod_cases4)
  have add: "tr_addFrame A mem key rx (r, s, m) = (res, r1, s1, m1)"
    using tr_addFrame_follow [OF f(1) Cons.prems(2-4), of A mem key "(s, m)"] v rc by simp
  obtain rs1 r2 s2 m2 where run: "tr_run A mem key rxs (tr_polled res r1, s1, m1) = (rs1, r2, s2, m2)"
    by (metis prod_cases4)
  have out: "rs = res # rs1" "r' = r2" "s' = s2" "m' = m2" using Cons.prems(12) add run by auto
  have byt: "bm_bytes m key = acc @ drop (length acc) stale" using Cons.prems(9) by (simp add: bm_bytes_def)
  have body: "rx_body rx = fr_payload (rxf_frame rx)" "rx_crc rx c = c" for c
    using f(4) by (simp_all add: rx_body_def rx_crc_def)
  note sp = tr_receive_spec [OF Cons.prems(10,11) _ _ f(5) _ rc]
  have ok1: "bm_ok s1 m1" "live s1 - bm_owned m1 = live s - bm_owned m"
    "tr_failed rx r res r1 \<and> \<not> tr_can_store A mem key rx (r, s, m) \<or>
      tr_stored rx r (bm_bytes m key) res r1 (bm_lookup m1 key)"
    using sp f(4) Cons.prems(8) byt by auto
  show ?case
  proof (cases "tr_failed rx r res r1")
    case True
    then have d: "tr_this_transfer_ts r1 = t0" "tr_prev_transfer_ts r1 \<le> t0" "tr_isInitialized r1"
      "tr_tid r1 \<noteq> tid" "res = ResultNotComplete"
      using Cons.prems(2-5) f(4) tid_increment_neq by (auto simp: tr_failed_def tr_isInitialized_def)
    show ?thesis
    proof (cases "rxs = []")
      case True
      then show ?thesis using out run ok1 d by simp
    next
      case False
      then have "rx_rest tid iface t0 (\<not> tog) rxs" using Cons.prems(1) by simp
      from tr_run_dead [OF this, of "tr_polled res r1" A mem key "(s1, m1)"] show ?thesis
        using out run ok1 d False
        by (auto simp: replicate_append_same [symmetric] intro!: exI [of _ ResultNotComplete])
    qed
  next
    case False
    then have st: "tr_stored rx r (bm_bytes m key) res r1 (bm_lookup m1 key)" using ok1(3) by blast
    define acc' where "acc' = acc @ fr_payload (rxf_frame rx)"
    have look: "bm_lookup m1 key = Some (acc' @ drop (length acc') stale)"
      using st Cons.prems(8) by (simp add: tr_stored_def byt body acc'_def add.commute)
    show ?thesis
    proof (cases "rxs = []")
      case True
      then show ?thesis
        using st out run ok1 f look body Cons.prems(2,5,6)
        by (auto simp: tr_stored_def acc'_def tr_idle_def Let_def)
    next
      case False
      have "bm_ok s' m' \<and> live s' - bm_owned m' = live s1 - bm_owned m1 \<and>
        (\<exists>x. rs1 = replicate (length rxs - 1) ResultNotComplete @ [x] \<and> x \<noteq> ResultSingleFrame \<and>
          (x = ResultComplete \<longrightarrow>
            (let bytes = acc' @ concat (map (\<lambda>rx. fr_payload (rxf_frame rx)) rxs)
             in bm_lookup m' key = Some (bytes @ drop (length bytes) stale) \<and>
                tr_this_transfer_crc r' = tr_this_transfer_crc (tr_polled res r1) \<and> tr_idle (tid_increment tid) iface t0 r')))"
        by (rule Cons.IH [of "\<not> tog" "tr_polled res r1"])
          (use st out run ok1 f look False Cons.prems in
            \<open>auto simp: tr_stored_def acc'_def body tr_isInitialized_def\<close>)
      then obtain x where x: "bm_ok s' m'" "live s' - bm_owned m' = live s1 - bm_owned m1"
        "rs1 = replicate (length rxs - 1) ResultNotComplete @ [x]" "x \<noteq> ResultSingleFrame"
        "x = ResultComplete \<longrightarrow>
            (let bytes = acc' @ concat (map (\<lambda>rx. fr_payload (rxf_frame rx)) rxs)
             in bm_lookup m' key = Some (bytes @ drop (length bytes) stale) \<and>
                tr_this_transfer_crc r' = tr_this_transfer_crc (tr_polled res r1) \<and> tr_idle (tid_increment tid) iface t0 r')"
        by blast
      have "rs = replicate (length (rx # rxs) - 1) ResultNotComplete @ [x]"
        using x(3) out(1) st False f(3) by (cases rxs) (auto simp: tr_stored_def)
      moreover have "tr_this_transfer_crc r1 = tr_this_transfer_crc r"
        using st body by (simp add: tr_stored_def)
      ultimately show ?thesis
        using x ok1(2) by (intro conjI exI [of _ x]) (simp_all add: acc'_def Let_def)
    qed
  qed
qed simp

lemma tr_run_transfer:
  assumes first: "rx_first tid iface t0 rx" and rest: "rx_rest tid iface t0 True rxs"
    and ts: "tr_prev_transfer_ts r \<le> t0" "tr_this_transfer_ts r \<le> t0"
    and acc: "tr_need_restart rx r \<or> tr_tid r = tid \<and> tr_iface_index r = iface \<and> \<not> tr_next_toggle r \<and>
      tr_buffer_write_pos r = 0"
    and st: "bm_ok s m" "\<not> buffer_key_isEmpty key"
    and run: "tr_run A mem key (rx # rxs) (r, s, m) = (rs, r', s', m')"
  shows "bm_ok s' m' \<and> live s' - bm_owned m' = live s - bm_owned m \<and>
    (\<exists>x. rs = replicate (length rxs) ResultNotComplete @ [x] \<and> x \<noteq> ResultSingleFrame \<and>
      (x = ResultComplete \<longrightarrow>
        (let stale = (if tr_need_restart rx r then [] else bm_bytes m key);
             payload = concat (map (\<lambda>rx. fr_payload (rxf_frame rx)) (rx # rxs));
             bytes = drop crc_NumBytes payload
         in bm_lookup m' key = Some (bytes @ drop (length bytes) stale) \<and>
            tr_this_transfer_crc r' = le16 (payload ! 0) (payload ! 1) \<and> tr_idle (tid_increment tid) iface t0 r')))"
proof -
  let ?f = "rxf_frame rx"
  let ?stale = "if tr_need_restart rx r then [] else bm_bytes m key"
  note ff = first [unfolded rx_first_def]
  define r1 where "r1 = (if tr_need_restart rx r then tr_restart rx r else r)"
  obtain s1 m1 where sm1: "(if tr_need_restart rx r then bm_remove A key (s, m) else (s, m)) = (s1, m1)"
    by (metis surj_pair)
  have iface: "iface AND IfaceIndexNotSet = iface" "iface \<noteq> IfaceIndexNotSet"
    using ff and_small_mask [of iface] by (auto simp: IfaceIndexNotSet_def MaxCanIfaces_def)
  have f1: "tr_tid r1 = tid" "tr_iface_index r1 = iface" "\<not> tr_next_toggle r1" "tr_buffer_write_pos r1 = 0"
    "tr_prev_transfer_ts r1 \<le> t0"
    using acc ff iface ts by (auto simp: r1_def tr_restart_def tr_registerError_def Let_def)
  have v: "tr_validate rx r1 = (True, r1)"
    using ff f1 by (auto simp: tr_validate_def tr_isMidTransfer_def)
  obtain res r2 s2 m2 where rc: "tr_receive A mem key rx (r1, s1, m1) = (res, r2, s2, m2)"
    by (metis prod_cases4)
  have "tr_addFrame A mem key rx (r, s, m) = (res, r2, s2, m2)"
    using ff ts v sm1 rc leD [OF ts(1)] leD [OF ts(2)]
    by (cases "tr_need_restart rx r") (simp_all add: tr_addFrame_def r1_def Let_def)
  moreover obtain rs1 r3 s3 m3 where run3: "tr_run A mem key rxs (tr_polled res r2, s2, m2) = (rs1, r3, s3, m3)"
    by (metis prod_cases4)
  ultimately have out: "rs = res # rs1" "r' = r3" "s' = s3" "m' = m3" using run by auto
  have ok1: "bm_ok s1 m1" "live s1 - bm_owned m1 = live s - bm_owned m" "bm_bytes m1 key = ?stale"
    using bm_remove_spec [OF st(1), of key s1 m1] sm1 st(1)
    by (auto simp: bm_bytes_def split: if_splits)
  have pre: "\<not> (fr_start_of_transfer ?f \<and> fr_end_of_transfer ?f)" "length (fr_payload ?f) \<le> PayloadCapacity"
    "fr_start_of_transfer ?f \<Longrightarrow> crc_NumBytes \<le> length (fr_payload ?f)" using ff by auto
  note sp = tr_receive_spec [OF ok1(1) st(2) pre(1,3,2) _ rc]
  have rs: "bm_ok s2 m2" "live s2 - bm_owned m2 = live s1 - bm_owned m1"
    "tr_failed rx r1 res r2 \<and> \<not> tr_can_store A mem key rx (r1, s1, m1) \<or>
      tr_stored rx r1 ?stale res r2 (bm_lookup m2 key)"
    using sp f1(4) ok1(3) by auto
  have rxs: "rxs \<noteq> []" using rest by auto
  show ?thesis
  proof (cases "tr_failed rx r1 res r2")
    case True
    then have d: "tr_this_transfer_ts r2 = t0" "tr_prev_transfer_ts r2 \<le> t0" "tr_isInitialized r2"
      "tr_tid r2 \<noteq> tid" "res = ResultNotComplete"
      using f1 ff iface tid_increment_neq by (auto simp: tr_failed_def tr_isInitialized_def)
    from tr_run_dead [OF rest, of "tr_polled res r2" A mem key "(s2, m2)"] show ?thesis
      using out run3 ok1 rs d
      by (auto simp: replicate_append_same intro!: exI [of _ ResultNotComplete])
  next
    case False
    then have sto: "tr_stored rx r1 ?stale res r2 (bm_lookup m2 key)" using rs(3) by blast
    define acc where "acc = drop crc_NumBytes (fr_payload ?f)"
    have body: "rx_body rx = acc" using ff by (simp add: rx_body_def acc_def)
    have crc: "tr_this_transfer_crc r2 = le16 (fr_payload ?f ! 0) (fr_payload ?f ! 1)"
      using sto ff by (simp add: tr_stored_def rx_crc_def)
    have "bm_ok s' m' \<and> live s' - bm_owned m' = live s2 - bm_owned m2 \<and>
      (\<exists>x. rs1 = replicate (length rxs - 1) ResultNotComplete @ [x] \<and> x \<noteq> ResultSingleFrame \<and>
        (x = ResultComplete \<longrightarrow>
          (let bytes = acc @ concat (map (\<lambda>rx. fr_payload (rxf_frame rx)) rxs)
           in bm_lookup m' key = Some (bytes @ drop (length bytes) ?stale) \<and>
              tr_this_transfer_crc r' = tr_this_transfer_crc (tr_polled res r2) \<and> tr_idle (tid_increment tid) iface t0 r')))"
      by (rule tr_run_mid [OF rest, of "tr_polled res r2"])
        (use sto f1 ff iface body rs(1) st out run3 in \<open>auto simp: tr_stored_def tr_isInitialized_def\<close>)
    then obtain x where x: "bm_ok s' m'" "live s' - bm_owned m' = live s2 - bm_owned m2"
      "rs1 = replicate (length rxs - 1) ResultNotComplete @ [x]" "x \<noteq> ResultSingleFrame"
      "x = ResultComplete \<longrightarrow>
          (let bytes = acc @ concat (map (\<lambda>rx. fr_payload (rxf_frame rx)) rxs)
           in bm_lookup m' key = Some (bytes @ drop (length bytes) ?stale) \<and>
              tr_this_transfer_crc r' = tr_this_transfer_crc (tr_polled res r2) \<and> tr_idle (tid_increment tid) iface t0 r')"
      by blast
    have "rs = replicate (length rxs) ResultNotComplete @ [x]"
      using x(3) out(1) sto ff rxs by (cases rxs) (auto simp: tr_stored_def)
    moreover have "fr_payload ?f \<noteq> []" using ff by (auto simp: crc_NumBytes_def)
    ultimately show ?thesis
      using x rs(2) ok1(2) crc ff
      by (intro conjI exI [of _ x]) (simp_all add: acc_def Let_def nth_append crc_NumBytes_def)
  qed
qed

end

section \<open>Any frame\<close>

lemma bm_lookup_others:
  assumes "bm_others m' key = bm_others m key" and "k \<noteq> key"
  shows "bm_lookup m' k = bm_lookup m k"
proof -
  have "List.find (\<lambda>e. te_key e = k) es = List.find (\<lambda>e. te_key e = k) (filter (\<lambda>e. te_key e \<noteq> key) es)" for es
    using assms(2) by (induction es) auto
  then show ?thesis using assms(1) by (metis bm_lookup_def bm_findFirst_def bm_others_def)
qed

context pool_allocator
begin

text \<open>The position of a receiver never lies beyond the bytes of its buffer.\<close>

lemma tr_addFrame_inv:
  assumes ok: "bm_ok s m" and key: "\<not> buffer_key_isEmpty key"
    and pos: "unat (tr_buffer_write_pos r) \<le> length (bm_bytes m key)"
    and cap: "length (fr_payload (rxf_frame rx)) \<le> PayloadCapacity"
    and add: "tr_addFrame A mem key rx (r, s, m) = (res, r', s', m')"
  shows "bm_ok s' m' \<and> live s' - bm_owned m' = live s - bm_owned m \<and> bm_others m' key = bm_others m key \<and>
    unat (tr_buffer_write_pos r') \<le> length (bm_bytes m' key) \<and>
    (res = ResultComplete \<longrightarrow> tr_buffer_write_pos r' = 0)"
proof -
  let ?f = "rxf_frame rx"
  define r1 where "r1 = (if tr_need_restart rx r then tr_restart rx r else r)"
  obtain s1 m1 where sm1: "(if tr_need_restart rx r then bm_remove A key (s, m) else (s, m)) = (s1, m1)"
    by (metis surj_pair)
  have ok1: "bm_ok s1 m1" "live s1 - bm_owned m1 = live s - bm_owned m" "bm_others m1 key = bm_others m key"
    "unat (tr_buffer_write_pos r1) \<le> length (bm_bytes m1 key)"
    using bm_remove_spec [OF ok, of key s1 m1] bm_remove_others [of A key s m s1 m1] sm1 ok pos
    by (auto simp: r1_def tr_restart_def Let_def split: if_splits)
  obtain v r2 where v: "tr_validate rx r1 = (v, r2)" by fastforce
  then have r2: "tr_buffer_write_pos r2 = tr_buffer_write_pos r1"
    using tr_validate_cases [OF v] by (auto simp: tr_registerError_def)
  consider (same) "(r', s', m') = (r, s, m)" "res \<noteq> ResultComplete"
    | (skip) "tr_buffer_write_pos r' = tr_buffer_write_pos r1" "(s', m') = (s1, m1)" "res \<noteq> ResultComplete"
    | (recv) "v" "tr_receive A mem key rx (r2, s1, m1) = (res, r', s', m')"
    using add v sm1 r2 by (cases "tr_need_restart rx r"; cases v)
      (auto simp: tr_addFrame_def r1_def Let_def split: if_splits)
  then show ?thesis
  proof cases
    case same
    then show ?thesis using ok pos by simp
  next
    case skip
    then show ?thesis using ok1 by simp
  next
    case recv
    show ?thesis
    proof (cases "fr_start_of_transfer ?f \<and> fr_end_of_transfer ?f")
      case True
      obtain s3 m3 where rm: "bm_remove A key (s1, m1) = (s3, m3)" by fastforce
      have "s' = s3" "m' = m3" "tr_buffer_write_pos r' = 0" "res \<noteq> ResultComplete"
        using recv(2) True rm by (auto simp: tr_receive_def tr_prepareForNextTransfer_def Let_def)
      then show ?thesis using ok1 bm_remove_spec [OF ok1(1) rm] bm_remove_others [OF rm] by simp
    next
      case False
      have crc: "fr_start_of_transfer ?f \<Longrightarrow> crc_NumBytes \<le> length (fr_payload ?f)"
        using v recv(1) False by (auto simp: tr_validate_def Let_def split: if_splits)
      have pos2: "unat (tr_buffer_write_pos r2) \<le> length (bm_bytes m1 key)" using ok1(4) r2 by simp
      have sp: "bm_ok s' m'" "live s' - bm_owned m' = live s1 - bm_owned m1"
        "tr_failed rx r2 res r' \<or> tr_stored rx r2 (bm_bytes m1 key) res r' (bm_lookup m' key)"
        using tr_receive_spec [OF ok1(1) key False crc cap pos2 recv(2)] by blast+
      moreover have "res = ResultComplete \<longrightarrow> tr_buffer_write_pos r' = 0"
        using sp(3) by (auto simp: tr_failed_def tr_stored_def split: if_splits)
      moreover have "unat (tr_buffer_write_pos r') \<le> length (bm_bytes m' key)"
        using sp(3) pos2 by (auto simp: tr_failed_def tr_stored_def bm_bytes_def [of m'] split: if_splits)
      ultimately show ?thesis using ok1 tr_receive_sm [OF recv(2)] by simp
    qed
  qed
qed

end

section \<open>Enough memory\<close>

context bounded_allocator
begin

text \<open>The bytes up to \<open>n\<close> fit into the buffer of a key, whatever else is in memory.\<close>

definition tr_room :: "buffer_key \<Rightarrow> nat \<Rightarrow> 'a \<times> buffer_manager \<Rightarrow> bool" where
  "tr_room key n sm \<longleftrightarrow> n \<le> unat (bm_max_buf_size (snd sm)) \<and>
     card (bm_foreign (live (fst sm)) (snd sm) key) + 1 + blocks_for n \<le> capacity"

lemma tr_room_mono: "tr_room key n sm \<Longrightarrow> k \<le> n \<Longrightarrow> tr_room key k sm"
  using blocks_for_mono [of k n] by (auto simp: tr_room_def)

lemma bm_foreign_const:
  assumes "bm_ok s m" and "bm_ok s' m'" and "live s' - bm_owned m' = live s - bm_owned m"
    and "bm_others m' key = bm_others m key"
  shows "bm_foreign (live s') m' key = bm_foreign (live s) m key"
  using assms bm_foreign_eq [of m "live s" key] bm_foreign_eq [of m' "live s'" key]
  by (simp add: bm_ok_def)

lemma tr_can_store_room:
  assumes ok: "bm_ok s m" and key: "\<not> buffer_key_isEmpty key"
    and pos: "unat (tr_buffer_write_pos r) \<le> length (bm_bytes m key)"
    and room: "tr_room key (unat (tr_buffer_write_pos r) + length (rx_body rx)) (s, m)"
  shows "tr_can_store A mem key rx (r, s, m)"
proof -
  let ?p = "unat (tr_buffer_write_pos r)"
  obtain b s1 m1 where b: "(case bm_access key m of Some _ \<Rightarrow> (True, s, m) | None \<Rightarrow> bm_create A key (s, m))
      = (b, s1, m1)" by (metis prod_cases3)
  have st: "b \<and> bm_ok s1 m1 \<and> bm_lookup m1 key = Some (bm_bytes m key) \<and> tr_room key (?p + length (rx_body rx)) (s1, m1)"
  proof (cases "bm_findFirst key m")
    case None
    then have n: "bm_lookup m key = None" by (simp add: bm_lookup_def)
    have c: "bm_create A key (s, m) = (b, s1, m1)" using b None key by (simp add: bm_access_def)
    have b: b using bm_create_complete [OF ok key n _ c] room by (simp add: tr_room_def)
    have sp: "bm_ok s1 m1" "live s1 - bm_owned m1 = live s - bm_owned m" "bm_lookup m1 key = Some []"
      using bm_create_spec [OF ok key c] b by auto
    show ?thesis
      using b sp n room bm_foreign_const [OF ok sp(1,2) bm_create_others [OF c]] bm_max_const(2) [OF c]
      by (simp add: tr_room_def bm_bytes_def)
  next
    case (Some e)
    then show ?thesis using b key ok room by (auto simp: bm_access_def bm_lookup_def bm_bytes_def)
  qed
  obtain res s2 m2 where w: "bm_write A mem key ?p (rx_body rx) (s1, m1) = (res, s2, m2)" by (metis prod_cases3)
  have lt: "?p + length (rx_body rx) < 2 ^ 32"
    using room unat_u16_lt [of "bm_max_buf_size m"] by (simp add: tr_room_def)
  obtain n where n: "res = Inr n" using bm_write_spec [OF _ _ pos lt w] st by blast
  have "n = length (rx_body rx)"
    by (rule bm_write_complete [of s1 m1 key "bm_bytes m key" ?p _ mem n s2 m2])
      (use st pos w n in \<open>auto simp: tr_room_def\<close>)
  then show ?thesis using b st w n by (simp add: tr_can_store_def)
qed

lemma tr_run_mid_complete:
  assumes "rx_rest tid iface t0 tog rxs" and "tr_this_transfer_ts r = t0" and "tr_prev_transfer_ts r \<le> t0"
    and "tr_isInitialized r" and "tr_tid r = tid" and "tr_iface_index r = iface" and "tr_next_toggle r = tog"
    and "unat (tr_buffer_write_pos r) = length acc"
    and "bm_lookup m key = Some (acc @ drop (length acc) stale)"
    and "bm_ok s m" and "\<not> buffer_key_isEmpty key"
    and "tr_room key (length acc + length (concat (map (\<lambda>rx. fr_payload (rxf_frame rx)) rxs))) (s, m)"
    and "tr_run A mem key rxs (r, s, m) = (rs, r', s', m')"
  shows "rs \<noteq> [] \<and> last rs = ResultComplete"
  using assms
proof (induction rxs arbitrary: r s m tog acc rs)
  case (Cons rx rxs)
  have f: "rx_follows tid iface t0 rx" "fr_toggle (rxf_frame rx) = tog"
    "fr_end_of_transfer (rxf_frame rx) = (rxs = [])"
    "\<not> fr_start_of_transfer (rxf_frame rx)" "length (fr_payload (rxf_frame rx)) \<le> PayloadCapacity"
    using Cons.prems(1) by (auto simp: rx_follows_def)
  have v: "tr_validate rx r = (True, r)"
    using f Cons.prems(5-7) by (auto simp: tr_validate_def rx_follows_def)
  obtain res r1 s1 m1 where rc: "tr_receive A mem key rx (r, s, m) = (res, r1, s1, m1)"
    by (metis prod_cases4)
  have add: "tr_addFrame A mem key rx (r, s, m) = (res, r1, s1, m1)"
    using tr_addFrame_follow [OF f(1) Cons.prems(2-4), of A mem key "(s, m)"] v rc by simp
  obtain rs1 r2 s2 m2 where run: "tr_run A mem key rxs (tr_polled res r1, s1, m1) = (rs1, r2, s2, m2)"
    by (metis prod_cases4)
  have out: "rs = res # rs1" "r' = r2" "s' = s2" "m' = m2" using Cons.prems(13) add run by auto
  have byt: "bm_bytes m key = acc @ drop (length acc) stale" using Cons.prems(9) by (simp add: bm_bytes_def)
  have body: "rx_body rx = fr_payload (rxf_frame rx)" using f(4) by (simp add: rx_body_def)
  have can: "tr_can_store A mem key rx (r, s, m)"
    by (rule tr_can_store_room [OF Cons.prems(10,11)])
      (use Cons.prems(8,12) byt body in \<open>auto elim: tr_room_mono\<close>)
  note sp = tr_receive_spec [OF Cons.prems(10,11) _ _ f(5) _ rc]
  have ok1: "bm_ok s1 m1" "live s1 - bm_owned m1 = live s - bm_owned m"
    "tr_stored rx r (bm_bytes m key) res r1 (bm_lookup m1 key)"
    using sp f(4) Cons.prems(8) byt can by auto
  define acc' where "acc' = acc @ fr_payload (rxf_frame rx)"
  have look: "bm_lookup m1 key = Some (acc' @ drop (length acc') stale)"
    using ok1(3) Cons.prems(8) by (simp add: tr_stored_def byt body acc'_def add.commute)
  show ?case
  proof (cases "rxs = []")
    case True
    then show ?thesis using ok1(3) out run f(3) by (simp add: tr_stored_def)
  next
    case False
    have "bm_foreign (live s1) m1 key = bm_foreign (live s) m key" "bm_max_buf_size m1 = bm_max_buf_size m"
      using bm_foreign_const [OF Cons.prems(10) ok1(1,2)] tr_receive_sm [OF rc] by auto
    then have room: "tr_room key (length acc' + length (concat (map (\<lambda>rx. fr_payload (rxf_frame rx)) rxs))) (s1, m1)"
      using Cons.prems(12) by (simp add: tr_room_def acc'_def add.assoc)
    have "rs1 \<noteq> [] \<and> last rs1 = ResultComplete"
      by (rule Cons.IH [of "\<not> tog" "tr_polled res r1" acc' m1 s1])
        (use ok1 out run f look False room Cons.prems body in
          \<open>auto simp: tr_stored_def acc'_def tr_isInitialized_def\<close>)
    then show ?thesis using out by simp
  qed
qed simp

lemma tr_run_complete:
  assumes first: "rx_first tid iface t0 rx" and rest: "rx_rest tid iface t0 True rxs"
    and ts: "tr_prev_transfer_ts r \<le> t0" "tr_this_transfer_ts r \<le> t0"
    and acc: "tr_need_restart rx r \<or> tr_tid r = tid \<and> tr_iface_index r = iface \<and> \<not> tr_next_toggle r \<and>
      tr_buffer_write_pos r = 0"
    and st: "bm_ok s m" "\<not> buffer_key_isEmpty key"
    and room: "tr_room key (length (concat (map (\<lambda>rx. fr_payload (rxf_frame rx)) (rx # rxs)))) (s, m)"
    and run: "tr_run A mem key (rx # rxs) (r, s, m) = (rs, r', s', m')"
  shows "rs = replicate (length rxs) ResultNotComplete @ [ResultComplete]"
proof -
  let ?f = "rxf_frame rx"
  let ?stale = "if tr_need_restart rx r then [] else bm_bytes m key"
  note ff = first [unfolded rx_first_def]
  define r1 where "r1 = (if tr_need_restart rx r then tr_restart rx r else r)"
  obtain s1 m1 where sm1: "(if tr_need_restart rx r then bm_remove A key (s, m) else (s, m)) = (s1, m1)"
    by (metis surj_pair)
  have iface: "iface AND IfaceIndexNotSet = iface" "iface \<noteq> IfaceIndexNotSet"
    using ff and_small_mask [of iface] by (auto simp: IfaceIndexNotSet_def MaxCanIfaces_def)
  have f1: "tr_tid r1 = tid" "tr_iface_index r1 = iface" "\<not> tr_next_toggle r1" "tr_buffer_write_pos r1 = 0"
    "tr_prev_transfer_ts r1 \<le> t0"
    using acc ff iface ts by (auto simp: r1_def tr_restart_def tr_registerError_def Let_def)
  have v: "tr_validate rx r1 = (True, r1)"
    using ff f1 by (auto simp: tr_validate_def tr_isMidTransfer_def)
  obtain res r2 s2 m2 where rc: "tr_receive A mem key rx (r1, s1, m1) = (res, r2, s2, m2)"
    by (metis prod_cases4)
  have "tr_addFrame A mem key rx (r, s, m) = (res, r2, s2, m2)"
    using ff ts v sm1 rc leD [OF ts(1)] leD [OF ts(2)]
    by (cases "tr_need_restart rx r") (simp_all add: tr_addFrame_def r1_def Let_def)
  moreover obtain rs1 r3 s3 m3 where run3: "tr_run A mem key rxs (tr_polled res r2, s2, m2) = (rs1, r3, s3, m3)"
    by (metis prod_cases4)
  ultimately have out: "rs = res # rs1" using run by auto
  have ok1: "bm_ok s1 m1" "live s1 - bm_owned m1 = live s - bm_owned m" "bm_bytes m1 key = ?stale"
    "bm_others m1 key = bm_others m key" "bm_max_buf_size m1 = bm_max_buf_size m"
    using bm_remove_spec [OF st(1), of key s1 m1] bm_remove_others [of A key s m s1 m1] sm1 st(1)
    by (auto simp: bm_bytes_def split: if_splits)
  have body: "rx_body rx = drop crc_NumBytes (fr_payload ?f)" using ff by (simp add: rx_body_def)
  have fg: "bm_foreign (live s1) m1 key = bm_foreign (live s) m key"
    using bm_foreign_const [OF st(1) ok1(1,2,4)] .
  have room1: "tr_room key (length (concat (map (\<lambda>rx. fr_payload (rxf_frame rx)) (rx # rxs)))) (s1, m1)"
    using room fg ok1(5) by (simp add: tr_room_def)
  have can: "tr_can_store A mem key rx (r1, s1, m1)"
    by (rule tr_can_store_room [OF ok1(1) st(2)]) (use room1 f1(4) body in \<open>auto elim!: tr_room_mono\<close>)
  have pre: "\<not> (fr_start_of_transfer ?f \<and> fr_end_of_transfer ?f)" "length (fr_payload ?f) \<le> PayloadCapacity"
    "fr_start_of_transfer ?f \<Longrightarrow> crc_NumBytes \<le> length (fr_payload ?f)" using ff by auto
  note sp = tr_receive_spec [OF ok1(1) st(2) pre(1,3,2) _ rc]
  have sto: "bm_ok s2 m2" "live s2 - bm_owned m2 = live s1 - bm_owned m1"
    "tr_stored rx r1 ?stale res r2 (bm_lookup m2 key)"
    using sp f1(4) ok1(3) can by auto
  have room2: "tr_room key (length (rx_body rx) + length (concat (map (\<lambda>rx. fr_payload (rxf_frame rx)) rxs))) (s2, m2)"
  proof (rule tr_room_mono)
    show "tr_room key (length (concat (map (\<lambda>rx. fr_payload (rxf_frame rx)) (rx # rxs)))) (s2, m2)"
      using room1 tr_receive_sm [OF rc] bm_foreign_const [OF ok1(1) sto(1,2)] by (simp add: tr_room_def)
  qed (simp add: body)
  have "rs1 \<noteq> [] \<and> last rs1 = ResultComplete"
    by (rule tr_run_mid_complete [OF rest _ _ _ _ _ _ _ _ sto(1) st(2) room2 run3, of ?stale])
      (use sto f1 ff iface in \<open>auto simp: tr_stored_def tr_isInitialized_def\<close>)
  moreover obtain x where "rs = replicate (length rxs) ResultNotComplete @ [x]"
    using tr_run_transfer [OF first rest ts acc st run] by blast
  ultimately show ?thesis using out by auto (metis last_ConsR last_snoc)
qed

end

section \<open>Properties\<close>

text \<open>
  C30.  The bit fields and the interval of a receiver keep their ranges under every frame with a
  transfer ID of five bits: the transfer ID and the error counter stay below 32, the interface
  index below 4, and the moving average of the interval never reaches zero.
\<close>

theorem receiver_fields_in_range:
  assumes "tr_wf r" and "unat (fr_transfer_id (rxf_frame rx)) < 32"
    and "tr_addFrame A mem key rx (r, sm) = (res, r', sm')"
  shows "tr_wf r' \<and> tr_wf (snd (tr_yieldErrorCount r')) \<and> tr_wf TransferReceiver"
  using tr_addFrame_wf [OF assms(1,2), of A mem key sm] assms(3)
  by (simp add: tr_wf_def tr_yieldErrorCount_def TransferReceiver_def IfaceIndexNotSet_def MaxCanIfaces_def
      DefaultTransferIntervalMSec_def)

definition example_first :: rx_frame where
  "example_first = \<lparr>rxf_frame = \<lparr>fr_payload = [0x34, 0x12, 1, 2, 3, 4, 5], fr_priority = 16,
     fr_transfer_type = TransferTypeMessageBroadcast, fr_data_type_id = 7, fr_src_node_id = 42,
     fr_dst_node_id = 0, fr_transfer_id = 3, fr_start_of_transfer = True, fr_end_of_transfer = False,
     fr_toggle = False\<rparr>, rxf_ts_mono = 1000, rxf_ts_utc = 0, rxf_iface_index = 0\<rparr>"

definition example_last :: rx_frame where
  "example_last = \<lparr>rxf_frame = \<lparr>fr_payload = [6, 7], fr_priority = 16,
     fr_transfer_type = TransferTypeMessageBroadcast, fr_data_type_id = 7, fr_src_node_id = 42,
     fr_dst_node_id = 0, fr_transfer_id = 3, fr_start_of_transfer = False, fr_end_of_transfer = True,
     fr_toggle = True\<rparr>, rxf_ts_mono = 2000, rxf_ts_utc = 0, rxf_iface_index = 0\<rparr>"

theorem receiver_fields_in_range_witness:
  "tr_wf (fst (snd (tr_addFrame pool_ops (\<lambda>_ _. 0) example_key example_first
     (TransferReceiver, PoolAllocator 256 64, \<lparr>bm_buffers = [], bm_max_buf_size = 100\<rparr>))))"
proof -
  obtain res r' sm' where r: "tr_addFrame pool_ops (\<lambda>_ _. 0) example_key example_first
     (TransferReceiver, PoolAllocator 256 64, \<lparr>bm_buffers = [], bm_max_buf_size = 100\<rparr>) = (res, r', sm')"
    by (metis prod_cases3)
  moreover have "tr_wf TransferReceiver"
    by (simp add: tr_wf_def TransferReceiver_def IfaceIndexNotSet_def MaxCanIfaces_def
        DefaultTransferIntervalMSec_def)
  moreover have "unat (fr_transfer_id (rxf_frame example_first)) < 32" by (simp add: example_first_def)
  ultimately show ?thesis using receiver_fields_in_range [OF _ _ r] by simp
qed

text \<open>
  C3.  Delivery: a receiver that expects the transfer, or restarts on it, answers its frames with
  one \<^verbatim>\<open>ResultComplete\<close>, at the last frame, whenever the bytes fit into the maximum size of the buffer and
  the pool has the blocks they need.  The buffer then holds exactly the payload after the CRC if the receiver
  restarts on the transfer, or if its buffer held no bytes.  Otherwise it begins with the payload, and the bytes that an
  older transfer left beyond its end remain.  The CRC is the one of the first frame and the timestamp that of
  the first frame.
\<close>

theorem transfer_delivered:
  assumes "rx_first tid iface t0 rx" and "rx_rest tid iface t0 True rxs"
    and "tr_prev_transfer_ts r \<le> t0" and "tr_this_transfer_ts r \<le> t0"
    and "tr_need_restart rx r \<or> tr_tid r = tid \<and> tr_iface_index r = iface \<and> \<not> tr_next_toggle r \<and>
      tr_buffer_write_pos r = 0"
    and "node_pool_inv n p" and "bm_wf m" and "bm_owned m \<subseteq> pool_live p" and "\<not> buffer_key_isEmpty key"
    and "payload = concat (map (\<lambda>rx. fr_payload (rxf_frame rx)) (rx # rxs))"
    and "length payload \<le> unat (bm_max_buf_size m)"
    and "card (bm_foreign (pool_live p) m key) + 1 + blocks_for (length payload) \<le> n"
    and "tr_run pool_ops mem key (rx # rxs) (r, p, m) = (rs, r', p', m')"
  shows "rs = replicate (length rxs) ResultNotComplete @ [ResultComplete] \<and>
    (let bytes = drop crc_NumBytes payload;
         stale = (if tr_need_restart rx r then [] else bm_bytes m key)
     in bm_lookup m' key = Some (bytes @ drop (length bytes) stale)) \<and>
    (tr_need_restart rx r \<or> bm_bytes m key = [] \<longrightarrow> bm_lookup m' key = Some (drop crc_NumBytes payload)) \<and>
    tr_this_transfer_crc r' = le16 (payload ! 0) (payload ! 1) \<and>
    tr_getLastTransferTimestampMonotonic r' = t0"
proof -
  have ok: "node_pool.bm_ok n p m" using assms by (simp add: node_pool.bm_ok_def)
  have rm: "node_pool.tr_room n key (length payload) (p, m)"
    using assms(11,12) by (simp add: node_pool.tr_room_def)
  have c: "rs = replicate (length rxs) ResultNotComplete @ [ResultComplete]"
    using node_pool.tr_run_complete [OF assms(1-5) ok assms(9) rm [unfolded assms(10)] assms(13)] .
  obtain x where x: "rs = replicate (length rxs) ResultNotComplete @ [x]"
    and res: "x = ResultComplete \<longrightarrow>
        (let stale = (if tr_need_restart rx r then [] else bm_bytes m key);
             payload = concat (map (\<lambda>rx. fr_payload (rxf_frame rx)) (rx # rxs));
             bytes = drop crc_NumBytes payload
         in bm_lookup m' key = Some (bytes @ drop (length bytes) stale) \<and>
            tr_this_transfer_crc r' = le16 (payload ! 0) (payload ! 1) \<and> tr_idle (tid_increment tid) iface t0 r')"
    using node_pool.tr_run_transfer [OF assms(1-5) ok assms(9,13)] by blast
  have "x = ResultComplete" using c x by simp
  then have d: "bm_lookup m' key = Some (drop crc_NumBytes payload @ drop (length (drop crc_NumBytes payload))
      (if tr_need_restart rx r then [] else bm_bytes m key))"
    "tr_this_transfer_crc r' = le16 (payload ! 0) (payload ! 1)" "tr_getLastTransferTimestampMonotonic r' = t0"
    using res unfolding Let_def assms(10) tr_getLastTransferTimestampMonotonic_def tr_idle_def by blast+
  moreover have "bm_lookup m' key = Some (drop crc_NumBytes payload)" if "tr_need_restart rx r \<or> bm_bytes m key = []"
    using d(1) that by auto
  ultimately show ?thesis using c unfolding Let_def by blast
qed

theorem transfer_delivered_witness:
  "let (rs, r, p, m) = tr_run pool_ops (\<lambda>_ _. 0) example_key [example_first, example_last]
     (TransferReceiver, PoolAllocator 256 64, \<lparr>bm_buffers = [], bm_max_buf_size = 100\<rparr>)
   in rs = [ResultNotComplete, ResultComplete] \<and> bm_lookup m example_key = Some [1, 2, 3, 4, 5, 6, 7] \<and>
      tr_this_transfer_crc r = 0x1234"
proof -
  let ?p = "PoolAllocator 256 64" and ?m = "\<lparr>bm_buffers = [], bm_max_buf_size = 100\<rparr> :: buffer_manager"
  obtain rs r' p' m' where run: "tr_run pool_ops (\<lambda>_ _. 0) example_key [example_first, example_last]
     (TransferReceiver, ?p, ?m) = (rs, r', p', m')" by (metis prod_cases4)
  have f: "rx_first 3 0 1000 example_first"
    by (simp add: rx_first_def example_first_def MaxCanIfaces_def crc_NumBytes_def PayloadCapacity_def)
  have r: "rx_rest 3 0 1000 True [example_last]"
    by (simp add: rx_follows_def example_last_def PayloadCapacity_def time_diff_def dur_fromMSec_def
        DefaultTidTimeoutMSec_def i64_def word_le_nat_alt)
  have re: "tr_need_restart example_first TransferReceiver"
    by (simp add: tr_need_restart_def tr_isInitialized_def TransferReceiver_def Let_def)
  have ts: "tr_prev_transfer_ts TransferReceiver \<le> 1000" "tr_this_transfer_ts TransferReceiver \<le> 1000"
    by (simp_all add: TransferReceiver_def)
  have p: "node_pool_inv 4 ?p" "pool_live ?p = {}"
    using PoolAllocator_fresh [of 256 64]
    by (auto simp: node_pool_inv_def PoolAllocator_def MemPoolBlockSize_def)
  have m: "bm_wf ?m" "bm_owned ?m \<subseteq> pool_live ?p" "\<not> buffer_key_isEmpty example_key"
    by (simp_all add: bm_wf_def bm_owned_def buffer_key_isEmpty_def example_key_def node_id_isValid_def node_id_Max_def)
  let ?b = "[0x34, 0x12, 1, 2, 3, 4, 5, 6, 7] :: u8 list"
  have c: "length ?b \<le> unat (bm_max_buf_size ?m)"
    "card (bm_foreign (pool_live ?p) ?m example_key) + 1 + blocks_for (length ?b) \<le> 4"
    by (simp_all add: bm_foreign_def p(2) blocks_for_def block_Size_def MemPoolBlockSize_def sizeof_ptr_def bm_findFirst_def)
  have pl: "?b = concat (map (\<lambda>rx. fr_payload (rxf_frame rx)) [example_first, example_last])"
    by (simp add: example_first_def example_last_def)
  have "(le16 0x34 0x12 :: u16) = 0x1234" by (simp add: le16_def)
  then have "rs = [ResultNotComplete, ResultComplete] \<and> bm_lookup m' example_key = Some [1, 2, 3, 4, 5, 6, 7] \<and>
      tr_this_transfer_crc r' = 0x1234"
    using transfer_delivered [OF f r ts disjI1 [OF re] p(1) m pl c run] re
    by (simp add: crc_NumBytes_def Let_def)
  then show ?thesis unfolding run by simp
qed

end
