(* ===== verification/TransferListeners.thy ===== *)
theory TransferListeners
  imports KvMaps TransferReceivers
begin

text \<open>
  \<^verbatim>\<open>TransferListener\<close> (include/uavcan/transport/transfer_listener.hpp, src/transport/uc_transfer_listener.cpp)
  and \<^verbatim>\<open>TransferPerfCounter\<close> (perf_counter.hpp).  The listener of a data type keeps one receiver and at
  most one buffer for every source node and transfer type; both live in the same memory pool.
  The virtual function \<^verbatim>\<open>handleIncomingTransfer\<close> belongs to the clients: the operations return the
  transfer that it is called with.
\<close>

section \<open>Performance counters\<close>

record perf_counter =
  pc_transfers_tx :: u64
  pc_transfers_rx :: u64
  pc_errors :: u64

definition TransferPerfCounter :: perf_counter where
  "TransferPerfCounter = \<lparr>pc_transfers_tx = 0, pc_transfers_rx = 0, pc_errors = 0\<rparr>"

definition pc_addTxTransfer :: "perf_counter \<Rightarrow> perf_counter" where
  "pc_addTxTransfer p = p\<lparr>pc_transfers_tx := pc_transfers_tx p + 1\<rparr>"

definition pc_addRxTransfer :: "perf_counter \<Rightarrow> perf_counter" where
  "pc_addRxTransfer p = p\<lparr>pc_transfers_rx := pc_transfers_rx p + 1\<rparr>"

definition pc_addError :: "perf_counter \<Rightarrow> perf_counter" where
  "pc_addError p = p\<lparr>pc_errors := pc_errors p + 1\<rparr>"

definition pc_addErrors :: "nat \<Rightarrow> perf_counter \<Rightarrow> perf_counter" where
  "pc_addErrors errors p = p\<lparr>pc_errors := pc_errors p + of_nat errors\<rparr>"

section \<open>Incoming transfers\<close>

text \<open>Where the payload is read from: the frame itself or the buffer that the accessor finds.\<close>

datatype payload_source = FramePayload "u8 list" | BufferPayload "buffer_entry option"

record incoming_transfer =
  it_ts_mono :: time
  it_ts_utc :: time
  it_transfer_priority :: transfer_priority
  it_transfer_type :: transfer_type
  it_transfer_id :: transfer_id
  it_src_node_id :: node_id
  it_iface_index :: u8
  it_source :: payload_source

definition SingleFrameIncomingTransfer :: "rx_frame \<Rightarrow> incoming_transfer" where
  "SingleFrameIncomingTransfer frm =
    (let f = rxf_frame frm
     in \<lparr>it_ts_mono = rxf_ts_mono frm, it_ts_utc = rxf_ts_utc frm, it_transfer_priority = fr_priority f,
         it_transfer_type = fr_transfer_type f, it_transfer_id = fr_transfer_id f,
         it_src_node_id = fr_src_node_id f, it_iface_index = rxf_iface_index frm,
         it_source = FramePayload (fr_payload f)\<rparr>)"

definition MultiFrameIncomingTransfer ::
  "time \<Rightarrow> time \<Rightarrow> rx_frame \<Rightarrow> buffer_entry option \<Rightarrow> incoming_transfer" where
  "MultiFrameIncomingTransfer ts_mono ts_utc last_frame tbb =
    (let f = rxf_frame last_frame
     in \<lparr>it_ts_mono = ts_mono, it_ts_utc = ts_utc, it_transfer_priority = fr_priority f,
         it_transfer_type = fr_transfer_type f, it_transfer_id = fr_transfer_id f,
         it_src_node_id = fr_src_node_id f, it_iface_index = rxf_iface_index last_frame,
         it_source = BufferPayload tbb\<rparr>)"

text \<open>\<^verbatim>\<open>SingleFrameIncomingTransfer::read\<close>; the Boolean says that the destination pointer is null.\<close>

definition sf_read :: "u8 list \<Rightarrow> nat \<Rightarrow> bool \<Rightarrow> nat \<Rightarrow> uavcan_error + u8 list" where
  "sf_read payload offset null len =
    (if null then Inl ErrInvalidParam
     else if offset \<ge> length payload then Inr []
     else
       (let len = (if uadd offset len > length payload then length payload - offset else len)
        in Inr (take len (drop offset payload))))"

definition it_read :: "incoming_transfer \<Rightarrow> nat \<Rightarrow> bool \<Rightarrow> nat \<Rightarrow> uavcan_error + u8 list" where
  "it_read it offset null len =
    (case it_source it of
       FramePayload payload \<Rightarrow> sf_read payload offset null len
     | BufferPayload None \<Rightarrow> Inl ErrLogic
     | BufferPayload (Some tbb) \<Rightarrow> te_read tbb offset null len)"

definition it_isAnonymousTransfer :: "incoming_transfer \<Rightarrow> bool" where
  "it_isAnonymousTransfer it =
    (case it_source it of
       FramePayload _ \<Rightarrow> it_transfer_type it = TransferTypeMessageBroadcast \<and> node_id_isBroadcast (it_src_node_id it)
     | BufferPayload _ \<Rightarrow> False)"

section \<open>The listener\<close>

text \<open>
  \<^verbatim>\<open>Map<TransferBufferManagerKey, TransferReceiver>\<close>: with pairs of 40 bytes there is one pair in a block.
\<close>

definition receivers_type :: "(buffer_key, receiver) map_type" where
  "receivers_type = \<lparr>mt_key = buffer_key_default, mt_value = TransferReceiver,
     mt_NumKV = (MemPoolBlockSize - sizeof_ptr) div 40, mt_sizeof = 48\<rparr>"

record listener =
  tl_data_type :: data_type_descriptor
  tl_bufmgr :: buffer_manager
  tl_receivers :: "(buffer_key, receiver) kv_map"
  tl_crc_base :: u16
  tl_allow_anonymous :: bool

definition TransferListener :: "data_type_descriptor \<Rightarrow> u16 \<Rightarrow> listener" where
  "TransferListener data_type max_buffer_size =
    \<lparr>tl_data_type = data_type, tl_bufmgr = \<lparr>bm_buffers = [], bm_max_buf_size = max_buffer_size\<rparr>,
     tl_receivers = [], tl_crc_base = toTransferCRC (dtd_signature data_type),
     tl_allow_anonymous = False\<rparr>"

definition tl_allowAnonymousTransfers :: "listener \<Rightarrow> listener" where
  "tl_allowAnonymousTransfers l = l\<lparr>tl_allow_anonymous := True\<rparr>"

text \<open>
  \<^verbatim>\<open>TimedOutReceiverPredicate\<close>: its effect, on the allocator and the buffer manager, is to remove the
  buffer of a receiver that it selects.
\<close>

definition tl_timed_out_predicate ::
  "'s allocator_ops \<Rightarrow> time \<Rightarrow> buffer_key \<Rightarrow> receiver \<Rightarrow> 's \<times> buffer_manager \<Rightarrow> bool \<times> 's \<times> buffer_manager" where
  "tl_timed_out_predicate A ts key r sm =
    (if tr_isTimedOut ts r then (True, bm_remove A key sm) else (False, sm))"

text \<open>The loop of \<^verbatim>\<open>checkPayloadCrc\<close>: the CRC of the bytes from an offset on, or nothing on a read error.\<close>

function tl_crc_loop :: "buffer_entry \<Rightarrow> u16 \<Rightarrow> nat \<Rightarrow> u16 option" where
  "tl_crc_loop tbb crc offset =
    (case te_read tbb offset False 16 of
       Inl _ \<Rightarrow> None
     | Inr [] \<Rightarrow> Some crc
     | Inr (b # buf) \<Rightarrow> tl_crc_loop tbb (crc_add_bytes crc (b # buf)) (offset + length (b # buf)))"
  by pat_completeness auto

text \<open>It ends: a read returns bytes only below the end of the data.\<close>

termination
proof (relation "measure (\<lambda>(tbb, crc, offset). unat (te_max_write_pos tbb) - offset)", simp)
  fix tbb :: buffer_entry and crc :: u16 and offset :: nat and y :: "u8 list" and b buf
  assume "te_read tbb offset False 16 = Inr y" and "y = b # buf"
  then have "offset < unat (te_max_write_pos tbb)" by (auto simp: te_read_def split: if_splits)
  then show "((tbb, crc_add_bytes crc (b # buf), offset + length (b # buf)), tbb, crc, offset)
      \<in> measure (\<lambda>(tbb, crc, offset). unat (te_max_write_pos tbb) - offset)"
    by simp
qed

declare tl_crc_loop.simps [simp del]

definition tl_checkPayloadCrc :: "listener \<Rightarrow> u16 \<Rightarrow> buffer_entry \<Rightarrow> bool" where
  "tl_checkPayloadCrc l compare_with tbb \<longleftrightarrow> tl_crc_loop tbb (tl_crc_base l) 0 = Some compare_with"

definition tl_handleReception ::
  "'s allocator_ops \<Rightarrow> (addr \<Rightarrow> nat \<Rightarrow> u8) \<Rightarrow> rx_frame \<Rightarrow> buffer_key \<Rightarrow> receiver \<Rightarrow>
    perf_counter \<times> 's \<times> listener \<Rightarrow> incoming_transfer option \<times> receiver \<times> perf_counter \<times> 's \<times> listener" where
  "tl_handleReception A mem rx key recv psl =
    (let (perf, s, l) = psl
     in case tr_addFrame A mem key rx (recv, s, tl_bufmgr l) of
          (ResultNotComplete, r, s, m) \<Rightarrow>
            (let (n, r) = tr_yieldErrorCount r
             in (None, r, pc_addErrors (unat n) perf, s, l\<lparr>tl_bufmgr := m\<rparr>))
        | (ResultSingleFrame, r, s, m) \<Rightarrow>
            (Some (SingleFrameIncomingTransfer rx), r, pc_addRxTransfer perf, s, l\<lparr>tl_bufmgr := m\<rparr>)
        | (ResultComplete, r, s, m) \<Rightarrow>
            (case bm_access key m of
               None \<Rightarrow> (None, r, pc_addRxTransfer perf, s, l\<lparr>tl_bufmgr := m\<rparr>)
             | Some tbb \<Rightarrow>
                 if \<not> tl_checkPayloadCrc l (tr_this_transfer_crc r) tbb
                 then (None, r, pc_addRxTransfer perf, s, l\<lparr>tl_bufmgr := m\<rparr>)
                 else
                   (let (s', m') = bm_remove A key (s, m)
                    in (Some (MultiFrameIncomingTransfer (tr_getLastTransferTimestampMonotonic r)
                               (tr_first_frame_ts r) rx (Some tbb)),
                        r, pc_addRxTransfer perf, s', l\<lparr>tl_bufmgr := m'\<rparr>))))"

definition tl_handleAnonymousTransferReception ::
  "rx_frame \<Rightarrow> perf_counter \<times> 's \<times> listener \<Rightarrow> incoming_transfer option \<times> perf_counter \<times> 's \<times> listener" where
  "tl_handleAnonymousTransferReception rx psl =
    (let (perf, s, l) = psl
     in if tl_allow_anonymous l then (Some (SingleFrameIncomingTransfer rx), pc_addRxTransfer perf, s, l)
        else (None, psl))"

text \<open>The destructor clears the map of receivers and then destroys the buffers.\<close>

definition tl_destroy :: "'s allocator_ops \<Rightarrow> 's \<times> listener \<Rightarrow> 's" where
  "tl_destroy A sl =
    (let (s, l) = sl; (s, _) = kv_clear A receivers_type (s, tl_receivers l)
     in bm_destroy_all A s (bm_buffers (tl_bufmgr l)))"

definition tl_cleanup :: "'s allocator_ops \<Rightarrow> time \<Rightarrow> 's \<times> listener \<Rightarrow> 's \<times> listener" where
  "tl_cleanup A ts sl =
    (let (s, l) = sl;
         ((s, m), rs) = kv_removeAllWhere A receivers_type (tl_timed_out_predicate A ts)
                          (s, tl_bufmgr l) (tl_receivers l)
     in (s, l\<lparr>tl_bufmgr := m, tl_receivers := rs\<rparr>))"

text \<open>\<^verbatim>\<open>handleFrame\<close>; the receiver is updated in place in the map.\<close>

definition tl_handleFrame ::
  "'s allocator_ops \<Rightarrow> (addr \<Rightarrow> nat \<Rightarrow> u8) \<Rightarrow> rx_frame \<Rightarrow>
    perf_counter \<times> 's \<times> listener \<Rightarrow> incoming_transfer option \<times> perf_counter \<times> 's \<times> listener" where
  "tl_handleFrame A mem rx psl =
    (let (perf, s, l) = psl; frame = rxf_frame rx
     in if node_id_isUnicast (fr_src_node_id frame) then
          (let key = \<lparr>tbk_node_id = fr_src_node_id frame, tbk_transfer_type = fr_transfer_type frame\<rparr>;
               handle = (\<lambda>recv s l.
                  let (it, r, perf, s, l) = tl_handleReception A mem rx key recv (perf, s, l)
                  in (it, perf, s, l\<lparr>tl_receivers := kv_update key r (tl_receivers l)\<rparr>))
           in case kv_access key (tl_receivers l) of
                Some recv \<Rightarrow> handle recv s l
              | None \<Rightarrow>
                  if \<not> fr_start_of_transfer frame then (None, perf, s, l)
                  else
                    (let (ok, s, rs) = kv_insert A receivers_type key TransferReceiver (s, tl_receivers l);
                         l = l\<lparr>tl_receivers := rs\<rparr>
                     in if \<not> ok then (None, perf, s, l) else handle TransferReceiver s l))
        else if node_id_isBroadcast (fr_src_node_id frame) \<and> fr_start_of_transfer frame \<and>
                fr_end_of_transfer frame \<and> node_id_isBroadcast (fr_dst_node_id frame)
        then tl_handleAnonymousTransferReception rx (perf, s, l)
        else (None, perf, s, l))"

text \<open>\<^verbatim>\<open>TransferListenerWithFilter\<close>: the filter, if one is installed, is a predicate on frames.\<close>

definition tlf_handleFrame ::
  "'s allocator_ops \<Rightarrow> (addr \<Rightarrow> nat \<Rightarrow> u8) \<Rightarrow> (rx_frame \<Rightarrow> bool) option \<Rightarrow> rx_frame \<Rightarrow>
    perf_counter \<times> 's \<times> listener \<Rightarrow> incoming_transfer option \<times> perf_counter \<times> 's \<times> listener" where
  "tlf_handleFrame A mem filt rx psl =
    (case filt of
       Some shouldAcceptFrame \<Rightarrow> if shouldAcceptFrame rx then tl_handleFrame A mem rx psl else (None, psl)
     | None \<Rightarrow> (None, psl))"

section \<open>The CRC of a buffer\<close>

lemma tl_crc_loop_eq:
  assumes "te_wf tbb"
  shows "tl_crc_loop tbb crc offset = Some (crc_add_bytes crc (drop offset (te_contents tbb)))"
  using assms
proof (induction tbb crc offset rule: tl_crc_loop.induct)
  case (1 tbb crc offset)
  let ?rest = "drop offset (te_contents tbb)"
  have len: "length (te_contents tbb) < 2 ^ 16"
    using te_len [OF 1(2)] unat_u16_lt [of "te_max_write_pos tbb"] by simp
  show ?case
  proof (cases "offset + 16 < 2 ^ 32")
    case True
    then have rd: "te_read tbb offset False 16 = Inr (take 16 ?rest)" using te_read_spec [OF 1(2)] by blast
    show ?thesis
    proof (cases "take 16 ?rest")
      case Nil
      then show ?thesis using rd by (simp add: tl_crc_loop.simps [of tbb crc offset])
    next
      case (Cons b buf)
      have "tl_crc_loop tbb (crc_add_bytes crc (b # buf)) (offset + length (b # buf)) =
          Some (crc_add_bytes (crc_add_bytes crc (b # buf)) (drop (offset + length (b # buf)) (te_contents tbb)))"
        using 1(1) [of "b # buf" b buf] rd Cons 1(2) by simp
      moreover have "(b # buf) @ drop (offset + length (b # buf)) (te_contents tbb) = ?rest"
      proof -
        have "drop 16 ?rest = drop (length (b # buf)) ?rest"
          using arg_cong [OF Cons, of length] by (cases "16 \<le> length ?rest") auto
        then have "take 16 ?rest @ drop (length (b # buf)) ?rest = ?rest"
          by (metis append_take_drop_id)
        then show ?thesis using Cons by (simp add: add.commute)
      qed
      then have "crc_add_bytes crc ?rest =
          crc_add_bytes (crc_add_bytes crc (b # buf)) (drop (offset + length (b # buf)) (te_contents tbb))"
        using crc_add_bytes_append [of crc "b # buf"] by metis
      ultimately show ?thesis
        using rd Cons by (simp add: tl_crc_loop.simps [of tbb crc offset])
    qed
  next
    case False
    then have "offset \<ge> unat (te_max_write_pos tbb)" using unat_u16_lt [of "te_max_write_pos tbb"] by simp
    then have "te_read tbb offset False 16 = Inr []" "?rest = []"
      using te_len [OF 1(2)] by (simp_all add: te_read_def)
    then show ?thesis by (simp add: tl_crc_loop.simps [of tbb crc offset])
  qed
qed

lemma tl_checkPayloadCrc_iff:
  "te_wf tbb \<Longrightarrow> tl_checkPayloadCrc l c tbb \<longleftrightarrow> crc_add_bytes (tl_crc_base l) (te_contents tbb) = c"
  by (simp add: tl_checkPayloadCrc_def tl_crc_loop_eq)

section \<open>Invariant\<close>

text \<open>
  Every buffer belongs to a receiver, no receiver is beyond the end of its buffer, and the blocks of
  the two containers are disjoint.
\<close>

definition tl_linked :: "listener \<Rightarrow> bool" where
  "tl_linked l \<longleftrightarrow>
    (\<forall>k. bm_lookup (tl_bufmgr l) k \<noteq> None \<longrightarrow> kv_lookup receivers_type (tl_receivers l) k \<noteq> None) \<and>
    (\<forall>k r. kv_lookup receivers_type (tl_receivers l) k = Some r \<longrightarrow>
       unat (tr_buffer_write_pos r) \<le> length (bm_bytes (tl_bufmgr l) k))"

definition tl_wf :: "addr set \<Rightarrow> listener \<Rightarrow> bool" where
  "tl_wf L l \<longleftrightarrow> bm_wf (tl_bufmgr l) \<and> kv_inv receivers_type (tl_receivers l) \<and>
     bm_owned (tl_bufmgr l) \<union> fst ` set (tl_receivers l) \<subseteq> L \<and>
     bm_owned (tl_bufmgr l) \<inter> fst ` set (tl_receivers l) = {} \<and> tl_linked l"

text \<open>All blocks of a listener.\<close>

definition tl_owned :: "listener \<Rightarrow> addr set" where
  "tl_owned l = bm_owned (tl_bufmgr l) \<union> fst ` set (tl_receivers l)"

lemma kv_lookup_default: "kv_lookup T m (mt_key T) = None"
  by (auto simp: kv_lookup_def kv_entries_def map_of_eq_None_iff)

lemma receivers_NumKV: "mt_NumKV receivers_type = 1"
  by (simp add: receivers_type_def MemPoolBlockSize_def sizeof_ptr_def)

lemma map_of_filter_pairs:
  "distinct (map fst kvs) \<Longrightarrow> map_of (filter (\<lambda>kv. P (snd kv)) kvs) k =
    (case map_of kvs k of Some v \<Rightarrow> if P v then Some v else None | None \<Rightarrow> None)"
proof (induction kvs)
  case (Cons kv kvs)
  then have "map_of kvs (fst kv) = None" by (simp add: map_of_eq_None_iff)
  then show ?case using Cons by (cases kv) (auto split: option.splits)
qed simp

context pool_allocator
begin

lemma tl_update:
  assumes "tl_wf (live s) l" and "kv_lookup receivers_type (tl_receivers l) key = Some r0"
    and "bm_ok s' m'" and "live s' - bm_owned m' = live s - bm_owned (tl_bufmgr l)"
    and "bm_others m' key = bm_others (tl_bufmgr l) key"
    and "unat (tr_buffer_write_pos r) \<le> length (bm_bytes m' key)"
  shows "tl_wf (live s') (l\<lparr>tl_bufmgr := m', tl_receivers := kv_update key r (tl_receivers l)\<rparr>) \<and>
    live s' - tl_owned (l\<lparr>tl_bufmgr := m', tl_receivers := kv_update key r (tl_receivers l)\<rparr>) = live s - tl_owned l"
proof -
  let ?T = receivers_type and ?R = "tl_receivers l"
  note w = assms(1) [unfolded tl_wf_def tl_linked_def]
  have k: "key \<noteq> mt_key ?T" using assms(2) kv_lookup_default [of ?T ?R] by auto
  note u = kv_update_spec [OF conjunct1 [OF conjunct2 [OF w]] k assms(2), of r]
  have f: "fst ` set (kv_update key r ?R) = fst ` set ?R" using u(3) by (metis set_map)
  have o: "bm_lookup m' j = bm_lookup (tl_bufmgr l) j" if "j \<noteq> key" for j
    using bm_lookup_others [OF assms(5) that] .
  have link: "tl_linked (l\<lparr>tl_bufmgr := m', tl_receivers := kv_update key r ?R\<rparr>)"
    using w u(2) o assms(6) by (auto simp: tl_linked_def bm_bytes_def)
  have "fst ` set ?R \<subseteq> live s' - bm_owned m'" using w assms(4) by auto
  then show ?thesis
    using w u(1) f link assms(3,4) by (auto simp: tl_wf_def tl_owned_def bm_ok_def)
qed

lemma tl_handleReception_spec:
  assumes "bm_ok s (tl_bufmgr l)" and "\<not> buffer_key_isEmpty key"
    and "unat (tr_buffer_write_pos recv) \<le> length (bm_bytes (tl_bufmgr l) key)"
    and "length (fr_payload (rxf_frame rx)) \<le> PayloadCapacity"
    and "tl_handleReception A mem rx key recv (perf, s, l) = (it, r', perf', s', l')"
  shows "\<exists>m'. l' = l\<lparr>tl_bufmgr := m'\<rparr> \<and> bm_ok s' m' \<and>
    live s' - bm_owned m' = live s - bm_owned (tl_bufmgr l) \<and>
    bm_others m' key = bm_others (tl_bufmgr l) key \<and>
    unat (tr_buffer_write_pos r') \<le> length (bm_bytes m' key)"
proof -
  obtain res r1 s1 m1 where a: "tr_addFrame A mem key rx (recv, s, tl_bufmgr l) = (res, r1, s1, m1)"
    by (metis prod_cases4)
  note i = tr_addFrame_inv [OF assms(1-4) a]
  obtain s2 m2 where rm: "bm_remove A key (s1, m1) = (s2, m2)" by fastforce
  have "bm_ok s1 m1" using i by blast
  note rs = bm_remove_spec [OF this rm] bm_remove_others [OF rm]
  have "l' = l\<lparr>tl_bufmgr := m1\<rparr> \<and> s' = s1 \<and> tr_buffer_write_pos r' = tr_buffer_write_pos r1 \<or>
    l' = l\<lparr>tl_bufmgr := m2\<rparr> \<and> s' = s2 \<and> tr_buffer_write_pos r' = tr_buffer_write_pos r1 \<and> res = ResultComplete"
    using assms(5) a rm
    by (cases res) (auto simp: tl_handleReception_def tr_yieldErrorCount_def Let_def split: option.splits if_splits)
  then show ?thesis using i rs by auto
qed

lemma tl_insert:
  assumes "inv s" and "tl_wf (live s) l" and "kv_lookup receivers_type (tl_receivers l) key = None"
    and "key \<noteq> buffer_key_default"
    and "kv_insert A receivers_type key TransferReceiver (s, tl_receivers l) = (ok, s', rs)"
  shows "inv s' \<and> tl_wf (live s') (l\<lparr>tl_receivers := rs\<rparr>) \<and>
    live s' - tl_owned (l\<lparr>tl_receivers := rs\<rparr>) = live s - tl_owned l \<and>
    (ok \<longrightarrow> kv_lookup receivers_type rs key = Some TransferReceiver)"
proof -
  note w = assms(2) [unfolded tl_wf_def tl_linked_def]
  have k: "key \<noteq> mt_key receivers_type" using assms(4) by (simp add: receivers_type_def)
  have sp: "inv s'" "kv_inv receivers_type rs" "kv_owns live s' rs"
    "kv_others live s' rs = kv_others live s (tl_receivers l)"
    "kv_lookup receivers_type rs = (kv_lookup receivers_type (tl_receivers l))(key := if ok then Some TransferReceiver else None)"
    using kv_insert_spec [OF assms(1) _ _ k _ assms(5)] w receivers_NumKV by (auto simp: kv_owns_def)
  have o: "live s' - fst ` set rs = live s - fst ` set (tl_receivers l)" using sp(4) by (simp add: kv_others_def)
  have b: "bm_owned (tl_bufmgr l) \<subseteq> live s" "bm_owned (tl_bufmgr l) \<inter> fst ` set (tl_receivers l) = {}"
    using w by auto
  then have "bm_owned (tl_bufmgr l) \<subseteq> live s' - fst ` set rs" unfolding o by blast
  then have own: "bm_owned (tl_bufmgr l) \<union> fst ` set rs \<subseteq> live s'" "bm_owned (tl_bufmgr l) \<inter> fst ` set rs = {}"
    using sp(3) by (auto simp: kv_owns_def)
  have link: "tl_linked (l\<lparr>tl_receivers := rs\<rparr>)"
    using w sp(5) assms(3) by (auto simp: tl_linked_def TransferReceiver_def)
  have "live s' - tl_owned (l\<lparr>tl_receivers := rs\<rparr>) = live s - tl_owned l"
    using o unfolding tl_owned_def by auto
  then show ?thesis using sp(1,2,5) w own link by (simp add: tl_wf_def)
qed

lemma tl_handleFrame_wf:
  assumes "inv s" and "tl_wf (live s) l" and "length (fr_payload (rxf_frame rx)) \<le> PayloadCapacity"
    and "tl_handleFrame A mem rx (perf, s, l) = (it, perf', s', l')"
  shows "inv s' \<and> tl_wf (live s') l' \<and> live s' - tl_owned l' = live s - tl_owned l"
proof -
  let ?f = "rxf_frame rx"
  define key where "key = \<lparr>tbk_node_id = fr_src_node_id ?f, tbk_transfer_type = fr_transfer_type ?f\<rparr>"
  have step: "inv s2 \<and> tl_wf (live s2) l2 \<and> live s2 - tl_owned l2 = live s1 - tl_owned l1"
    if "inv s1" and "tl_wf (live s1) l1" and "\<not> buffer_key_isEmpty key"
      and "kv_lookup receivers_type (tl_receivers l1) key = Some recv"
      and "tl_handleReception A mem rx key recv (perf, s1, l1) = (it, r, perf', s2, l3)"
      and "l2 = l3\<lparr>tl_receivers := kv_update key r (tl_receivers l3)\<rparr>"
    for s1 l1 recv it r perf' s2 l3 l2
  proof -
    note hyp = that
    have b: "bm_ok s1 (tl_bufmgr l1)" using hyp(1,2) by (simp add: bm_ok_def tl_wf_def)
    have p: "unat (tr_buffer_write_pos recv) \<le> length (bm_bytes (tl_bufmgr l1) key)"
      using hyp(2,4) by (simp add: tl_wf_def tl_linked_def)
    obtain m' where m': "l3 = l1\<lparr>tl_bufmgr := m'\<rparr>" "bm_ok s2 m'"
      "live s2 - bm_owned m' = live s1 - bm_owned (tl_bufmgr l1)"
      "bm_others m' key = bm_others (tl_bufmgr l1) key" "unat (tr_buffer_write_pos r) \<le> length (bm_bytes m' key)"
      using tl_handleReception_spec [OF b hyp(3) p assms(3) hyp(5)] by blast
    show ?thesis
      using tl_update [OF hyp(2,4) m'(2-5)] m'(1,2) hyp(6) by (simp add: bm_ok_def)
  qed
  show ?thesis
  proof (cases "node_id_isUnicast (fr_src_node_id ?f)")
    case False
    then show ?thesis using assms
      by (auto simp: tl_handleFrame_def tl_handleAnonymousTransferReception_def Let_def split: if_splits)
  next
    case True
    have ke: "\<not> buffer_key_isEmpty key" "key \<noteq> buffer_key_default"
      using True by (auto simp: key_def buffer_key_isEmpty_def node_id_isUnicast_def node_id_isValid_def
          buffer_key_default_def node_id_invalid_def node_id_Max_def)
    have acc: "kv_access key (tl_receivers l) = kv_lookup receivers_type (tl_receivers l) key"
      using ke(2) by (intro kv_access_lookup) (simp add: receivers_type_def)
    show ?thesis
    proof (cases "kv_lookup receivers_type (tl_receivers l) key")
      case (Some recv)
      obtain it1 r p1 s1 l1 where h: "tl_handleReception A mem rx key recv (perf, s, l) = (it1, r, p1, s1, l1)"
        by (metis prod_cases5)
      have "s' = s1" "l' = l1\<lparr>tl_receivers := kv_update key r (tl_receivers l1)\<rparr>"
        using assms(4) True Some acc h by (auto simp: tl_handleFrame_def key_def [symmetric] Let_def)
      then show ?thesis using step [OF assms(1,2) ke(1) Some h] by blast
    next
      case None
      obtain ok s1 rs where i: "kv_insert A receivers_type key TransferReceiver (s, tl_receivers l) = (ok, s1, rs)"
        by (metis prod_cases3)
      note ins = tl_insert [OF assms(1,2) None ke(2) i]
      obtain it1 r p1 s2 l2 where h: "tl_handleReception A mem rx key TransferReceiver
          (perf, s1, l\<lparr>tl_receivers := rs\<rparr>) = (it1, r, p1, s2, l2)" by (metis prod_cases5)
      consider "s' = s" "l' = l" | "s' = s1" "l' = l\<lparr>tl_receivers := rs\<rparr>"
        | "ok" "s' = s2" "l' = l2\<lparr>tl_receivers := kv_update key r (tl_receivers l2)\<rparr>"
        using assms(4) True None acc i h
        by (auto simp: tl_handleFrame_def key_def [symmetric] Let_def split: if_splits)
      then show ?thesis
      proof cases
        case 3
        then show ?thesis using ins step [OF _ _ ke(1) _ h] by simp
      qed (use assms(1,2) ins in auto)
    qed
  qed
qed

lemma tl_fold_remove:
  assumes "bm_ok s m"
    and "kv_fold (\<lambda>k r sm. if tr_isTimedOut ts r then bm_remove A k sm else sm) (s, m) es = (s1, m1)"
  shows "bm_ok s1 m1 \<and> live s1 - bm_owned m1 = live s - bm_owned m \<and>
    (\<forall>k. bm_lookup m1 k = (if \<exists>r. (k, r) \<in> set es \<and> tr_isTimedOut ts r then None else bm_lookup m k))"
  using assms
proof (induction es arbitrary: s m)
  case Nil
  then show ?case by (simp add: kv_fold_def)
next
  case (Cons e es)
  obtain s2 m2 where r: "(if tr_isTimedOut ts (snd e) then bm_remove A (fst e) (s, m) else (s, m)) = (s2, m2)"
    by (metis surj_pair)
  have f: "kv_fold (\<lambda>k r sm. if tr_isTimedOut ts r then bm_remove A k sm else sm) (s2, m2) es = (s1, m1)"
    using Cons.prems(2) r by (simp add: kv_fold_def)
  have 2: "bm_ok s2 m2" "live s2 - bm_owned m2 = live s - bm_owned m"
    "bm_lookup m2 = (if tr_isTimedOut ts (snd e) then (bm_lookup m)(fst e := None) else bm_lookup m)"
    using bm_remove_spec [OF Cons.prems(1), of "fst e" s2 m2] r Cons.prems(1) by (auto split: if_splits)
  note 3 = Cons.IH [OF 2(1) f]
  moreover have "bm_lookup m1 k = (if \<exists>r. (k, r) \<in> set (e # es) \<and> tr_isTimedOut ts r then None else bm_lookup m k)" for k
    using 3 2(3) by (cases e) (auto split: if_splits)
  ultimately show ?case using 2(2) by simp
qed

lemma tl_cleanup_spec:
  assumes "inv s" and "tl_wf (live s) l" and "tl_cleanup A ts (s, l) = (s', l')"
  shows "inv s' \<and> tl_wf (live s') l' \<and> live s' - tl_owned l' = live s - tl_owned l \<and>
    kv_lookup receivers_type (tl_receivers l') =
      (\<lambda>k. case kv_lookup receivers_type (tl_receivers l) k of
             Some r \<Rightarrow> if tr_isTimedOut ts r then None else Some r | None \<Rightarrow> None) \<and>
    (\<forall>k. bm_lookup (tl_bufmgr l') k =
      (if kv_lookup receivers_type (tl_receivers l') k = None then None else bm_lookup (tl_bufmgr l) k))"
proof -
  let ?T = receivers_type and ?R = "tl_receivers l" and ?m = "tl_bufmgr l"
  let ?P = "\<lambda>k r. tr_isTimedOut ts r" and ?f = "\<lambda>k r sm. if tr_isTimedOut ts r then bm_remove A k sm else sm"
  have w: "bm_ok s ?m" "kv_inv ?T ?R" "fst ` set ?R \<subseteq> live s" "bm_owned ?m \<inter> fst ` set ?R = {}" "tl_linked l"
    using assms(1,2) by (auto simp: tl_wf_def bm_ok_def)
  have p: "tl_timed_out_predicate A ts = (\<lambda>k r sm. (?P k r, ?f k r sm))"
    by (auto simp: tl_timed_out_predicate_def fun_eq_iff)
  obtain s2 m2 rs where c: "kv_removeAllWhere A ?T (\<lambda>k r sm. (?P k r, ?f k r sm)) (s, ?m) ?R = ((s2, m2), rs)"
    by (cases "kv_removeAllWhere A ?T (\<lambda>k r sm. (?P k r, ?f k r sm)) (s, ?m) ?R", case_tac a) simp
  then have out: "s' = s2" "l' = l\<lparr>tl_bufmgr := m2, tl_receivers := rs\<rparr>"
    using assms(3) by (auto simp: tl_cleanup_def p)
  note e = kv_removeAllWhere_eq [OF w(2) c]
  obtain ds s1 where d: "kv_fold ?f (s, ?m) (kv_entries ?T ?R) = (s1, m2)" "s2 = deallocate_all A s1 ds"
    "distinct (ds @ map fst rs)" "set (ds @ map fst rs) = set (map fst ?R)"
    using e(3) by blast
  note fo = tl_fold_remove [OF w(1) d(1)]
  have dist: "distinct (map fst (kv_entries ?T ?R))" using w(2) by (simp add: kv_inv_def)
  have look: "kv_lookup ?T rs k = (case kv_lookup ?T ?R k of
      Some r \<Rightarrow> if tr_isTimedOut ts r then None else Some r | None \<Rightarrow> None)" for k
    using map_of_filter_pairs [OF dist, of "\<lambda>r. \<not> tr_isTimedOut ts r" k]
    by (simp add: kv_lookup_def e(2) split: option.splits)
  have mem: "(k, r) \<in> set (kv_entries ?T ?R) \<longleftrightarrow> kv_lookup ?T ?R k = Some r" for k r
    using dist by (simp add: kv_lookup_def)
  have dead: "(\<exists>r. (k, r) \<in> set (kv_entries ?T ?R) \<and> tr_isTimedOut ts r) \<longleftrightarrow>
      kv_lookup ?T ?R k \<noteq> None \<and> kv_lookup ?T rs k = None" for k
    by (auto simp: mem look split: option.splits)
  have bl: "bm_lookup m2 k = (if kv_lookup ?T rs k = None then None else bm_lookup ?m k)" for k
    using fo dead [of k] w(5) look [of k] by (auto simp: tl_linked_def)
  have ds: "set ds \<subseteq> fst ` set ?R" "fst ` set rs = fst ` set ?R - set ds" using d(3,4) by auto
  have live1: "fst ` set ?R \<subseteq> live s1 - bm_owned m2" using fo w(3,4) by auto
  then have "set ds \<subseteq> live s1" using ds(1) by blast
  moreover have "inv s1" "distinct ds" using fo d(3) by (auto simp: bm_ok_def)
  ultimately have l2: "inv s2" "live s2 = live s1 - set ds"
    unfolding d(2) using deallocate_all_live by blast+
  have b2: "bm_owned m2 \<subseteq> live s1" "live s1 - bm_owned m2 = live s - bm_owned ?m"
    using fo by (auto simp: bm_ok_def)
  have own: "bm_owned m2 \<subseteq> live s2" "fst ` set rs \<subseteq> live s2" "bm_owned m2 \<inter> fst ` set rs = {}"
    unfolding l2(2) ds(2) using b2(1) live1 ds(1) by blast+
  have "tl_linked l'"
    using w(5) bl look by (auto simp: tl_linked_def out bm_bytes_def split: option.splits if_splits)
  moreover have "live s2 - tl_owned l' = live s - tl_owned l"
  proof -
    have "live s2 - tl_owned l' = (live s1 - bm_owned m2) - fst ` set ?R"
      using ds by (auto simp: tl_owned_def out l2(2))
    then show ?thesis unfolding b2(2) by (auto simp: tl_owned_def)
  qed
  ultimately show ?thesis
    using own l2 e(1) fo look bl by (auto simp: tl_wf_def out bm_ok_def)
qed

end

section \<open>The frames of a transfer\<close>

definition rx_key :: "rx_frame \<Rightarrow> buffer_key" where
  "rx_key rx = \<lparr>tbk_node_id = fr_src_node_id (rxf_frame rx), tbk_transfer_type = fr_transfer_type (rxf_frame rx)\<rparr>"

text \<open>Feeding frames to a listener: the transfers that are handed over, in order.\<close>

fun tl_run ::
  "'s allocator_ops \<Rightarrow> (addr \<Rightarrow> nat \<Rightarrow> u8) \<Rightarrow> rx_frame list \<Rightarrow> perf_counter \<times> 's \<times> listener \<Rightarrow>
    incoming_transfer list \<times> perf_counter \<times> 's \<times> listener" where
  "tl_run A mem [] psl = ([], psl)"
| "tl_run A mem (rx # rxs) psl =
    (let (it, psl') = tl_handleFrame A mem rx psl; (its, psl'') = tl_run A mem rxs psl'
     in ((case it of Some t \<Rightarrow> [t] | None \<Rightarrow> []) @ its, psl''))"

lemma rx_tids:
  assumes "rx_first tid iface t0 rx" and "rx_rest tid iface t0 tog rxs"
  shows "\<forall>x \<in> set (rx # rxs). fr_transfer_id (rxf_frame x) = tid \<and> length (fr_payload (rxf_frame x)) \<le> PayloadCapacity"
proof -
  have "rx_rest tid iface t0 tog rxs \<Longrightarrow> \<forall>x \<in> set rxs. rx_follows tid iface t0 x"
    by (induction rxs arbitrary: tog) (auto split: if_splits)
  then show ?thesis using assms by (auto simp: rx_first_def rx_follows_def)
qed

lemma unicast_key:
  assumes "node_id_isUnicast (tbk_node_id key)"
  shows "\<not> buffer_key_isEmpty key" "key \<noteq> buffer_key_default" "key \<noteq> mt_key receivers_type"
  using assms by (auto simp: buffer_key_isEmpty_def node_id_isUnicast_def node_id_isValid_def
      buffer_key_default_def node_id_invalid_def node_id_Max_def receivers_type_def)

lemma tl_handleFrame_known:
  assumes "rx_key rx = key" and "node_id_isUnicast (tbk_node_id key)"
    and "kv_lookup receivers_type (tl_receivers l) key = Some recv"
  shows "tl_handleFrame A mem rx (perf, s, l) =
    (let (it, r, perf, s, l) = tl_handleReception A mem rx key recv (perf, s, l)
     in (it, perf, s, l\<lparr>tl_receivers := kv_update key r (tl_receivers l)\<rparr>))"
proof -
  have "kv_access key (tl_receivers l) = Some recv"
    using kv_access_lookup [OF unicast_key(3) [OF assms(2)]] assms(3) by simp
  then show ?thesis
    using assms(1,2) by (auto simp: tl_handleFrame_def rx_key_def Let_def)
qed

lemma tl_handleFrame_not_complete:
  assumes "rx_key rx = key" and "node_id_isUnicast (tbk_node_id key)"
    and "kv_lookup receivers_type (tl_receivers l) key = Some recv"
    and "tr_addFrame A mem key rx (recv, s, tl_bufmgr l) = (ResultNotComplete, r1, s1, m1)"
  shows "\<exists>perf1. tl_handleFrame A mem rx (perf, s, l) = (None, perf1, s1,
    l\<lparr>tl_bufmgr := m1, tl_receivers := kv_update key (tr_polled ResultNotComplete r1) (tl_receivers l)\<rparr>)"
  using assms(4) unfolding tl_handleFrame_known [OF assms(1-3)]
  by (simp add: tl_handleReception_def tr_yieldErrorCount_def tr_polled_def)

text \<open>As long as no transfer is completed, the listener does what the receiver does.\<close>

lemma tl_run_prefix:
  assumes "\<forall>x \<in> set rxs. rx_key x = key" and "rx_key rx = key" and "node_id_isUnicast (tbk_node_id key)"
    and "kv_inv receivers_type (tl_receivers l)" and "kv_lookup receivers_type (tl_receivers l) key = Some r"
    and "tr_run A mem key (rxs @ [rx]) (r, s, tl_bufmgr l) = (replicate (length rxs) ResultNotComplete @ [x], r', s', m')"
  shows "\<exists>perf1 s1 l1 r1 r2. tl_run A mem (rxs @ [rx]) (perf, s, l) =
      (let (it, psl) = tl_handleFrame A mem rx (perf1, s1, l1) in (case it of Some t \<Rightarrow> [t] | None \<Rightarrow> [], psl)) \<and>
    kv_inv receivers_type (tl_receivers l1) \<and> kv_lookup receivers_type (tl_receivers l1) key = Some r1 \<and>
    tl_crc_base l1 = tl_crc_base l \<and> tr_addFrame A mem key rx (r1, s1, tl_bufmgr l1) = (x, r2, s', m') \<and>
    r' = tr_polled x r2"
  using assms
proof (induction rxs arbitrary: perf s l r)
  case Nil
  obtain res r2 s2 m2 where a: "tr_addFrame A mem key rx (r, s, tl_bufmgr l) = (res, r2, s2, m2)"
    by (metis prod_cases4)
  then have "res = x" "r' = tr_polled res r2" "s' = s2" "m' = m2" using Nil.prems(6) by auto
  moreover have "tl_run A mem ([] @ [rx]) (perf, s, l) = (let (it, psl) = tl_handleFrame A mem rx (perf, s, l)
      in (case it of Some t \<Rightarrow> [t] | None \<Rightarrow> [], psl))"
    by (auto split: prod.splits)
  ultimately show ?case using a Nil.prems(4,5) by blast
next
  case (Cons y ys)
  obtain res r2 s2 m2 where a: "tr_addFrame A mem key y (r, s, tl_bufmgr l) = (res, r2, s2, m2)"
    by (metis prod_cases4)
  obtain rs3 r3 s3 m3 where b: "tr_run A mem key (ys @ [rx]) (tr_polled res r2, s2, m2) = (rs3, r3, s3, m3)"
    by (metis prod_cases4)
  have e: "res = ResultNotComplete" "rs3 = replicate (length ys) ResultNotComplete @ [x]"
    "r3 = r'" "s3 = s'" "m3 = m'"
    using Cons.prems(6) a b by auto
  let ?l = "l\<lparr>tl_bufmgr := m2, tl_receivers := kv_update key (tr_polled res r2) (tl_receivers l)\<rparr>"
  obtain perf1 where h: "tl_handleFrame A mem y (perf, s, l) = (None, perf1, s2, ?l)"
    using tl_handleFrame_not_complete [of y key l r A mem s r2 s2 m2 perf] Cons.prems(1,3,5) a e(1) by auto
  note u = kv_update_spec [OF Cons.prems(4) unicast_key(3) [OF Cons.prems(3)] Cons.prems(5), of "tr_polled res r2"]
  have "tl_run A mem ((y # ys) @ [rx]) (perf, s, l) = tl_run A mem (ys @ [rx]) (perf1, s2, ?l)"
    using h by (auto split: prod.splits)
  moreover have "\<forall>x \<in> set ys. rx_key x = key" using Cons.prems(1) by simp
  ultimately show ?case
    using Cons.IH [of ?l "tr_polled res r2" s2 perf1] Cons.prems(2,3) u b e by simp
qed

context pool_allocator
begin

lemma tl_handleFrame_complete:
  assumes "rx_key rx = key" and "node_id_isUnicast (tbk_node_id key)"
    and "kv_lookup receivers_type (tl_receivers l) key = Some recv"
    and "tr_addFrame A mem key rx (recv, s, tl_bufmgr l) = (ResultComplete, r1, s1, m1)"
    and "bm_ok s1 m1" and "bm_lookup m1 key = Some c" and "kv_inv receivers_type (tl_receivers l)"
    and "tl_handleFrame A mem rx (perf, s, l) = (it, perf', s', l')"
  shows "kv_lookup receivers_type (tl_receivers l') key = Some r1 \<and> tl_crc_base l' = tl_crc_base l \<and>
   (\<exists>tbb. te_wf tbb \<and> te_contents tbb = c \<and>
    (if crc_add_bytes (tl_crc_base l) c = tr_this_transfer_crc r1
     then it = Some (MultiFrameIncomingTransfer (tr_prev_transfer_ts r1) (tr_first_frame_ts r1) rx (Some tbb)) \<and>
       bm_lookup (tl_bufmgr l') key = None
     else it = None \<and> bm_lookup (tl_bufmgr l') key = Some c))"
proof -
  note u = kv_update_spec(2) [OF assms(7) unicast_key(3) [OF assms(2)] assms(3), of r1]
  have ke: "\<not> buffer_key_isEmpty key" by (rule unicast_key(1) [OF assms(2)])
  obtain tbb where t: "bm_findFirst key m1 = Some tbb" "te_contents tbb = c"
    using assms(6) by (auto simp: bm_lookup_def)
  have wf: "te_wf tbb"
    using assms(5) t(1) find_split [of "\<lambda>e. te_key e = key" "bm_buffers m1" tbb]
    by (fastforce simp: bm_ok_def bm_wf_def bm_findFirst_def)
  obtain s2 m2 where rm: "bm_remove A key (s1, m1) = (s2, m2)" by fastforce
  have "bm_lookup m2 key = None" using bm_remove_spec [OF assms(5) rm] by simp
  then show ?thesis
    using assms(4,6,8) t wf ke rm u tl_checkPayloadCrc_iff [OF wf, of l "tr_this_transfer_crc r1"]
    unfolding tl_handleFrame_known [OF assms(1-3)]
    by (intro conjI exI [of _ tbb])
      (auto simp: tl_handleReception_def bm_access_def tr_getLastTransferTimestampMonotonic_def split: if_splits)
qed

lemma tl_run_stale:
  assumes st: "inv s" "tl_wf (live s) l" "kv_lookup receivers_type (tl_receivers l) key = Some r"
    and first: "rx_first tid iface t0 rx" and rest: "rx_rest tid iface t0 True rxs"
    and keys: "\<forall>x \<in> set (rx # rxs). rx_key x = key" and uni: "node_id_isUnicast (tbk_node_id key)"
    and ts: "tr_prev_transfer_ts r \<le> t0" "tr_this_transfer_ts r \<le> t0"
    and acc: "tr_need_restart rx r \<or> tr_tid r = tid \<and> tr_iface_index r = iface \<and> \<not> tr_next_toggle r \<and>
      tr_buffer_write_pos r = 0"
    and payload: "payload = concat (map (\<lambda>rx. fr_payload (rxf_frame rx)) (rx # rxs))"
    and bytes: "bytes = drop crc_NumBytes payload"
    and c: "c = bytes @ drop (length bytes) (if tr_need_restart rx r then [] else bm_bytes (tl_bufmgr l) key)"
    and run: "tl_run A mem (rx # rxs) (perf, s, l) = (its, perf', s', l')"
    and bad: "crc_add_bytes (tl_crc_base l) c \<noteq> le16 (payload ! 0) (payload ! 1)"
  shows "its = []"
proof -
  have ok: "bm_ok s (tl_bufmgr l)" using st by (simp add: bm_ok_def tl_wf_def)
  have kvi: "kv_inv receivers_type (tl_receivers l)" using st by (simp add: tl_wf_def)
  have ke: "\<not> buffer_key_isEmpty key" by (rule unicast_key(1) [OF uni])
  obtain rs r1 s1 m1 where tr: "tr_run A mem key (rx # rxs) (r, s, tl_bufmgr l) = (rs, r1, s1, m1)"
    by (metis prod_cases4)
  obtain x where rs: "rs = replicate (length rxs) ResultNotComplete @ [x]" "x \<noteq> ResultSingleFrame" "bm_ok s1 m1"
    and res: "x = ResultComplete \<longrightarrow> bm_lookup m1 key = Some c \<and> tr_this_transfer_crc r1 = le16 (payload ! 0) (payload ! 1)"
    using tr_run_transfer [OF first rest ts acc ok ke tr] unfolding payload bytes c Let_def by blast
  have ne: "rxs \<noteq> []" using rest by auto
  have sp: "rx # rxs = (rx # butlast rxs) @ [last rxs]" using ne by simp
  have "length rxs = length (rx # butlast rxs)" using ne by (cases rxs) auto
  then have tr': "tr_run A mem key ((rx # butlast rxs) @ [last rxs]) (r, s, tl_bufmgr l) =
      (replicate (length (rx # butlast rxs)) ResultNotComplete @ [x], r1, s1, m1)"
    using tr rs sp by simp
  have k1: "\<forall>x \<in> set (rx # butlast rxs). rx_key x = key" "rx_key (last rxs) = key"
    using keys ne in_set_butlastD [of _ rxs] last_in_set [OF ne] by auto
  obtain perf2 s2 l2 r2 r3 where p: "tl_run A mem ((rx # butlast rxs) @ [last rxs]) (perf, s, l) =
      (let (it, psl) = tl_handleFrame A mem (last rxs) (perf2, s2, l2) in (case it of Some t \<Rightarrow> [t] | None \<Rightarrow> [], psl))"
    "kv_lookup receivers_type (tl_receivers l2) key = Some r2" "tl_crc_base l2 = tl_crc_base l"
    "kv_inv receivers_type (tl_receivers l2)"
    "tr_addFrame A mem key (last rxs) (r2, s2, tl_bufmgr l2) = (x, r3, s1, m1)" "r1 = tr_polled x r3"
    using tl_run_prefix [OF k1 uni kvi st(3) tr', of perf] by blast
  obtain it perf3 s3 l3 where h: "tl_handleFrame A mem (last rxs) (perf2, s2, l2) = (it, perf3, s3, l3)"
    by (metis prod_cases4)
  have out: "its = (case it of Some t \<Rightarrow> [t] | None \<Rightarrow> [])"
    using p(1) h run unfolding sp by simp
  show ?thesis
  proof (cases "x = ResultComplete")
    case True
    then have "r1 = r3" using p(6) by (simp add: tr_polled_def)
    then show ?thesis
      using tl_handleFrame_complete [OF k1(2) uni p(2) p(5) [unfolded True] rs(3) _ p(4) h] res True bad p(3) out
      by (auto split: if_splits)
  next
    case False
    then have "x = ResultNotComplete" using rs(2) by (cases x) auto
    then show ?thesis using tl_handleFrame_not_complete [OF k1(2) uni p(2), of A mem s2 r3 s1 m1 perf2] p(5) h out by auto
  qed
qed

lemma tl_run_wf:
  "inv s \<Longrightarrow> tl_wf (live s) l \<Longrightarrow> \<forall>x \<in> set rxs. length (fr_payload (rxf_frame x)) \<le> PayloadCapacity \<Longrightarrow>
    tl_run A mem rxs (perf, s, l) = (its, perf', s', l') \<Longrightarrow> inv s' \<and> tl_wf (live s') l'"
proof (induction rxs arbitrary: perf s l its)
  case (Cons rx rxs)
  obtain it perf1 s1 l1 where h: "tl_handleFrame A mem rx (perf, s, l) = (it, perf1, s1, l1)" by (metis prod_cases4)
  have "inv s1 \<and> tl_wf (live s1) l1" using tl_handleFrame_wf [OF Cons.prems(1,2) _ h] Cons.prems(3) by simp
  then show ?case using Cons.IH [of s1 l1 perf1] Cons.prems(3,4) h by (auto split: prod.splits)
qed simp

end

context bounded_allocator
begin

lemma tl_run_transfer:
  assumes st: "inv s" "tl_wf (live s) l" "kv_lookup receivers_type (tl_receivers l) key = Some r"
    and first: "rx_first tid iface t0 rx" and rest: "rx_rest tid iface t0 True rxs"
    and keys: "\<forall>x \<in> set (rx # rxs). rx_key x = key" and uni: "node_id_isUnicast (tbk_node_id key)"
    and ts: "tr_prev_transfer_ts r \<le> t0" "tr_this_transfer_ts r \<le> t0"
    and acc: "tr_need_restart rx r \<or> tr_tid r = tid \<and> tr_iface_index r = iface \<and> \<not> tr_next_toggle r \<and>
      tr_buffer_write_pos r = 0"
    and room: "tr_room key (length (concat (map (\<lambda>rx. fr_payload (rxf_frame rx)) (rx # rxs)))) (s, tl_bufmgr l)"
    and payload: "payload = concat (map (\<lambda>rx. fr_payload (rxf_frame rx)) (rx # rxs))"
    and bytes: "bytes = drop crc_NumBytes payload"
    and c: "c = bytes @ drop (length bytes) (if tr_need_restart rx r then [] else bm_bytes (tl_bufmgr l) key)"
    and run: "tl_run A mem (rx # rxs) (perf, s, l) = (its, perf', s', l')"
  shows "tl_crc_base l' = tl_crc_base l \<and>
   (\<exists>r'. kv_lookup receivers_type (tl_receivers l') key = Some r' \<and> tr_idle (tid_increment tid) iface t0 r' \<and>
     (tr_wf r \<and> unat tid < 32 \<longrightarrow> tr_wf r')) \<and>
   (\<exists>tbb utc. te_wf tbb \<and> te_contents tbb = c \<and>
    (if crc_add_bytes (tl_crc_base l) c = le16 (payload ! 0) (payload ! 1)
     then its = [MultiFrameIncomingTransfer t0 utc (last rxs) (Some tbb)] \<and> bm_lookup (tl_bufmgr l') key = None
     else its = [] \<and> bm_lookup (tl_bufmgr l') key = Some c))"
proof -
  have ok: "bm_ok s (tl_bufmgr l)" using st by (simp add: bm_ok_def tl_wf_def)
  have kvi: "kv_inv receivers_type (tl_receivers l)" using st by (simp add: tl_wf_def)
  have ke: "\<not> buffer_key_isEmpty key" by (rule unicast_key(1) [OF uni])
  obtain rs r1 s1 m1 where tr: "tr_run A mem key (rx # rxs) (r, s, tl_bufmgr l) = (rs, r1, s1, m1)"
    by (metis prod_cases4)
  have rs: "rs = replicate (length rxs) ResultNotComplete @ [ResultComplete]"
    by (rule tr_run_complete [OF first rest ts acc ok ke room tr])
  have res: "bm_ok s1 m1" "bm_lookup m1 key = Some c"
    "tr_this_transfer_crc r1 = le16 (payload ! 0) (payload ! 1)" "tr_idle (tid_increment tid) iface t0 r1"
    using tr_run_transfer [OF first rest ts acc ok ke tr] rs unfolding payload bytes c Let_def by auto
  have ne: "rxs \<noteq> []" using rest by auto
  have sp: "rx # rxs = (rx # butlast rxs) @ [last rxs]" using ne by simp
  have "length rxs = length (rx # butlast rxs)" using ne by (cases rxs) auto
  then have tr': "tr_run A mem key ((rx # butlast rxs) @ [last rxs]) (r, s, tl_bufmgr l) =
      (replicate (length (rx # butlast rxs)) ResultNotComplete @ [ResultComplete], r1, s1, m1)"
    using tr rs sp by simp
  have k1: "\<forall>x \<in> set (rx # butlast rxs). rx_key x = key" "rx_key (last rxs) = key"
    using keys ne in_set_butlastD [of _ rxs] last_in_set [OF ne] by auto
  obtain perf2 s2 l2 r2 r3 where p: "tl_run A mem ((rx # butlast rxs) @ [last rxs]) (perf, s, l) =
      (let (it, psl) = tl_handleFrame A mem (last rxs) (perf2, s2, l2) in (case it of Some t \<Rightarrow> [t] | None \<Rightarrow> [], psl))"
    "kv_lookup receivers_type (tl_receivers l2) key = Some r2" "tl_crc_base l2 = tl_crc_base l"
    "kv_inv receivers_type (tl_receivers l2)"
    "tr_addFrame A mem key (last rxs) (r2, s2, tl_bufmgr l2) = (ResultComplete, r3, s1, m1)"
    "r1 = tr_polled ResultComplete r3"
    using tl_run_prefix [OF k1 uni kvi st(3) tr', of perf] by blast
  obtain it perf3 s3 l3 where h: "tl_handleFrame A mem (last rxs) (perf2, s2, l2) = (it, perf3, s3, l3)"
    by (metis prod_cases4)
  have out: "its = (case it of Some t \<Rightarrow> [t] | None \<Rightarrow> [])" "l' = l3"
    using p(1) h run unfolding sp by simp_all
  have r3: "r1 = r3" using p(6) by (simp add: tr_polled_def)
  have "tr_wf r \<and> unat tid < 32 \<longrightarrow> tr_wf r1"
    using tr_run_wf [OF _ _ tr] rx_tids [OF first rest] by auto
  then show ?thesis
    using tl_handleFrame_complete [OF k1(2) uni p(2,5) res(1,2) p(4) h] p(3) out res(3,4) r3
    by (auto simp: tr_idle_def split: if_splits)
qed

lemma kv_insert_room:
  assumes "inv s" and "kv_lookup T m key = None" and "key \<noteq> mt_key T" and "mt_sizeof T \<le> MemPoolBlockSize"
    and "card (live s) < capacity" and "kv_insert A T key v (s, m) = (ok, s', m')"
  shows "ok \<and> card (live s') \<le> Suc (card (live s))"
proof -
  have "kv_findKey key m = None"
    using kv_access_lookup [OF assms(3), of m] assms(2) by (simp add: kv_access_def)
  then have r: "kv_remove A T key (s, m) = (s, m)" by (simp add: kv_remove_def)
  obtain o1 s1 where a: "op_allocate A s (mt_sizeof T) = (o1, s1)" by fastforce
  have "o1 \<noteq> None" using exhausted [OF assms(1,4)] a assms(5) by auto
  then obtain b where b: "o1 = Some b" by blast
  then have "live s1 = insert b (live s)" using allocate_some [OF assms(1)] a by blast
  then have "card (live s1) \<le> Suc (card (live s))" by (simp add: card_insert_le_m1 card_insert_if finite_live [OF assms(1)])
  then show ?thesis
    using assms(6) r a b by (auto simp: kv_insert_def kvg_instantiate_def split: option.splits)
qed

lemma tl_run_new_receiver:
  assumes st: "inv s" "tl_wf (live s) l" "kv_lookup receivers_type (tl_receivers l) key = None"
    and uni: "node_id_isUnicast (tbk_node_id key)" and key: "rx_key rx = key"
    and start: "fr_start_of_transfer (rxf_frame rx)" and room: "card (live s) < capacity"
  shows "\<exists>s1 l1. tl_run A mem (rx # rxs) (perf, s, l) = tl_run A mem (rx # rxs) (perf, s1, l1) \<and>
    inv s1 \<and> tl_wf (live s1) l1 \<and> live s1 - tl_owned l1 = live s - tl_owned l \<and>
    kv_lookup receivers_type (tl_receivers l1) key = Some TransferReceiver \<and>
    tl_bufmgr l1 = tl_bufmgr l \<and> tl_crc_base l1 = tl_crc_base l \<and> card (live s1) \<le> Suc (card (live s))"
proof -
  obtain ok s1 rs where i: "kv_insert A receivers_type key TransferReceiver (s, tl_receivers l) = (ok, s1, rs)"
    by (metis prod_cases3)
  let ?l = "l\<lparr>tl_receivers := rs\<rparr>"
  have "mt_sizeof receivers_type \<le> MemPoolBlockSize" by (simp add: receivers_type_def MemPoolBlockSize_def)
  then have c: "ok" "card (live s1) \<le> Suc (card (live s))"
    using kv_insert_room [OF st(1,3) unicast_key(3) [OF uni] _ room i] by auto
  have ins: "inv s1" "tl_wf (live s1) ?l" "live s1 - tl_owned ?l = live s - tl_owned l"
    "kv_lookup receivers_type rs key = Some TransferReceiver"
    using tl_insert [OF st unicast_key(2) [OF uni] i] c(1) by auto
  have acc: "kv_access key (tl_receivers l) = None"
    using kv_access_lookup [OF unicast_key(3) [OF uni], of "tl_receivers l"] st(3) by simp
  have "tl_handleFrame A mem rx (perf, s, l) =
      (let (it, r, perf, s, l) = tl_handleReception A mem rx key TransferReceiver (perf, s1, ?l)
       in (it, perf, s, l\<lparr>tl_receivers := kv_update key r (tl_receivers l)\<rparr>))"
    using acc uni start i c(1) key by (auto simp: tl_handleFrame_def rx_key_def Let_def)
  then have "tl_handleFrame A mem rx (perf, s, l) = tl_handleFrame A mem rx (perf, s1, ?l)"
    using tl_handleFrame_known [OF key uni, of ?l TransferReceiver A mem perf s1] ins(4) by simp
  then show ?thesis using ins c by (intro exI [of _ s1] exI [of _ ?l]) simp
qed

end

section \<open>Delivery\<close>

text \<open>
  The listener takes the frame for the beginning of a transfer: it has no receiver for the key, or one
  that restarts on the frame, or one that waits for its transfer ID and has no old bytes.
\<close>

definition tl_expects :: "listener \<Rightarrow> rx_frame \<Rightarrow> bool" where
  "tl_expects l rx =
    (case kv_lookup receivers_type (tl_receivers l) (rx_key rx) of
       None \<Rightarrow> True
     | Some r \<Rightarrow> tr_prev_transfer_ts r \<le> rxf_ts_mono rx \<and> tr_this_transfer_ts r \<le> rxf_ts_mono rx \<and>
         (tr_need_restart rx r \<or>
          tr_tid r = fr_transfer_id (rxf_frame rx) \<and> tr_iface_index r = rxf_iface_index rx \<and>
          \<not> tr_next_toggle r \<and> tr_buffer_write_pos r = 0 \<and> bm_bytes (tl_bufmgr l) (rx_key rx) = []))"

lemma fresh_need_restart: "tr_need_restart rx TransferReceiver"
  by (simp add: tr_need_restart_def tr_isInitialized_def TransferReceiver_def Let_def)

context bounded_allocator
begin

lemma tl_run_expected:
  assumes st: "inv s" "tl_wf (live s) l" and exp: "tl_expects l rx"
    and first: "rx_first tid iface t0 rx" and rest: "rx_rest tid iface t0 True rxs"
    and keys: "\<forall>x \<in> set (rx # rxs). rx_key x = key" and uni: "node_id_isUnicast (tbk_node_id key)"
    and payload: "payload = concat (map (\<lambda>rx. fr_payload (rxf_frame rx)) (rx # rxs))"
    and fit: "length payload \<le> unat (bm_max_buf_size (tl_bufmgr l))"
      "card (live s) + 2 + blocks_for (length payload) \<le> capacity"
    and run: "tl_run A mem (rx # rxs) (perf, s, l) = (its, perf', s', l')"
  shows "tl_crc_base l' = tl_crc_base l \<and>
   (\<exists>r'. kv_lookup receivers_type (tl_receivers l') key = Some r' \<and> tr_idle (tid_increment tid) iface t0 r' \<and>
     ((\<forall>r. kv_lookup receivers_type (tl_receivers l) key = Some r \<longrightarrow> tr_wf r) \<and> unat tid < 32 \<longrightarrow> tr_wf r')) \<and>
   (\<exists>tbb utc. te_wf tbb \<and> te_contents tbb = drop crc_NumBytes payload \<and>
    (if crc_add_bytes (tl_crc_base l) (drop crc_NumBytes payload) = le16 (payload ! 0) (payload ! 1)
     then its = [MultiFrameIncomingTransfer t0 utc (last rxs) (Some tbb)] \<and> bm_lookup (tl_bufmgr l') key = None
     else its = [] \<and> bm_lookup (tl_bufmgr l') key = Some (drop crc_NumBytes payload)))"
proof (cases "kv_lookup receivers_type (tl_receivers l) key")
  case (Some r)
  have k: "rx_key rx = key" using keys by simp
  have "card (bm_foreign (live s) (tl_bufmgr l) key) \<le> card (live s)"
    by (rule card_mono) (auto simp: bm_foreign_def finite_live [OF st(1)])
  then have room: "tr_room key (length payload) (s, tl_bufmgr l)" using fit by (simp add: tr_room_def)
  have ff: "rxf_ts_mono rx = t0" "fr_transfer_id (rxf_frame rx) = tid" "rxf_iface_index rx = iface"
    using first by (auto simp: rx_first_def)
  have acc: "tr_need_restart rx r \<or> tr_tid r = tid \<and> tr_iface_index r = iface \<and> \<not> tr_next_toggle r \<and>
      tr_buffer_write_pos r = 0"
    and ts: "tr_prev_transfer_ts r \<le> t0" "tr_this_transfer_ts r \<le> t0"
    and stale: "(if tr_need_restart rx r then [] else bm_bytes (tl_bufmgr l) key) = []"
    using exp Some k ff by (auto simp: tl_expects_def)
  have "drop crc_NumBytes payload = drop crc_NumBytes payload @
      drop (length (drop crc_NumBytes payload)) (if tr_need_restart rx r then [] else bm_bytes (tl_bufmgr l) key)"
    unfolding stale by simp
  from tl_run_transfer [OF st Some first rest keys uni ts acc room [unfolded payload] payload refl this run]
  show ?thesis using Some by auto
next
  case None
  have k: "rx_key rx = key" and start: "fr_start_of_transfer (rxf_frame rx)"
    using keys first by (auto simp: rx_first_def)
  have lt: "card (live s) < capacity" using fit(2) by simp
  obtain s1 l1 where n: "tl_run A mem (rx # rxs) (perf, s, l) = tl_run A mem (rx # rxs) (perf, s1, l1)"
    "inv s1" "tl_wf (live s1) l1" "kv_lookup receivers_type (tl_receivers l1) key = Some TransferReceiver"
    "tl_bufmgr l1 = tl_bufmgr l" "tl_crc_base l1 = tl_crc_base l" "card (live s1) \<le> Suc (card (live s))"
    using tl_run_new_receiver [OF st None uni k start lt, of mem rxs perf] by blast
  have "card (bm_foreign (live s1) (tl_bufmgr l) key) \<le> card (live s1)"
    by (rule card_mono) (auto simp: bm_foreign_def finite_live [OF n(2)])
  then have room: "tr_room key (length payload) (s1, tl_bufmgr l1)" using fit n(5,7) by (simp add: tr_room_def)
  have c: "drop crc_NumBytes payload = drop crc_NumBytes payload @
      drop (length (drop crc_NumBytes payload)) (if tr_need_restart rx TransferReceiver then [] else bm_bytes (tl_bufmgr l1) key)"
    by (simp add: fresh_need_restart)
  have ts: "tr_prev_transfer_ts TransferReceiver \<le> t0" "tr_this_transfer_ts TransferReceiver \<le> t0"
    by (simp_all add: TransferReceiver_def)
  have w: "tr_wf TransferReceiver"
    by (simp add: tr_wf_def TransferReceiver_def IfaceIndexNotSet_def MaxCanIfaces_def DefaultTransferIntervalMSec_def)
  show ?thesis
    using tl_run_transfer [OF n(2-4) first rest keys uni ts disjI1 [OF fresh_need_restart]
        room [unfolded payload] payload refl c, of mem perf its perf' s' l'] n(1,6) run w by auto
qed

end

section \<open>Histories\<close>

text \<open>Any number of listeners that share the memory of a node.\<close>

inductive tl_reachable :: "(addr \<Rightarrow> nat \<Rightarrow> u8) \<Rightarrow> pool \<times> listener list \<Rightarrow> bool" for mem where
  tl_init: "0 < n div b \<Longrightarrow> n div b \<le> 0xFFFF \<Longrightarrow>
    tl_reachable mem (PoolAllocator n b, map (\<lambda>(dt, mx). TransferListener dt mx) ts)"
| tl_frame: "tl_reachable mem (p, ls) \<Longrightarrow> i < length ls \<Longrightarrow> length (fr_payload (rxf_frame rx)) \<le> PayloadCapacity \<Longrightarrow>
    tl_handleFrame pool_ops mem rx (perf, p, ls ! i) = (it, perf', p', l') \<Longrightarrow> tl_reachable mem (p', ls[i := l'])"
| tl_clean: "tl_reachable mem (p, ls) \<Longrightarrow> i < length ls \<Longrightarrow>
    tl_cleanup pool_ops ts (p, ls ! i) = (p', l') \<Longrightarrow> tl_reachable mem (p', ls[i := l'])"

lemma TransferListener_wf: "tl_wf L (TransferListener dt mx)"
  by (simp add: tl_wf_def TransferListener_def bm_wf_def kv_inv_def tl_linked_def bm_owned_def
      bm_lookup_def bm_findFirst_def kv_lookup_def kv_entries_def)

text \<open>Each listener is well-formed, no two share a block, and every block in use belongs to one of them.\<close>

definition tls_wf :: "pool \<Rightarrow> listener list \<Rightarrow> bool" where
  "tls_wf p ls \<longleftrightarrow> pool_inv p \<and> (\<forall>i < length ls. tl_wf (pool_live p) (ls ! i)) \<and>
    (\<forall>i < length ls. \<forall>j < length ls. i \<noteq> j \<longrightarrow> tl_owned (ls ! i) \<inter> tl_owned (ls ! j) = {}) \<and>
    pool_live p = (\<Union>l \<in> set ls. tl_owned l)"

lemma tls_wfD:
  assumes "tls_wf p ls"
  shows "pool_inv p" "i < length ls \<Longrightarrow> tl_wf (pool_live p) (ls ! i)" "pool_live p = (\<Union>l \<in> set ls. tl_owned l)"
    "i < length ls \<Longrightarrow> j < length ls \<Longrightarrow> i \<noteq> j \<Longrightarrow> tl_owned (ls ! i) \<inter> tl_owned (ls ! j) = {}"
  using assms unfolding tls_wf_def by blast+

lemma tl_wf_owned: "tl_wf L l \<Longrightarrow> tl_owned l \<subseteq> L"
  by (simp add: tl_wf_def tl_owned_def)

lemma tl_wf_live: "tl_wf L l \<Longrightarrow> tl_owned l \<subseteq> L' \<Longrightarrow> tl_wf L' l"
  by (simp add: tl_wf_def tl_owned_def)

lemma union_update:
  assumes "i < length ls"
  shows "(\<Union>l \<in> set (ls[i := l']). f l) = f l' \<union> (\<Union>j \<in> {j. j < length ls \<and> j \<noteq> i}. f (ls ! j))"
proof -
  have "(\<Union>l \<in> set xs. f l) = (\<Union>j \<in> {..<length xs}. f (xs ! j))" for xs
    by (auto simp: in_set_conv_nth intro: nth_mem [THEN rev_bexI])
  moreover have "{..<length ls} = insert i {j. j < length ls \<and> j \<noteq> i}" using assms by auto
  ultimately show ?thesis using assms by simp
qed

lemma tls_wf_step:
  assumes "tls_wf p ls" and "i < length ls" and "pool_inv p'" and "tl_wf (pool_live p') l'"
    and "pool_live p' - tl_owned l' = pool_live p - tl_owned (ls ! i)"
  shows "tls_wf p' (ls[i := l'])"
proof -
  have own: "tl_owned (ls ! j) \<subseteq> pool_live p' - tl_owned l'" if "j < length ls" "j \<noteq> i" for j
  proof -
    note tls_wfD(2) [OF assms(1) that(1)] tls_wfD(4) [OF assms(1) that(1) assms(2) that(2)]
    then show ?thesis unfolding assms(5) using tl_wf_owned by blast
  qed
  have wf: "tl_wf (pool_live p') (ls[i := l'] ! j)" if "j < length ls" for j
  proof (cases "j = i")
    case False
    have "tl_owned (ls ! j) \<subseteq> pool_live p'" using own [OF that False] by blast
    then show ?thesis using tl_wf_live [OF tls_wfD(2) [OF assms(1) that]] False by simp
  qed (use assms(2,4) in simp)
  have dj: "tl_owned (ls[i := l'] ! j) \<inter> tl_owned (ls[i := l'] ! k) = {}" if "j < length ls" "k < length ls" "j \<noteq> k" for j k
  proof -
    note tls_wfD(4) [OF assms(1) that]
    then show ?thesis using assms(2) that own [of j] own [of k] by (cases "j = i"; cases "k = i") auto
  qed
  have "ls[i := ls ! i] = ls" by simp
  then have "pool_live p = tl_owned (ls ! i) \<union> (\<Union>j \<in> {j. j < length ls \<and> j \<noteq> i}. tl_owned (ls ! j))"
    using tls_wfD(3) [OF assms(1)] union_update [OF assms(2), of tl_owned "ls ! i"] by simp
  then have "pool_live p' = tl_owned l' \<union> (\<Union>j \<in> {j. j < length ls \<and> j \<noteq> i}. tl_owned (ls ! j))"
    using assms(5) own tl_wf_owned [OF assms(4)] by blast
  then have "pool_live p' = (\<Union>l \<in> set (ls[i := l']). tl_owned l)" using union_update [OF assms(2), of tl_owned l'] by simp
  then show ?thesis using assms(3) wf dj unfolding tls_wf_def length_list_update by blast
qed

lemma tl_reachable_wf: "tl_reachable mem (p, ls) \<Longrightarrow> tls_wf p ls"
proof (induction "(p, ls)" arbitrary: p ls rule: tl_reachable.induct)
  case (tl_init n b ts)
  have "tl_owned (TransferListener dt mx) = {}" for dt mx
    by (simp add: tl_owned_def TransferListener_def bm_owned_def)
  then show ?case
    using PoolAllocator_fresh [of n b] tl_init TransferListener_wf by (auto simp: tls_wf_def split: prod.splits)
next
  case (tl_frame p ls i rx perf it perf' p' l')
  have "pool_inv p" "tl_wf (pool_live p) (ls ! i)" using tls_wfD [OF tl_frame(2)] tl_frame(3) by blast+
  from pool.tl_handleFrame_wf [OF this tl_frame(4,5)] show ?case using tls_wf_step [OF tl_frame(2,3)] by blast
next
  case (tl_clean p ls i ts p' l')
  have "pool_inv p" "tl_wf (pool_live p) (ls ! i)" using tls_wfD [OF tl_clean(2)] tl_clean(3) by blast+
  from pool.tl_cleanup_spec [OF this tl_clean(4)] show ?case using tls_wf_step [OF tl_clean(2,3)] by blast
qed

lemma tl_destroy_live:
  assumes "pool_inv p" and "tl_wf (pool_live p) l"
  shows "pool_live (tl_destroy pool_ops (p, l)) = pool_live p - tl_owned l"
proof -
  let ?T = receivers_type and ?m = "tl_bufmgr l"
  have kvi: "kv_inv ?T (tl_receivers l)" and sub: "fst ` set (tl_receivers l) \<subseteq> pool_live p"
    and bw: "bm_wf ?m" and bs: "bm_owned ?m \<subseteq> pool_live p" and dj: "bm_owned ?m \<inter> fst ` set (tl_receivers l) = {}"
    using assms(2) by (auto simp: tl_wf_def)
  obtain p1 u rs where c: "kv_removeAllWhere pool_ops ?T (\<lambda>k r x. (True, x)) (p, ()) (tl_receivers l) = ((p1, u), rs)"
    by (cases "kv_removeAllWhere pool_ops ?T (\<lambda>k r x. (True, x)) (p, ()) (tl_receivers l)", case_tac a) simp
  note e = kv_removeAllWhere_eq [where P = "\<lambda>_ _. True" and f = "\<lambda>_ _ x. x", OF kvi c]
  have rs: "rs = []"
  proof (cases rs)
    case (Cons g gs)
    then have "\<exists>kv \<in> set (snd g). fst kv \<noteq> mt_key ?T" using e(1) by (auto simp: kv_inv_def)
    then have "kv_entries ?T rs \<noteq> []" using Cons by (auto simp: filter_empty_conv)
    then show ?thesis using e(2) by simp
  qed simp
  have fd: "kv_fold (\<lambda>_ _ x. x) x es = x" for x :: "pool \<times> unit" and es :: "(buffer_key \<times> receiver) list"
    by (induction es) (simp_all add: kv_fold_def)
  obtain ds where ds: "p1 = deallocate_all pool_ops p ds" "distinct ds" "set ds = fst ` set (tl_receivers l)"
    using e(3) rs fd by auto
  have l1: "pool_inv p1" "pool_live p1 = pool_live p - fst ` set (tl_receivers l)"
    using pool.deallocate_all_live [OF assms(1) ds(2)] ds(1,3) sub by auto
  have "pool_live (bm_destroy_all pool_ops p1 (bm_buffers ?m)) = pool_live p1 - bm_owned ?m"
    using bm_destroy_all_live [OF l1(1), of "bm_buffers ?m"] bw bs dj l1(2)
    by (auto simp: bm_wf_def bm_owned_def)
  moreover have "tl_destroy pool_ops (p, l) = bm_destroy_all pool_ops p1 (bm_buffers ?m)"
    using c by (simp add: tl_destroy_def kv_clear_def)
  ultimately show ?thesis using l1(2) by (auto simp: tl_owned_def)
qed

section \<open>Properties\<close>

lemma tl_run_delivers:
  assumes "node_pool_inv n p" and "tl_wf (pool_live p) l" and "tl_expects l rx"
    and "rx_first tid iface t0 rx" and "rx_rest tid iface t0 True rxs"
    and "\<forall>x \<in> set (rx # rxs). rx_key x = key" and "node_id_isUnicast (tbk_node_id key)"
    and "payload = concat (map (\<lambda>rx. fr_payload (rxf_frame rx)) (rx # rxs))"
    and "length payload \<le> unat (bm_max_buf_size (tl_bufmgr l))"
    and "card (pool_live p) + 2 + blocks_for (length payload) \<le> n"
    and "crc_add_bytes (tl_crc_base l) (drop crc_NumBytes payload) = le16 (payload ! 0) (payload ! 1)"
    and "tl_run pool_ops mem (rx # rxs) (perf, p, l) = (its, perf', p', l')"
  shows "\<exists>it. its = [it] \<and> it_ts_mono it = t0 \<and> it_transfer_id it = tid \<and> it_src_node_id it = tbk_node_id key \<and>
    it_transfer_type it = tbk_transfer_type key \<and>
    (\<forall>off len. off + len < 2 ^ 32 \<longrightarrow>
      it_read it off False len = Inr (take len (drop off (drop crc_NumBytes payload))))"
proof -
  obtain tbb utc where t: "te_wf tbb" "te_contents tbb = drop crc_NumBytes payload"
    "its = [MultiFrameIncomingTransfer t0 utc (last rxs) (Some tbb)]"
    using node_pool.tl_run_expected [OF assms(1-10,12)] assms(11) by auto
  have "last rxs \<in> set (rx # rxs)" using assms(5) by (cases rxs) auto
  then have "rx_key (last rxs) = key" "fr_transfer_id (rxf_frame (last rxs)) = tid"
    using assms(6) rx_tids [OF assms(4,5)] by auto
  then show ?thesis
    using t te_read_spec [OF t(1)]
    by (auto simp: MultiFrameIncomingTransfer_def it_read_def rx_key_def Let_def)
qed

text \<open>
  C4.  A listener hands over every transfer it expects: when the CRC in the first frame is that of the
  payload and memory suffices, its frames cause exactly one call of \<^verbatim>\<open>handleIncomingTransfer\<close>, whose
  transfer carries the source, the transfer ID and the timestamp of the first frame and reads back exactly the payload.
\<close>

theorem listener_delivers:
  assumes "node_pool_inv n p" and "tl_wf (pool_live p) l" and "tl_expects l rx"
    and "rx_first tid iface t0 rx" and "rx_rest tid iface t0 True rxs"
    and "\<forall>x \<in> set (rx # rxs). rx_key x = key" and "node_id_isUnicast (tbk_node_id key)"
    and "payload = concat (map (\<lambda>rx. fr_payload (rxf_frame rx)) (rx # rxs))"
    and "length payload \<le> unat (bm_max_buf_size (tl_bufmgr l))"
    and "card (pool_live p) + 2 + blocks_for (length payload) \<le> n"
    and "crc_add_bytes (tl_crc_base l) (drop crc_NumBytes payload) = le16 (payload ! 0) (payload ! 1)"
    and "tl_run pool_ops mem (rx # rxs) (perf, p, l) = (its, perf', p', l')"
  shows "\<exists>it. its = [it] \<and> it_ts_mono it = t0 \<and> it_transfer_id it = tid \<and> it_src_node_id it = tbk_node_id key \<and>
    it_transfer_type it = tbk_transfer_type key \<and>
    (\<forall>off len. off + len < 2 ^ 32 \<longrightarrow>
      it_read it off False len = Inr (take len (drop off (drop crc_NumBytes payload))))"
  using tl_run_delivers [OF assms] .

text \<open>
  C18.  In every history of frames and cleanups of listeners that share the memory of a node, no two listeners
  share a block, the blocks in use are exactly those of their receivers and buffers, a listener without
  receivers has no buffers (the assertion in \<^verbatim>\<open>cleanup\<close>), and the destructor of a listener returns exactly its
  blocks.
\<close>

theorem listener_cleanup_assertion:
  assumes "tl_reachable mem (p, ls)" and "i < length ls"
  shows "(kv_isEmpty receivers_type (tl_receivers (ls ! i)) \<longrightarrow> bm_isEmpty (tl_bufmgr (ls ! i))) \<and>
    (\<forall>j < length ls. j \<noteq> i \<longrightarrow> tl_owned (ls ! i) \<inter> tl_owned (ls ! j) = {}) \<and>
    pool_live p = (\<Union>l \<in> set ls. tl_owned l) \<and>
    pool_live (tl_destroy pool_ops (p, ls ! i)) = pool_live p - tl_owned (ls ! i)"
proof -
  note r = tl_reachable_wf [OF assms(1)]
  have w: "pool_inv p" "tl_wf (pool_live p) (ls ! i)" using tls_wfD [OF r] assms(2) by blast+
  have "bm_isEmpty (tl_bufmgr (ls ! i))" if "kv_isEmpty receivers_type (tl_receivers (ls ! i))"
  proof (rule ccontr)
    assume "\<not> bm_isEmpty (tl_bufmgr (ls ! i))"
    then obtain e es where "bm_buffers (tl_bufmgr (ls ! i)) = e # es"
      by (auto simp: bm_isEmpty_def bm_getNumBuffers_def neq_Nil_conv)
    then have "bm_lookup (tl_bufmgr (ls ! i)) (te_key e) \<noteq> None" by (simp add: bm_lookup_def bm_findFirst_def)
    moreover have "kv_entries receivers_type (tl_receivers (ls ! i)) = []"
      using that unfolding kv_isEmpty_def kv_find_def kv_entries_def
      by (simp add: find_None_all filter_empty_conv)
    then have "kv_lookup receivers_type (tl_receivers (ls ! i)) k = None" for k by (simp add: kv_lookup_def)
    ultimately show False using w(2) by (auto simp: tl_wf_def tl_linked_def)
  qed
  then show ?thesis using tls_wfD [OF r] assms(2) tl_destroy_live [OF w] by metis
qed

lemma idle_no_restart:
  assumes "tr_idle tid iface t0 r" and "tr_wf r" and "rx_first tid iface t1 rx" and "time_diff t1 t0 \<le> 1000"
  shows "\<not> tr_need_restart rx r"
proof -
  have f: "fr_transfer_id (rxf_frame rx) = tid" "rxf_iface_index rx = iface" "rxf_ts_mono rx = t1" "unat iface < 3"
    using assms(3) by (auto simp: rx_first_def MaxCanIfaces_def)
  have "int (unat (tr_transfer_interval_msec r)) < 65536" "1 \<le> int (unat (tr_transfer_interval_msec r))"
    using unat_u16_lt [of "tr_transfer_interval_msec r"] assms(2) unfolding tr_wf_def by linarith+
  then have "uint (tr_transfer_interval_msec r) < 65536" "1 \<le> uint (tr_transfer_interval_msec r)" by simp_all
  then have "1000 \<le> tr_getIfaceSwitchDelay r"
    by (simp add: tr_getIfaceSwitchDelay_def dur_fromMSec_def i64_def)
  moreover have "tr_getTidTimeout r = 1000000"
    by (simp add: tr_getTidTimeout_def dur_fromMSec_def i64_def DefaultTidTimeoutMSec_def)
  moreover have "tid_computeForwardDistance tid tid = 0" by (simp add: tid_computeForwardDistance_def)
  moreover have "tr_isInitialized r"
    using assms(1) f(4) by (auto simp: tr_isInitialized_def tr_idle_def IfaceIndexNotSet_def MaxCanIfaces_def)
  ultimately show ?thesis
    using assms(1,4) f by (simp add: tr_need_restart_def tr_idle_def tr_isTimedOut_def Let_def)
qed

text \<open>
  C32.  A transfer whose CRC is wrong leaves its bytes in the buffer, and the next transfer is written
  over them without clearing them.  So when a valid transfer that is shorter follows within a millisecond,
  the CRC is computed over its bytes and the rest of the old ones, and the valid transfer is lost as well
  (unless the two CRCs happen to be equal).
\<close>

theorem crc_error_loses_next_transfer:
  assumes "node_pool_inv n p" and "tl_wf (pool_live p) l" and "tl_expects l rx"
    and "\<forall>r. kv_lookup receivers_type (tl_receivers l) key = Some r \<longrightarrow> tr_wf r" and "unat tid < 32"
    and "rx_first tid iface t0 rx" and "rx_rest tid iface t0 True rxs"
    and "\<forall>x \<in> set (rx # rxs). rx_key x = key" and "node_id_isUnicast (tbk_node_id key)"
    and "payload = concat (map (\<lambda>rx. fr_payload (rxf_frame rx)) (rx # rxs))"
    and "length payload \<le> unat (bm_max_buf_size (tl_bufmgr l))"
    and "card (pool_live p) + 2 + blocks_for (length payload) \<le> n"
    and "bytes = drop crc_NumBytes payload"
    and "crc_add_bytes (tl_crc_base l) bytes \<noteq> le16 (payload ! 0) (payload ! 1)"
    and "tl_run pool_ops mem (rx # rxs) (perf, p, l) = (its, perf1, p1, l1)"
    and "rx_first (tid_increment tid) iface t1 rx'" and "rx_rest (tid_increment tid) iface t1 True rxs'"
    and "\<forall>x \<in> set (rx' # rxs'). rx_key x = key" and "t0 \<le> t1" and "time_diff t1 t0 \<le> 1000"
    and "payload' = concat (map (\<lambda>rx. fr_payload (rxf_frame rx)) (rx' # rxs'))"
    and "bytes' = drop crc_NumBytes payload'"
    and "crc_add_bytes (tl_crc_base l) bytes' = le16 (payload' ! 0) (payload' ! 1)"
    and "crc_add_bytes (tl_crc_base l) (bytes' @ drop (length bytes') bytes) \<noteq> crc_add_bytes (tl_crc_base l) bytes'"
    and "tl_run pool_ops mem (rx' # rxs') (perf1, p1, l1) = (its', perf2, p2, l2)"
  shows "its = [] \<and> its' = []"
proof -
  obtain r where r: "kv_lookup receivers_type (tl_receivers l1) key = Some r"
    "tr_idle (tid_increment tid) iface t0 r" "tr_wf r"
    and l1: "tl_crc_base l1 = tl_crc_base l" "its = []" "bm_lookup (tl_bufmgr l1) key = Some bytes"
    using node_pool.tl_run_expected [OF assms(1-3,6-12,15)] assms(4,5,13,14) by auto
  have w: "node_pool_inv n p1" "tl_wf (pool_live p1) l1"
    using node_pool.tl_run_wf [OF assms(1,2) _ assms(15)] rx_tids [OF assms(6,7)] by auto
  have nr: "\<not> tr_need_restart rx' r" by (rule idle_no_restart [OF r(2,3) assms(16,20)])
  have ts: "tr_prev_transfer_ts r \<le> t1" "tr_this_transfer_ts r \<le> t1"
    and acc: "tr_tid r = tid_increment tid \<and> tr_iface_index r = iface \<and> \<not> tr_next_toggle r \<and> tr_buffer_write_pos r = 0"
    using r(2) assms(19) by (auto simp: tr_idle_def)
  have "bytes' @ drop (length bytes') bytes = bytes' @ drop (length bytes')
      (if tr_need_restart rx' r then [] else bm_bytes (tl_bufmgr l1) key)"
    using nr l1(3) by (simp add: bm_bytes_def)
  then have "its' = []"
    using node_pool.tl_run_stale [OF w r(1) assms(16,17,18,9) ts disjI2 [OF acc] assms(21,22) _ assms(25)]
      assms(23,24) l1(1) by simp
  then show ?thesis using l1(2) by simp
qed

section \<open>Examples\<close>

text \<open>Frames of node 42 on interface 0, and a listener whose CRC starts from zero.\<close>

definition example_rx :: "u8 list \<Rightarrow> transfer_id \<Rightarrow> bool \<Rightarrow> time \<Rightarrow> rx_frame" where
  "example_rx payload tid start ts = \<lparr>rxf_frame = \<lparr>fr_payload = payload, fr_priority = 16,
     fr_transfer_type = TransferTypeMessageBroadcast, fr_data_type_id = 7, fr_src_node_id = 42,
     fr_dst_node_id = 0, fr_transfer_id = tid, fr_start_of_transfer = start, fr_end_of_transfer = (\<not> start),
     fr_toggle = (\<not> start)\<rparr>, rxf_ts_mono = ts, rxf_ts_utc = 0, rxf_iface_index = 0\<rparr>"

definition example_listener :: listener where
  "example_listener = (TransferListener \<lparr>dtd_signature = 0, dtd_full_name = None, dtd_kind = DataTypeKindMessage,
     dtd_id = 7\<rparr> 100)\<lparr>tl_crc_base := 0\<rparr>"

lemma example_listener_fresh:
  "tl_wf L example_listener" "kv_lookup receivers_type (tl_receivers example_listener) k = None"
  "tl_bufmgr example_listener = \<lparr>bm_buffers = [], bm_max_buf_size = 100\<rparr>" "tl_crc_base example_listener = 0"
  by (simp_all add: tl_wf_def example_listener_def TransferListener_def bm_wf_def kv_inv_def tl_linked_def
      bm_owned_def bm_lookup_def bm_findFirst_def kv_lookup_def kv_entries_def)

lemma example_rx_first:
  "2 \<le> length pl \<Longrightarrow> length pl \<le> 7 \<Longrightarrow> ts \<noteq> 0 \<Longrightarrow> rx_first tid 0 ts (example_rx pl tid True ts)"
  by (simp add: rx_first_def example_rx_def MaxCanIfaces_def crc_NumBytes_def PayloadCapacity_def)

lemma example_rx_rest:
  "length pl \<le> 7 \<Longrightarrow> ts \<noteq> 0 \<Longrightarrow> rx_rest tid 0 ts True [example_rx pl tid False ts]"
  by (simp add: rx_follows_def example_rx_def PayloadCapacity_def time_diff_def dur_fromMSec_def
      DefaultTidTimeoutMSec_def i64_def)

lemma example_rx_key: "rx_key (example_rx pl tid start ts) = example_key"
  by (simp add: rx_key_def example_rx_def example_key_def)

lemma example_key_unicast: "node_id_isUnicast (tbk_node_id example_key)"
  by (simp add: example_key_def node_id_isUnicast_def node_id_Max_def node_id_Broadcast_def)

lemma example_pool: "node_pool_inv 16 (PoolAllocator 1024 64)" "pool_live (PoolAllocator 1024 64) = {}"
  using PoolAllocator_fresh [of 1024 64]
  by (auto simp: node_pool_inv_def PoolAllocator_def MemPoolBlockSize_def)

lemma crc_zero: "crc_add 0 0 = 0" "crc_add 0 1 = 0x1021"
  by (simp_all add: crc_add_def crc_Table_def)

theorem listener_delivers_witness:
  "let (its, _) = tl_run pool_ops (\<lambda>_ _. 0) [example_rx [0, 0, 0, 0, 0, 0, 0] 3 True 1000, example_rx [0, 0] 3 False 1000]
     (TransferPerfCounter, PoolAllocator 1024 64, example_listener)
   in length its = 1 \<and> it_read (its ! 0) 0 False 64 = Inr [0, 0, 0, 0, 0, 0, 0]"
proof -
  let ?a = "example_rx [0, 0, 0, 0, 0, 0, 0] 3 True 1000" and ?b = "example_rx [0, 0] 3 False 1000"
  let ?p = "PoolAllocator 1024 64" and ?pl = "[0, 0, 0, 0, 0, 0, 0, 0, 0] :: u8 list"
  obtain its perf p l where run: "tl_run pool_ops (\<lambda>_ _. 0) [?a, ?b] (TransferPerfCounter, ?p, example_listener)
      = (its, perf, p, l)" by (metis prod_cases4)
  have e: "tl_expects example_listener ?a" by (simp add: tl_expects_def example_listener_fresh)
  have f: "rx_first 3 0 1000 ?a" by (rule example_rx_first) simp_all
  have r: "rx_rest 3 0 1000 True [?b]" by (rule example_rx_rest) simp_all
  have k: "\<forall>x \<in> set [?a, ?b]. rx_key x = example_key" by (simp add: example_rx_key)
  have pl: "?pl = concat (map (\<lambda>rx. fr_payload (rxf_frame rx)) [?a, ?b])"
    by (simp add: example_rx_def)
  have c: "length ?pl \<le> unat (bm_max_buf_size (tl_bufmgr example_listener))"
    "card (pool_live ?p) + 2 + blocks_for (length ?pl) \<le> 16"
    by (simp_all add: example_listener_fresh example_pool blocks_for_def block_Size_def MemPoolBlockSize_def sizeof_ptr_def)
  have crc: "crc_add_bytes (tl_crc_base example_listener) (drop crc_NumBytes ?pl) = le16 (?pl ! 0) (?pl ! 1)"
    by (simp add: example_listener_fresh crc_NumBytes_def crc_zero le16_def)
  obtain it where it: "its = [it]" "\<forall>off len. off + len < 2 ^ 32 \<longrightarrow>
      it_read it off False len = Inr (take len (drop off (drop crc_NumBytes ?pl)))"
    using listener_delivers [OF example_pool(1) example_listener_fresh(1) e f r k example_key_unicast pl c crc run] by blast
  have "it_read it 0 False 64 = Inr [0, 0, 0, 0, 0, 0, 0]"
    using it(2) [rule_format, of 0 64] by (simp add: crc_NumBytes_def)
  then show ?thesis unfolding run using it(1) by simp
qed

theorem listener_cleanup_assertion_witness:
  "let l = TransferListener \<lparr>dtd_signature = 0, dtd_full_name = None, dtd_kind = DataTypeKindMessage, dtd_id = 7\<rparr> 100;
       (it, perf, p, l') = tl_handleFrame pool_ops (\<lambda>_ _. 0) (example_rx [0, 0, 0, 0, 0, 0, 0] 3 True 1000)
         (TransferPerfCounter, PoolAllocator 1024 64, l);
       (it2, perf2, p2, l2) = tl_handleFrame pool_ops (\<lambda>_ _. 0) (example_rx [0, 0, 0, 0, 0, 0, 0] 3 True 1000) (perf, p, l)
   in pool_live p2 = tl_owned l' \<union> tl_owned l2 \<and> tl_owned l' \<inter> tl_owned l2 = {} \<and>
      pool_live (tl_destroy pool_ops (p2, l')) = tl_owned l2"
proof -
  let ?dt = "\<lparr>dtd_signature = 0, dtd_full_name = None, dtd_kind = DataTypeKindMessage, dtd_id = 7\<rparr>"
  let ?l = "TransferListener ?dt 100" and ?rx = "example_rx [0, 0, 0, 0, 0, 0, 0] 3 True 1000"
  have len: "length (fr_payload (rxf_frame ?rx)) \<le> PayloadCapacity" by (simp add: example_rx_def PayloadCapacity_def)
  obtain it perf p l' where h: "tl_handleFrame pool_ops (\<lambda>_ _. 0) ?rx (TransferPerfCounter, PoolAllocator 1024 64, ?l)
      = (it, perf, p, l')" by (metis prod_cases4)
  obtain it2 perf2 p2 l2 where h2: "tl_handleFrame pool_ops (\<lambda>_ _. 0) ?rx (perf, p, ?l) = (it2, perf2, p2, l2)"
    by (metis prod_cases4)
  have "tl_reachable (\<lambda>_ _. 0) (PoolAllocator 1024 64, [?l, ?l])"
    using tl_init [of 1024 64 "\<lambda>_ _. 0" "[(?dt, 100), (?dt, 100)]"] by simp
  from tl_frame [OF this _ len, of 0] h have "tl_reachable (\<lambda>_ _. 0) (p, [l', ?l])" by fastforce
  from tl_frame [OF this _ len, of 1] h2 have "tl_reachable (\<lambda>_ _. 0) (p2, [l', l2])" by fastforce
  from listener_cleanup_assertion [OF this, of 0] show ?thesis unfolding h h2 Let_def by (auto simp: h2)
qed

theorem crc_error_loses_next_transfer_witness:
  "let (its, st) = tl_run pool_ops (\<lambda>_ _. 0) [example_rx [1, 0, 0, 0, 0, 0, 0] 3 True 1000, example_rx [0, 1] 3 False 1000]
     (TransferPerfCounter, PoolAllocator 1024 64, example_listener);
     (its', _) = tl_run pool_ops (\<lambda>_ _. 0) [example_rx [0, 0, 0, 0, 0, 0, 0] 4 True 1500, example_rx [0] 4 False 1500] st
   in its = [] \<and> its' = []"
proof -
  let ?a = "example_rx [1, 0, 0, 0, 0, 0, 0] 3 True 1000" and ?b = "example_rx [0, 1] 3 False 1000"
  let ?c = "example_rx [0, 0, 0, 0, 0, 0, 0] 4 True 1500" and ?d = "example_rx [0] 4 False 1500"
  let ?p = "PoolAllocator 1024 64" and ?pl = "[1, 0, 0, 0, 0, 0, 0, 0, 1] :: u8 list" and ?pl' = "[0, 0, 0, 0, 0, 0, 0, 0] :: u8 list"
  obtain its perf p l where run: "tl_run pool_ops (\<lambda>_ _. 0) [?a, ?b] (TransferPerfCounter, ?p, example_listener)
      = (its, perf, p, l)" by (metis prod_cases4)
  obtain its' perf' p' l' where run': "tl_run pool_ops (\<lambda>_ _. 0) [?c, ?d] (perf, p, l) = (its', perf', p', l')"
    by (metis prod_cases4)
  have t: "tid_increment 3 = 4" by (simp add: tid_increment_def tid_Max_def tid_BitLen_def)
  have e: "tl_expects example_listener ?a" by (simp add: tl_expects_def example_listener_fresh)
  have w: "\<forall>r. kv_lookup receivers_type (tl_receivers example_listener) example_key = Some r \<longrightarrow> tr_wf r"
    by (simp add: example_listener_fresh)
  have f: "rx_first 3 0 1000 ?a" "rx_first (tid_increment 3) 0 1500 ?c"
    unfolding t by (rule example_rx_first; simp)+
  have r: "rx_rest 3 0 1000 True [?b]" "rx_rest (tid_increment 3) 0 1500 True [?d]"
    unfolding t by (rule example_rx_rest; simp)+
  have k: "\<forall>x \<in> set [?a, ?b]. rx_key x = example_key" "\<forall>x \<in> set [?c, ?d]. rx_key x = example_key"
    by (simp_all add: example_rx_key)
  have pl: "?pl = concat (map (\<lambda>rx. fr_payload (rxf_frame rx)) [?a, ?b])"
    "?pl' = concat (map (\<lambda>rx. fr_payload (rxf_frame rx)) [?c, ?d])"
    by (simp_all add: example_rx_def)
  have c: "length ?pl \<le> unat (bm_max_buf_size (tl_bufmgr example_listener))"
    "card (pool_live ?p) + 2 + blocks_for (length ?pl) \<le> 16"
    by (simp_all add: example_listener_fresh example_pool blocks_for_def block_Size_def MemPoolBlockSize_def sizeof_ptr_def)
  have b: "[0, 0, 0, 0, 0, 0, 1] = drop crc_NumBytes ?pl" "[0, 0, 0, 0, 0, 0] = drop crc_NumBytes ?pl'"
    by (simp_all add: crc_NumBytes_def)
  have crc: "crc_add_bytes (tl_crc_base example_listener) [0, 0, 0, 0, 0, 0, 1] \<noteq> le16 (?pl ! 0) (?pl ! 1)"
    "crc_add_bytes (tl_crc_base example_listener) [0, 0, 0, 0, 0, 0] = le16 (?pl' ! 0) (?pl' ! 1)"
    "crc_add_bytes (tl_crc_base example_listener) ([0, 0, 0, 0, 0, 0] @ drop (length [0, 0, 0, 0, 0, 0 :: u8]) [0, 0, 0, 0, 0, 0, 1])
      \<noteq> crc_add_bytes (tl_crc_base example_listener) [0, 0, 0, 0, 0, 0]"
    by (simp_all add: example_listener_fresh crc_zero le16_def)
  have ti: "(1000 :: time) \<le> 1500" "time_diff 1500 1000 \<le> 1000"
    by (simp_all add: time_diff_def i64_def word_le_nat_alt)
  have "its = [] \<and> its' = []"
    by (rule crc_error_loses_next_transfer [OF example_pool(1) example_listener_fresh(1) e w _ f(1) r(1) k(1)
        example_key_unicast pl(1) c b(1) crc(1) run f(2) r(2) k(2) ti pl(2) b(2) crc(2,3) run']) simp
  then show ?thesis unfolding run using run' by simp
qed

end
