(* ===== verification/CanIo.thy ===== *)
theory CanIo
  imports CanFrames LinkedLists PoolAllocators "HOL-Library.Monad_Syntax"
begin

text \<open>
  \<^verbatim>\<open>CanTxQueue\<close> and \<^verbatim>\<open>CanIOManager\<close> (include/uavcan/transport/can_io.hpp, src/transport/uc_can_io.cpp).
  The CAN driver and the system clock are interfaces that the platform implements: they are a
  parameter, a record of functions on a state of type \<open>'d\<close> whose calls the code makes one after another.
  A queue holds its entries in the order of the linked list, each with the block of memory it lives
  in; the linked list itself is verified in the theory of linked lists.
\<close>

unbundle bit_operations_syntax

section \<open>The platform\<close>

type_synonym can_io_flags = u16

definition CanIOFlagLoopback :: can_io_flags where
  "CanIOFlagLoopback = 1"

definition CanIOFlagAbortOnError :: can_io_flags where
  "CanIOFlagAbortOnError = 2"

record 'd platform =
  pf_getMonotonic :: "'d \<Rightarrow> time \<times> 'd"
  pf_getNumIfaces :: "'d \<Rightarrow> u8"
  pf_hasIface :: "'d \<Rightarrow> nat \<Rightarrow> bool"
  pf_select :: "can_select_masks \<Rightarrow> can_frame option list \<Rightarrow> time \<Rightarrow> 'd \<Rightarrow> int \<times> can_select_masks \<times> 'd"
  pf_send :: "nat \<Rightarrow> can_frame \<Rightarrow> time \<Rightarrow> can_io_flags \<Rightarrow> 'd \<Rightarrow> int \<times> 'd"
  pf_receive :: "nat \<Rightarrow> 'd \<Rightarrow> int \<times> (can_frame \<times> time \<times> time \<times> can_io_flags) \<times> 'd"
  pf_getErrorCount :: "'d \<Rightarrow> nat \<Rightarrow> u64"

section \<open>CanTxQueue\<close>

datatype qos = Volatile | Persistent

fun qos_value :: "qos \<Rightarrow> nat" where
  "qos_value Volatile = 0"
| "qos_value Persistent = 1"

record tx_entry =
  txe_addr :: addr
  txe_deadline :: time
  txe_frame :: can_frame
  txe_qos :: qos
  txe_flags :: can_io_flags

definition sizeof_tx_entry :: nat where
  "sizeof_tx_entry = 40"

definition txe_isExpired :: "time \<Rightarrow> tx_entry \<Rightarrow> bool" where
  "txe_isExpired timestamp e \<longleftrightarrow> timestamp > txe_deadline e"

definition txe_qosHigherThan :: "tx_entry \<Rightarrow> can_frame \<Rightarrow> qos \<Rightarrow> bool" where
  "txe_qosHigherThan e rhs_frame rhs_qos =
    (if txe_qos e \<noteq> rhs_qos then qos_value (txe_qos e) > qos_value rhs_qos
     else priorityHigherThan (txe_frame e) rhs_frame)"

definition txe_qosLowerThan :: "tx_entry \<Rightarrow> can_frame \<Rightarrow> qos \<Rightarrow> bool" where
  "txe_qosLowerThan e rhs_frame rhs_qos =
    (if txe_qos e \<noteq> rhs_qos then qos_value (txe_qos e) < qos_value rhs_qos
     else priorityLowerThan (txe_frame e) rhs_frame)"

record tx_queue =
  txq_queue :: "tx_entry list"
  txq_allocator :: limited
  txq_rejected_frames_cnt :: u32

definition CanTxQueue :: "nat \<Rightarrow> tx_queue" where
  "CanTxQueue allocator_quota =
    \<lparr>txq_queue = [], txq_allocator = LimitedPoolAllocator allocator_quota, txq_rejected_frames_cnt = 0\<rparr>"

definition txq_registerRejectedFrame :: "tx_queue \<Rightarrow> tx_queue" where
  "txq_registerRejectedFrame q =
    (if txq_rejected_frames_cnt q < - 1
     then q\<lparr>txq_rejected_frames_cnt := txq_rejected_frames_cnt q + 1\<rparr> else q)"

text \<open>The two calls of the allocator behind the quota.\<close>

definition txq_allocate :: "'s allocator_ops \<Rightarrow> 's \<times> tx_queue \<Rightarrow> addr option \<times> 's \<times> tx_queue" where
  "txq_allocate A sq =
    (let (s, q) = sq; (praw, l, s) = limited_allocate A (txq_allocator q, s) sizeof_tx_entry
     in (praw, s, q\<lparr>txq_allocator := l\<rparr>))"

definition txq_remove :: "'s allocator_ops \<Rightarrow> tx_entry \<Rightarrow> 's \<times> tx_queue \<Rightarrow> 's \<times> tx_queue" where
  "txq_remove A entry sq =
    (let (s, q) = sq;
         q = q\<lparr>txq_queue := remove_first (\<lambda>e. txe_addr e = txe_addr entry) (txq_queue q)\<rparr>;
         (l, s) = limited_deallocate A (txq_allocator q, s) (Some (txe_addr entry))
     in (s, q\<lparr>txq_allocator := l\<rparr>))"

text \<open>The loops of \<^verbatim>\<open>~CanTxQueue\<close> and of \<^verbatim>\<open>push\<close> run over the entries that were in the list at the start.\<close>

fun txq_destroy_loop :: "'s allocator_ops \<Rightarrow> tx_entry list \<Rightarrow> 's \<times> tx_queue \<Rightarrow> 's \<times> tx_queue" where
  "txq_destroy_loop A [] sq = sq"
| "txq_destroy_loop A (p # ps) sq = txq_destroy_loop A ps (txq_remove A p sq)"

definition txq_destroy :: "'s allocator_ops \<Rightarrow> 's \<times> tx_queue \<Rightarrow> 's \<times> tx_queue" where
  "txq_destroy A sq = txq_destroy_loop A (txq_queue (snd sq)) sq"

fun txq_expire_loop :: "'s allocator_ops \<Rightarrow> time \<Rightarrow> tx_entry list \<Rightarrow> 's \<times> tx_queue \<Rightarrow> 's \<times> tx_queue" where
  "txq_expire_loop A ts [] sq = sq"
| "txq_expire_loop A ts (p # ps) sq =
    txq_expire_loop A ts ps
      (if txe_isExpired ts p
       then (let (s, q) = sq in txq_remove A p (s, txq_registerRejectedFrame q)) else sq)"

fun txq_lowest_loop :: "tx_entry \<Rightarrow> tx_entry list \<Rightarrow> tx_entry" where
  "txq_lowest_loop lowestqos [] = lowestqos"
| "txq_lowest_loop lowestqos (p # ps) =
    txq_lowest_loop (if txe_qosHigherThan lowestqos (txe_frame p) (txe_qos p) then p else lowestqos) ps"

text \<open>The arbitration of \<^verbatim>\<open>push\<close> when there is no memory: nothing, or memory for the entry if it can be had.\<close>

definition txq_arbitrate ::
  "'s allocator_ops \<Rightarrow> can_frame \<Rightarrow> qos \<Rightarrow> 's \<times> tx_queue \<Rightarrow> addr option \<times> 's \<times> tx_queue" where
  "txq_arbitrate A frame qos sq =
    (let (s, q) = sq; q = txq_registerRejectedFrame q
     in case txq_queue q of
          [] \<Rightarrow> (None, s, q)
        | p # ps \<Rightarrow>
            (let lowestqos = txq_lowest_loop p (p # ps)
             in if txe_qosHigherThan lowestqos frame qos then (None, s, q)
                else txq_allocate A (txq_remove A lowestqos (s, q))))"

definition txq_push ::
  "'d platform \<Rightarrow> 's allocator_ops \<Rightarrow> can_frame \<Rightarrow> time \<Rightarrow> qos \<Rightarrow> can_io_flags \<Rightarrow>
    'd \<times> 's \<times> tx_queue \<Rightarrow> 'd \<times> 's \<times> tx_queue" where
  "txq_push D A frame tx_deadline qos flags dsq =
    (let (d, s, q) = dsq; (timestamp, d) = pf_getMonotonic D d
     in if timestamp \<ge> tx_deadline then (d, s, txq_registerRejectedFrame q)
        else
          (let (praw, s, q) = txq_allocate A (s, q);
               (praw, s, q) = (if praw = None
                               then txq_allocate A (txq_expire_loop A timestamp (txq_queue q) (s, q))
                               else (praw, s, q));
               (praw, s, q) = (if praw = None then txq_arbitrate A frame qos (s, q) else (praw, s, q))
           in case praw of
                None \<Rightarrow> (d, s, q)
              | Some a \<Rightarrow>
                  (let entry = \<lparr>txe_addr = a, txe_deadline = tx_deadline, txe_frame = frame,
                                txe_qos = qos, txe_flags = flags\<rparr>
                   in (d, s, q\<lparr>txq_queue :=
                          insert_before (\<lambda>e. priorityHigherThan frame (txe_frame e)) entry (txq_queue q)\<rparr>))))"

fun txq_peek_loop ::
  "'s allocator_ops \<Rightarrow> time \<Rightarrow> tx_entry list \<Rightarrow> 's \<times> tx_queue \<Rightarrow> tx_entry option \<times> 's \<times> tx_queue" where
  "txq_peek_loop A ts [] sq = (None, sq)"
| "txq_peek_loop A ts (p # ps) sq =
    (if txe_isExpired ts p
     then (let (s, q) = sq in txq_peek_loop A ts ps (txq_remove A p (s, txq_registerRejectedFrame q)))
     else (Some p, sq))"

definition txq_peek ::
  "'d platform \<Rightarrow> 's allocator_ops \<Rightarrow> 'd \<times> 's \<times> tx_queue \<Rightarrow> tx_entry option \<times> 'd \<times> 's \<times> tx_queue" where
  "txq_peek D A dsq =
    (let (d, s, q) = dsq; (timestamp, d) = pf_getMonotonic D d;
         (e, s, q) = txq_peek_loop A timestamp (txq_queue q) (s, q)
     in (e, d, s, q))"

definition txq_getTopPriorityPendingFrame :: "tx_queue \<Rightarrow> can_frame option" where
  "txq_getTopPriorityPendingFrame q =
    (case txq_queue q of [] \<Rightarrow> None | e # _ \<Rightarrow> Some (txe_frame e))"

definition txq_topPriorityHigherOrEqual :: "can_frame \<Rightarrow> tx_queue \<Rightarrow> bool" where
  "txq_topPriorityHigherOrEqual rhs_frame q =
    (case txq_queue q of [] \<Rightarrow> False | e # _ \<Rightarrow> \<not> priorityHigherThan rhs_frame (txe_frame e))"

definition txq_isEmpty :: "tx_queue \<Rightarrow> bool" where
  "txq_isEmpty q \<longleftrightarrow> txq_queue q = []"

section \<open>CanIOManager\<close>

record iface_counters =
  ic_frames_tx :: u64
  ic_frames_rx :: u64

record can_io =
  cio_tx_queues :: "tx_queue list"
  cio_counters :: "iface_counters list"
  cio_num_ifaces :: u8

text \<open>
  The constructor; the result \<^const>\<open>None\<close> is the call of \<^verbatim>\<open>handleFatalError\<close>, which does not return.
\<close>

definition CanIOManager :: "'d platform \<Rightarrow> 's allocator_ops \<Rightarrow> nat \<Rightarrow> 'd \<times> 's \<Rightarrow> can_io option" where
  "CanIOManager D A mem_blocks_per_iface ds =
    (let (d, s) = ds; num_ifaces = pf_getNumIfaces D d
     in if num_ifaces < 1 \<or> num_ifaces > 3 then None
        else
          (let mem_blocks = (if mem_blocks_per_iface = 0
                             then op_getBlockCapacity A s div (unat num_ifaces + 1) + 1
                             else mem_blocks_per_iface)
           in Some \<lparr>cio_tx_queues = replicate (unat num_ifaces) (CanTxQueue mem_blocks),
                    cio_counters = replicate 3 \<lparr>ic_frames_tx = 0, ic_frames_rx = 0\<rparr>,
                    cio_num_ifaces = num_ifaces\<rparr>))"

definition cio_sendToIface ::
  "'d platform \<Rightarrow> nat \<Rightarrow> can_frame \<Rightarrow> time \<Rightarrow> can_io_flags \<Rightarrow> 'd \<times> 's \<times> can_io \<Rightarrow> int \<times> 'd \<times> 's \<times> can_io" where
  "cio_sendToIface D i frame tx_deadline flags dsc =
    (let (d, s, c) = dsc
     in if \<not> pf_hasIface D d i then (- err_code ErrLogic, d, s, c)
        else
          (let (res, d) = pf_send D i frame tx_deadline flags d;
               c = (if res > 0
                    then c\<lparr>cio_counters := (cio_counters c)[i :=
                            (cio_counters c ! i)\<lparr>ic_frames_tx := ic_frames_tx (cio_counters c ! i) + of_int res\<rparr>]\<rparr>
                    else c)
           in (res, d, s, c)))"

definition cio_sendFromTxQueue ::
  "'d platform \<Rightarrow> 's allocator_ops \<Rightarrow> nat \<Rightarrow> 'd \<times> 's \<times> can_io \<Rightarrow> int \<times> 'd \<times> 's \<times> can_io" where
  "cio_sendFromTxQueue D A i dsc =
    (let (d, s, c) = dsc;
         (entry, d, s, q) = txq_peek D A (d, s, cio_tx_queues c ! i);
         c = c\<lparr>cio_tx_queues := (cio_tx_queues c)[i := q]\<rparr>
     in case entry of
          None \<Rightarrow> (0, d, s, c)
        | Some e \<Rightarrow>
            (let (res, d, s, c) = cio_sendToIface D i (txe_frame e) (txe_deadline e) (txe_flags e) (d, s, c)
             in if res > 0
                then (let (s, q) = txq_remove A e (s, cio_tx_queues c ! i)
                      in (res, d, s, c\<lparr>cio_tx_queues := (cio_tx_queues c)[i := q]\<rparr>))
                else (res, d, s, c)))"

definition cio_callSelect ::
  "'d platform \<Rightarrow> can_select_masks \<Rightarrow> can_frame option list \<Rightarrow> time \<Rightarrow> 'd \<Rightarrow>
    (uavcan_error + can_select_masks) \<times> 'd" where
  "cio_callSelect D in_masks pending_tx blocking_deadline d =
    (let (res, masks, d) = pf_select D in_masks pending_tx blocking_deadline d
     in if res < 0 then (Inl ErrDriver, d)
        else (Inr \<lparr>sm_read = sm_read masks AND sm_read in_masks, sm_write = sm_write masks AND sm_write in_masks\<rparr>, d))"

fun cio_pending_loop :: "tx_queue list \<Rightarrow> nat \<Rightarrow> u8 \<Rightarrow> u8" where
  "cio_pending_loop [] i write_mask = write_mask"
| "cio_pending_loop (q # qs) i write_mask =
    cio_pending_loop qs (Suc i) (if txq_isEmpty q then write_mask else write_mask OR push_bit i 1)"

definition cio_makePendingTxMask :: "can_io \<Rightarrow> u8" where
  "cio_makePendingTxMask c = cio_pending_loop (take (unat (cio_num_ifaces c)) (cio_tx_queues c)) 0 0"

text \<open>The frames that the driver gets to see, for \<^verbatim>\<open>send\<close> and for \<^verbatim>\<open>receive\<close>.\<close>

definition cio_pending_send :: "can_io \<Rightarrow> u8 \<Rightarrow> can_frame \<Rightarrow> can_frame option list" where
  "cio_pending_send c iface_mask frame =
    map (\<lambda>i. let q = cio_tx_queues c ! i
             in if i < unat (cio_num_ifaces c) then
                  (if bit iface_mask i
                   then (if txq_topPriorityHigherOrEqual frame q then txq_getTopPriorityPendingFrame q
                         else Some frame)
                   else txq_getTopPriorityPendingFrame q)
                else None) [0..<3]"

definition cio_pending_receive :: "can_io \<Rightarrow> can_frame option list" where
  "cio_pending_receive c =
    map (\<lambda>i. if i < unat (cio_num_ifaces c) then txq_getTopPriorityPendingFrame (cio_tx_queues c ! i)
             else None) [0..<3]"

text \<open>The transmission loop of \<^verbatim>\<open>send\<close>; it returns the mask and \<^verbatim>\<open>retval\<close>.\<close>

fun cio_tx_loop ::
  "'d platform \<Rightarrow> 's allocator_ops \<Rightarrow> can_frame \<Rightarrow> time \<Rightarrow> can_io_flags \<Rightarrow> u8 \<Rightarrow> nat list \<Rightarrow>
    u8 \<times> nat \<Rightarrow> 'd \<times> 's \<times> can_io \<Rightarrow> (u8 \<times> nat) \<times> 'd \<times> 's \<times> can_io" where
  "cio_tx_loop D A frame tx_deadline flags write [] mr dsc = (mr, dsc)"
| "cio_tx_loop D A frame tx_deadline flags write (i # is) mr dsc =
    (let (iface_mask, retval) = mr
     in if bit write i then
          (let (res, iface_mask, dsc) =
             (if bit iface_mask i then
                (let (res, dsc) = (if txq_topPriorityHigherOrEqual frame (cio_tx_queues (snd (snd dsc)) ! i)
                                   then cio_sendFromTxQueue D A i dsc else (0, dsc))
                 in if res \<le> 0 then
                      (let (res, dsc) = cio_sendToIface D i frame tx_deadline flags dsc
                       in (res, if res > 0 then iface_mask AND NOT (push_bit i 1) else iface_mask, dsc))
                    else (res, iface_mask, dsc))
              else (let (res, dsc) = cio_sendFromTxQueue D A i dsc in (res, iface_mask, dsc)))
           in cio_tx_loop D A frame tx_deadline flags write is
                (iface_mask, if res > 0 then retval + 1 else retval) dsc)
        else cio_tx_loop D A frame tx_deadline flags write is mr dsc)"

fun cio_push_loop ::
  "'d platform \<Rightarrow> 's allocator_ops \<Rightarrow> can_frame \<Rightarrow> time \<Rightarrow> qos \<Rightarrow> can_io_flags \<Rightarrow> u8 \<Rightarrow> nat list \<Rightarrow>
    'd \<times> 's \<times> can_io \<Rightarrow> 'd \<times> 's \<times> can_io" where
  "cio_push_loop D A frame tx_deadline qos flags iface_mask [] dsc = dsc"
| "cio_push_loop D A frame tx_deadline qos flags iface_mask (i # is) dsc =
    cio_push_loop D A frame tx_deadline qos flags iface_mask is
      (if bit iface_mask i
       then (let (d, s, c) = dsc;
                 (d, s, q) = txq_push D A frame tx_deadline qos flags (d, s, cio_tx_queues c ! i)
             in (d, s, c\<lparr>cio_tx_queues := (cio_tx_queues c)[i := q]\<rparr>))
       else dsc)"

text \<open>
  One turn of the loop of \<^verbatim>\<open>send\<close>: either its result or the mask and \<^verbatim>\<open>retval\<close> of the next turn.
\<close>

definition cio_send_turn ::
  "'d platform \<Rightarrow> 's allocator_ops \<Rightarrow> can_frame \<Rightarrow> time \<Rightarrow> time \<Rightarrow> qos \<Rightarrow> can_io_flags \<Rightarrow>
    u8 \<times> nat \<Rightarrow> 'd \<times> 's \<times> can_io \<Rightarrow> ((uavcan_error + nat) + (u8 \<times> nat)) \<times> 'd \<times> 's \<times> can_io" where
  "cio_send_turn D A frame tx_deadline blocking_deadline qos flags mr dsc =
    (let (iface_mask, retval) = mr; (d, s, c) = dsc
     in if iface_mask = 0 then (Inl (Inr retval), dsc)
        else
          (case cio_callSelect D \<lparr>sm_read = 0, sm_write = iface_mask OR cio_makePendingTxMask c\<rparr>
                  (cio_pending_send c iface_mask frame) blocking_deadline d of
             (Inl _, d) \<Rightarrow> (Inl (Inl ErrDriver), d, s, c)
           | (Inr masks, d) \<Rightarrow>
               (let ((iface_mask, retval), d, s, c) =
                      cio_tx_loop D A frame tx_deadline flags (sm_write masks) [0..<unat (cio_num_ifaces c)]
                        (iface_mask, retval) (d, s, c);
                    (now, d) = pf_getMonotonic D d;
                    timed_out = (now \<ge> blocking_deadline)
                in if timed_out
                   then (Inl (Inr retval),
                         cio_push_loop D A frame tx_deadline qos flags iface_mask [0..<unat (cio_num_ifaces c)] (d, s, c))
                   else (Inr (iface_mask, retval), d, s, c))))"

text \<open>The loop may run forever (a clock that stands still): not returning is the value \<^const>\<open>None\<close>.\<close>

partial_function (option) cio_send_loop ::
  "'d platform \<Rightarrow> 's allocator_ops \<Rightarrow> can_frame \<Rightarrow> time \<Rightarrow> time \<Rightarrow> qos \<Rightarrow> can_io_flags \<Rightarrow>
    u8 \<times> nat \<Rightarrow> 'd \<times> 's \<times> can_io \<Rightarrow> ((uavcan_error + nat) \<times> 'd \<times> 's \<times> can_io) option" where
  "cio_send_loop D A frame tx_deadline blocking_deadline qos flags mr dsc =
    (case cio_send_turn D A frame tx_deadline blocking_deadline qos flags mr dsc of
       (Inl r, dsc) \<Rightarrow> Some (r, dsc)
     | (Inr mr, dsc) \<Rightarrow> cio_send_loop D A frame tx_deadline blocking_deadline qos flags mr dsc)"

definition cio_send ::
  "'d platform \<Rightarrow> 's allocator_ops \<Rightarrow> can_frame \<Rightarrow> time \<Rightarrow> time \<Rightarrow> u8 \<Rightarrow> qos \<Rightarrow> can_io_flags \<Rightarrow>
    'd \<times> 's \<times> can_io \<Rightarrow> ((uavcan_error + nat) \<times> 'd \<times> 's \<times> can_io) option" where
  "cio_send D A frame tx_deadline blocking_deadline iface_mask qos flags dsc =
    (let all_ifaces_mask = push_bit (unat (cio_num_ifaces (snd (snd dsc)))) 1 - 1
     in cio_send_loop D A frame tx_deadline (min blocking_deadline tx_deadline) qos flags
          (iface_mask AND all_ifaces_mask, 0) dsc)"

fun cio_rx_write_loop ::
  "'d platform \<Rightarrow> 's allocator_ops \<Rightarrow> u8 \<Rightarrow> nat list \<Rightarrow> 'd \<times> 's \<times> can_io \<Rightarrow> 'd \<times> 's \<times> can_io" where
  "cio_rx_write_loop D A write [] dsc = dsc"
| "cio_rx_write_loop D A write (i # is) dsc =
    cio_rx_write_loop D A write is (if bit write i then snd (cio_sendFromTxQueue D A i dsc) else dsc)"

text \<open>The reading loop: a frame with its flags, or an error of the driver, or nothing.\<close>

fun cio_rx_read_loop ::
  "'d platform \<Rightarrow> u8 \<Rightarrow> nat list \<Rightarrow> 'd \<times> 's \<times> can_io \<Rightarrow>
    (uavcan_error + (nat \<times> can_rx_frame \<times> can_io_flags)) option \<times> 'd \<times> 's \<times> can_io" where
  "cio_rx_read_loop D read [] dsc = (None, dsc)"
| "cio_rx_read_loop D read (i # is) dsc =
    (if bit read i then
       (let (d, s, c) = dsc
        in if \<not> pf_hasIface D d i then cio_rx_read_loop D read is dsc
           else
             (let (res, (frame, ts_mono, ts_utc, flags), d) = pf_receive D i d
              in if res = 0 then cio_rx_read_loop D read is (d, s, c)
                 else
                   (let c = (if res > 0 \<and> flags AND CanIOFlagLoopback = 0
                             then c\<lparr>cio_counters := (cio_counters c)[i :=
                                     (cio_counters c ! i)\<lparr>ic_frames_rx := ic_frames_rx (cio_counters c ! i) + 1\<rparr>]\<rparr>
                             else c)
                    in (Some (if res < 0 then Inl ErrDriver
                              else Inr (nat res, \<lparr>rx_can = frame, rx_ts_mono = ts_mono, rx_ts_utc = ts_utc,
                                                  rx_iface_index = of_nat i\<rparr>, flags)),
                        d, s, c))))
     else cio_rx_read_loop D read is dsc)"

definition cio_receive_turn ::
  "'d platform \<Rightarrow> 's allocator_ops \<Rightarrow> time \<Rightarrow> 'd \<times> 's \<times> can_io \<Rightarrow>
    ((uavcan_error + (nat \<times> can_rx_frame \<times> can_io_flags) option) option) \<times> 'd \<times> 's \<times> can_io" where
  "cio_receive_turn D A blocking_deadline dsc =
    (let (d, s, c) = dsc; n = unat (cio_num_ifaces c)
     in case cio_callSelect D \<lparr>sm_read = push_bit n 1 - 1, sm_write = cio_makePendingTxMask c\<rparr>
               (cio_pending_receive c) blocking_deadline d of
          (Inl _, d) \<Rightarrow> (Some (Inl ErrDriver), d, s, c)
        | (Inr masks, d) \<Rightarrow>
            (let (d, s, c) = cio_rx_write_loop D A (sm_write masks) [0..<n] (d, s, c)
             in case cio_rx_read_loop D (sm_read masks) [0..<n] (d, s, c) of
                  (Some (Inl e), dsc) \<Rightarrow> (Some (Inl e), dsc)
                | (Some (Inr r), dsc) \<Rightarrow> (Some (Inr (Some r)), dsc)
                | (None, d, s, c) \<Rightarrow>
                    (let (now, d) = pf_getMonotonic D d
                     in if now \<ge> blocking_deadline then (Some (Inr None), d, s, c) else (None, d, s, c))))"

partial_function (option) cio_receive ::
  "'d platform \<Rightarrow> 's allocator_ops \<Rightarrow> time \<Rightarrow> 'd \<times> 's \<times> can_io \<Rightarrow>
    ((uavcan_error + (nat \<times> can_rx_frame \<times> can_io_flags) option) \<times> 'd \<times> 's \<times> can_io) option" where
  "cio_receive D A blocking_deadline dsc =
    (case cio_receive_turn D A blocking_deadline dsc of
       (Some r, dsc) \<Rightarrow> Some (r, dsc)
     | (None, dsc) \<Rightarrow> cio_receive D A blocking_deadline dsc)"

definition cio_getIfacePerfCounters :: "'d platform \<Rightarrow> nat \<Rightarrow> 'd \<times> 's \<times> can_io \<Rightarrow> u64 \<times> u64 \<times> u64" where
  "cio_getIfacePerfCounters D i dsc =
    (let (d, s, c) = dsc
     in if \<not> pf_hasIface D d i \<or> i \<ge> 3 then (0, 0, 0)
        else (ic_frames_tx (cio_counters c ! i), ic_frames_rx (cio_counters c ! i),
              pf_getErrorCount D d i + ucast (txq_rejected_frames_cnt (cio_tx_queues c ! i))))"

section \<open>The order of the queue\<close>

text \<open>
  The queue is sorted by the arbitration on the bus; an entry never stands before one that would win
  against it.
\<close>

definition txq_sorted :: "tx_entry list \<Rightarrow> bool" where
  "txq_sorted es \<longleftrightarrow> sorted_wrt (\<lambda>a b. \<not> priorityHigherThan (txe_frame b) (txe_frame a)) es"

lemma txq_sorted_arb:
  "txq_sorted es \<longleftrightarrow> sorted_wrt (\<lambda>a b. arbitration_field (txe_frame a) \<le> arbitration_field (txe_frame b)) es"
  by (simp add: txq_sorted_def priority_arbitration not_less)

lemma txq_sorted_filter: "txq_sorted es \<Longrightarrow> txq_sorted (filter P es)"
  by (simp add: txq_sorted_def sorted_wrt_filter)

lemma txq_sorted_insert:
  "txq_sorted es \<Longrightarrow> txq_sorted (insert_before (\<lambda>e. priorityHigherThan (txe_frame n) (txe_frame e)) n es)"
  unfolding txq_sorted_arb priority_arbitration by (induction es) fastforce+

lemma filter_notin_image: "a \<notin> f ` set xs \<Longrightarrow> filter (\<lambda>x. f x \<noteq> a) xs = xs"
  by (induction xs) auto

lemma remove_first_addr:
  "distinct (map txe_addr es) \<Longrightarrow>
    remove_first (\<lambda>e. txe_addr e = a) es = filter (\<lambda>e. txe_addr e \<noteq> a) es"
proof (induction es)
  case (Cons e es)
  then have "txe_addr e = a \<Longrightarrow> filter (\<lambda>e. txe_addr e \<noteq> a) es = es"
    by (auto simp: filter_notin_image)
  then show ?case using Cons by auto
qed simp

definition txq_addrs :: "tx_queue \<Rightarrow> addr set" where
  "txq_addrs q = txe_addr ` set (txq_queue q)"

lemma txq_registerRejected_queue [simp]:
  "txq_queue (txq_registerRejectedFrame q) = txq_queue q"
  "txq_allocator (txq_registerRejectedFrame q) = txq_allocator q"
  "txq_addrs (txq_registerRejectedFrame q) = txq_addrs q"
  by (simp_all add: txq_registerRejectedFrame_def txq_addrs_def)

lemma distinct_insert_before:
  "distinct (map f es) \<Longrightarrow> f n \<notin> f ` set es \<Longrightarrow> distinct (map f (insert_before Q n es))"
  by (induction es) auto

lemma txq_lowest_in: "txq_lowest_loop l ps \<in> insert l (set ps)"
  by (induction l ps rule: txq_lowest_loop.induct) auto

text \<open>
  What an insertion does to the queue: entries leave it only if they have expired or if their quality of
  service is not higher than that of the new frame.
\<close>

definition txq_admits :: "time \<Rightarrow> can_frame \<Rightarrow> qos \<Rightarrow> tx_queue \<Rightarrow> tx_queue \<Rightarrow> tx_entry option \<Rightarrow> bool" where
  "txq_admits now frame qos q q' new \<longleftrightarrow>
    (\<exists>P. txq_queue q' = (case new of
          Some n \<Rightarrow> insert_before (\<lambda>e. priorityHigherThan frame (txe_frame e)) n (filter P (txq_queue q))
        | None \<Rightarrow> filter P (txq_queue q)) \<and>
      (\<forall>e \<in> set (txq_queue q). \<not> P e \<longrightarrow> txe_isExpired now e \<or> \<not> txe_qosHigherThan e frame qos))"

context pool_allocator
begin

definition txq_ok :: "'s \<Rightarrow> tx_queue \<Rightarrow> bool" where
  "txq_ok s q \<longleftrightarrow> inv s \<and> txq_sorted (txq_queue q) \<and> distinct (map txe_addr (txq_queue q)) \<and> txq_addrs q \<subseteq> live s"

lemma txq_ok_rejected [simp]: "txq_ok s (txq_registerRejectedFrame q) = txq_ok s q"
  by (simp add: txq_ok_def)

lemma txq_allocate_spec:
  assumes "txq_ok s q" and "txq_allocate A (s, q) = (r, s', q')"
  shows "txq_ok s' q' \<and> txq_queue q' = txq_queue q \<and>
    (case r of Some a \<Rightarrow> a \<notin> live s \<and> live s' = insert a (live s) | None \<Rightarrow> live s' = live s)"
proof -
  obtain r1 s1 where a: "op_allocate A s sizeof_tx_entry = (r1, s1)" by fastforce
  have i: "inv s" using assms(1) by (simp add: txq_ok_def)
  have sp: "inv s1 \<and> (case r1 of Some a \<Rightarrow> a \<notin> live s \<and> live s1 = insert a (live s) | None \<Rightarrow> live s1 = live s)"
    using allocate_some [OF i, of sizeof_tx_entry "the r1" s1] allocate_none [OF i, of sizeof_tx_entry s1] a
    by (cases r1) auto
  have "txq_queue q' = txq_queue q" "r = r1 \<and> s' = s1 \<or> r = None \<and> s' = s"
    using assms(2) a by (auto simp: txq_allocate_def limited_allocate_def Let_def split: if_splits prod.splits)
  then show ?thesis using assms(1) sp by (cases r1) (auto simp: txq_ok_def txq_addrs_def)
qed

lemma txq_remove_spec:
  assumes "txq_ok s q" and "e \<in> set (txq_queue q)" and "txq_remove A e (s, q) = (s', q')"
  shows "txq_ok s' q' \<and> txq_queue q' = filter (\<lambda>x. txe_addr x \<noteq> txe_addr e) (txq_queue q) \<and>
    live s' = live s - {txe_addr e} \<and> live s' - txq_addrs q' = live s - txq_addrs q"
proof -
  have d: "distinct (map txe_addr (txq_queue q))" "txe_addr e \<in> live s" "inv s"
    using assms(1,2) by (auto simp: txq_ok_def txq_addrs_def)
  have s': "s' = op_deallocate A s (Some (txe_addr e))"
    and q': "txq_queue q' = filter (\<lambda>x. txe_addr x \<noteq> txe_addr e) (txq_queue q)"
    using assms(3) remove_first_addr [OF d(1)]
    by (auto simp: txq_remove_def limited_deallocate_def Let_def split: if_splits)
  have l: "inv s'" "live s' = live s - {txe_addr e}" using deallocate_some [OF d(3,2)] s' by auto
  have a: "txq_addrs q' = txq_addrs q - {txe_addr e}" by (auto simp: txq_addrs_def q')
  then have "live s' - txq_addrs q' = live s - txq_addrs q" using l assms(2) by (auto simp: txq_addrs_def)
  moreover have "txq_ok s' q'"
    using l a assms(1) q' by (auto simp: txq_ok_def txq_sorted_filter distinct_map_filter)
  ultimately show ?thesis using l q' by simp
qed

text \<open>The loops over the entries of the queue.\<close>

lemma txq_expire_loop_spec:
  assumes "txq_ok s q" and "txq_queue q = us @ ps" and "\<forall>u \<in> set us. \<not> txe_isExpired ts u"
    and "txq_expire_loop A ts ps (s, q) = (s', q')"
  shows "txq_ok s' q' \<and> txq_queue q' = filter (\<lambda>e. \<not> txe_isExpired ts e) (txq_queue q) \<and>
    live s' - txq_addrs q' = live s - txq_addrs q"
  using assms
proof (induction ps arbitrary: us s q)
  case Nil
  then show ?case by (auto simp: filter_id_conv)
next
  case (Cons p ps)
  show ?case
  proof (cases "txe_isExpired ts p")
    case True
    obtain s1 q1 where r: "txq_remove A p (s, txq_registerRejectedFrame q) = (s1, q1)" by fastforce
    have sp: "txq_ok s1 q1" "txq_queue q1 = filter (\<lambda>x. txe_addr x \<noteq> txe_addr p) (txq_queue q)"
      "live s1 - txq_addrs q1 = live s - txq_addrs q"
      using txq_remove_spec [OF _ _ r] Cons.prems(1,2) by auto
    have "distinct (map txe_addr (us @ p # ps))" using Cons.prems(1,2) by (simp add: txq_ok_def)
    then have q1: "txq_queue q1 = us @ ps" using sp(2) Cons.prems(2) by (auto simp: filter_notin_image)
    have "txq_expire_loop A ts ps (s1, q1) = (s', q')" using Cons.prems(4) True r by simp
    from Cons.IH [OF sp(1) q1 Cons.prems(3) this] show ?thesis
      using sp(3) q1 True Cons.prems(2,3) by (simp add: filter_id_conv)
  next
    case False
    then show ?thesis using Cons.IH [of s q "us @ [p]"] Cons.prems by auto
  qed
qed

lemma txq_peek_loop_spec:
  assumes "txq_ok s q" and "txq_peek_loop A ts (txq_queue q) (s, q) = (e, s', q')"
  shows "txq_ok s' q' \<and> txq_queue q' = dropWhile (txe_isExpired ts) (txq_queue q) \<and>
    live s' - txq_addrs q' = live s - txq_addrs q \<and>
    e = (case txq_queue q' of [] \<Rightarrow> None | x # _ \<Rightarrow> Some x)"
  using assms
proof (induction "txq_queue q" arbitrary: s q)
  case Nil
  then show ?case by auto
next
  case (Cons p ps)
  show ?case
  proof (cases "txe_isExpired ts p")
    case True
    obtain s1 q1 where r: "txq_remove A p (s, txq_registerRejectedFrame q) = (s1, q1)" by fastforce
    have "p \<in> set (txq_queue q)" using Cons.hyps(2) by (metis list.set_intros(1))
    then have sp: "txq_ok s1 q1" "txq_queue q1 = filter (\<lambda>x. txe_addr x \<noteq> txe_addr p) (txq_queue q)"
      "live s1 - txq_addrs q1 = live s - txq_addrs q"
      using txq_remove_spec [OF _ _ r] Cons.prems(1) by auto
    have "distinct (map txe_addr (p # ps))" using Cons.prems(1) Cons.hyps(2) by (simp add: txq_ok_def)
    then have q1: "ps = txq_queue q1" using sp(2) by (simp add: Cons.hyps(2) [symmetric] filter_notin_image)
    have "txq_peek_loop A ts (txq_queue q1) (s1, q1) = (e, s', q')"
      using Cons.prems(2) True r q1 by (simp add: Cons.hyps(2) [symmetric])
    from Cons.hyps(1) [OF q1 sp(1) this] show ?thesis
      using sp(3) q1 True by (simp add: Cons.hyps(2) [symmetric])
  next
    case False
    then have "e = Some p" "s' = s" "q' = q"
      using Cons.prems(2) by (auto simp: Cons.hyps(2) [symmetric])
    then show ?thesis using False Cons.prems(1) by (simp add: Cons.hyps(2) [symmetric])
  qed
qed

lemma txq_arbitrate_spec:
  assumes "txq_ok s q" and "txq_arbitrate A frame qos (s, q) = (r, s', q')"
  shows "txq_ok s' q' \<and>
    (case r of Some a \<Rightarrow> a \<notin> txq_addrs q' \<and> a \<in> live s' \<and> live s' - insert a (txq_addrs q') = live s - txq_addrs q
     | None \<Rightarrow> live s' - txq_addrs q' = live s - txq_addrs q) \<and>
    (\<exists>P. txq_queue q' = filter P (txq_queue q) \<and>
       (\<forall>e \<in> set (txq_queue q). \<not> P e \<longrightarrow> \<not> txe_qosHigherThan e frame qos))"
proof (cases "txq_queue q")
  case Nil
  then show ?thesis using assms by (auto simp: txq_arbitrate_def Let_def)
next
  case (Cons p ps)
  define low where "low = txq_lowest_loop p (p # ps)"
  show ?thesis
  proof (cases "txe_qosHigherThan low frame qos")
    case True
    then have "r = None" "s' = s" "q' = txq_registerRejectedFrame q"
      using assms(2) Cons by (auto simp: txq_arbitrate_def Let_def low_def)
    then show ?thesis using assms(1) by (auto intro!: exI [of _ "\<lambda>_. True"])
  next
    case False
    obtain s1 q1 where rm: "txq_remove A low (s, txq_registerRejectedFrame q) = (s1, q1)" by fastforce
    have al: "txq_allocate A (s1, q1) = (r, s', q')"
      using assms(2) Cons False rm by (simp add: txq_arbitrate_def Let_def low_def)
    have mem: "low \<in> set (txq_queue q)" using txq_lowest_in [of p "p # ps"] Cons by (auto simp: low_def)
    have sp: "txq_ok s1 q1" "txq_queue q1 = filter (\<lambda>x. txe_addr x \<noteq> txe_addr low) (txq_queue q)"
      "live s1 - txq_addrs q1 = live s - txq_addrs q"
      using txq_remove_spec [OF _ _ rm] assms(1) mem by auto
    note a = txq_allocate_spec [OF sp(1) al]
    have addr: "txe_addr e \<noteq> txe_addr low \<or> e = low" if "e \<in> set (txq_queue q)" for e
      using assms(1) that mem by (auto simp: txq_ok_def distinct_map dest: inj_onD)
    have q': "txq_addrs q' = txq_addrs q1" "txq_addrs q1 \<subseteq> live s1" using a sp(1) by (auto simp: txq_addrs_def txq_ok_def)
    have "txq_queue q' = filter (\<lambda>x. txe_addr x \<noteq> txe_addr low) (txq_queue q) \<and>
       (\<forall>e \<in> set (txq_queue q). \<not> txe_addr e \<noteq> txe_addr low \<longrightarrow> \<not> txe_qosHigherThan e frame qos)"
      using a sp(2) addr False by auto
    moreover have "case r of Some a \<Rightarrow> a \<notin> txq_addrs q' \<and> a \<in> live s' \<and> live s' - insert a (txq_addrs q') = live s - txq_addrs q
     | None \<Rightarrow> live s' - txq_addrs q' = live s - txq_addrs q"
      using a sp(3) q' by (auto split: option.splits)
    ultimately show ?thesis using a by blast
  qed
qed

lemma txq_push_spec:
  assumes ok: "txq_ok s q" and push: "txq_push D A frame dl qos flags (d, s, q) = (d', s', q')"
  shows "txq_ok s' q' \<and> live s' - txq_addrs q' = live s - txq_addrs q \<and>
    (\<exists>new. txq_admits (fst (pf_getMonotonic D d)) frame qos q q' new \<and>
      (case new of Some n \<Rightarrow> txe_frame n = frame \<and> txe_deadline n = dl \<and> txe_qos n = qos \<and> txe_flags n = flags
       | None \<Rightarrow> True))"
proof -
  obtain now d1 where clk: "pf_getMonotonic D d = (now, d1)" by fastforce
  show ?thesis
  proof (cases "now \<ge> dl")
    case True
    then have "s' = s" "q' = txq_registerRejectedFrame q" using push clk by (auto simp: txq_push_def)
    then show ?thesis using ok by (auto simp: txq_admits_def intro!: exI [of _ None] exI [of _ "\<lambda>_. True"])
  next
    case False
    obtain r1 s1 q1 where a1: "txq_allocate A (s, q) = (r1, s1, q1)" by (metis prod_cases3)
    obtain s2 q2 where ex: "txq_expire_loop A now (txq_queue q1) (s1, q1) = (s2, q2)" by fastforce
    obtain r3 s3 q3 where a3: "(if r1 = None then txq_allocate A (s2, q2) else (r1, s1, q1)) = (r3, s3, q3)"
      by (metis prod_cases3)
    obtain r4 s4 q4 where a4: "(if r3 = None then txq_arbitrate A frame qos (s3, q3) else (r3, s3, q3)) = (r4, s4, q4)"
      by (metis prod_cases3)
    let ?new = "\<lambda>a. \<lparr>txe_addr = a, txe_deadline = dl, txe_frame = frame, txe_qos = qos, txe_flags = flags\<rparr>"
    have out: "s' = s4 \<and> (case r4 of None \<Rightarrow> q' = q4 | Some a \<Rightarrow>
        q' = q4\<lparr>txq_queue := insert_before (\<lambda>e. priorityHigherThan frame (txe_frame e)) (?new a) (txq_queue q4)\<rparr>)"
      using push clk False a1 ex a3 a4
      by (auto simp: txq_push_def Let_def split: option.splits if_splits)
    have g1: "txq_ok s1 q1" "txq_queue q1 = txq_queue q"
      "case r1 of Some a \<Rightarrow> a \<notin> live s \<and> live s1 = insert a (live s) | None \<Rightarrow> live s1 = live s"
      using txq_allocate_spec [OF ok a1] by auto
    have g2: "txq_ok s2 q2" "txq_queue q2 = filter (\<lambda>e. \<not> txe_isExpired now e) (txq_queue q)"
      "live s2 - txq_addrs q2 = live s1 - txq_addrs q1"
      using txq_expire_loop_spec [OF g1(1) append_Nil [symmetric] _ ex] g1(2) by auto
    have g3: "txq_ok s3 q3 \<and> (\<exists>P. txq_queue q3 = filter P (txq_queue q) \<and> (\<forall>e. \<not> P e \<longrightarrow> txe_isExpired now e)) \<and>
      (case r3 of Some a \<Rightarrow> a \<notin> txq_addrs q3 \<and> a \<in> live s3 \<and> live s3 - insert a (txq_addrs q3) = live s - txq_addrs q
       | None \<Rightarrow> live s3 - txq_addrs q3 = live s - txq_addrs q)"
    proof (cases r1)
      case None
      then have al: "txq_allocate A (s2, q2) = (r3, s3, q3)" using a3 by simp
      note sp = txq_allocate_spec [OF g2(1) al]
      have l: "live s2 - txq_addrs q2 = live s - txq_addrs q" using g2(3) g1(2,3) None by (simp add: txq_addrs_def)
      have ad: "txq_addrs q3 = txq_addrs q2" "txq_addrs q2 \<subseteq> live s2" using sp g2(1) by (auto simp: txq_addrs_def txq_ok_def)
      then show ?thesis using sp g2(2) l
        by (cases r3) (auto intro!: exI [of _ "\<lambda>e. \<not> txe_isExpired now e"])
    next
      case (Some a)
      then have "r3 = r1" "s3 = s1" "q3 = q1" using a3 by auto
      moreover have "txq_addrs q1 \<subseteq> live s" using ok g1(2) by (simp add: txq_ok_def txq_addrs_def)
      moreover have "txq_addrs q1 = txq_addrs q" using g1(2) by (simp add: txq_addrs_def)
      ultimately show ?thesis using g1 Some by (auto intro!: exI [of _ "\<lambda>_. True"])
    qed
    have g4: "txq_ok s4 q4 \<and>
      (\<exists>P. txq_queue q4 = filter P (txq_queue q) \<and>
        (\<forall>e \<in> set (txq_queue q). \<not> P e \<longrightarrow> txe_isExpired now e \<or> \<not> txe_qosHigherThan e frame qos)) \<and>
      (case r4 of Some a \<Rightarrow> a \<notin> txq_addrs q4 \<and> a \<in> live s4 \<and> live s4 - insert a (txq_addrs q4) = live s - txq_addrs q
       | None \<Rightarrow> live s4 - txq_addrs q4 = live s - txq_addrs q)"
    proof (cases r3)
      case None
      then have ar: "txq_arbitrate A frame qos (s3, q3) = (r4, s4, q4)" using a4 by simp
      obtain P where P: "txq_queue q3 = filter P (txq_queue q)" "\<forall>e. \<not> P e \<longrightarrow> txe_isExpired now e" using g3 by blast
      have sp: "txq_ok s4 q4" "case r4 of Some a \<Rightarrow> a \<notin> txq_addrs q4 \<and> a \<in> live s4 \<and>
          live s4 - insert a (txq_addrs q4) = live s3 - txq_addrs q3 | None \<Rightarrow> live s4 - txq_addrs q4 = live s3 - txq_addrs q3"
        using txq_arbitrate_spec [OF conjunct1 [OF g3] ar] by auto
      obtain R where R: "txq_queue q4 = filter R (txq_queue q3)"
        "\<forall>e \<in> set (txq_queue q3). \<not> R e \<longrightarrow> \<not> txe_qosHigherThan e frame qos"
        using txq_arbitrate_spec [OF conjunct1 [OF g3] ar] by blast
      have l3: "live s3 - txq_addrs q3 = live s - txq_addrs q" using g3 None by simp
      have "txq_queue q4 = filter (\<lambda>e. P e \<and> R e) (txq_queue q)" using R(1) P(1) by (simp add: conj_commute)
      moreover have "\<forall>e \<in> set (txq_queue q). \<not> (P e \<and> R e) \<longrightarrow> txe_isExpired now e \<or> \<not> txe_qosHigherThan e frame qos"
        using P R(2) by auto
      ultimately show ?thesis using sp unfolding l3 by blast
    next
      case (Some a)
      then show ?thesis using a4 g3 by auto
    qed
    then obtain P where P: "txq_queue q4 = filter P (txq_queue q)"
      "\<forall>e \<in> set (txq_queue q). \<not> P e \<longrightarrow> txe_isExpired now e \<or> \<not> txe_qosHigherThan e frame qos" by blast
    show ?thesis
    proof (cases r4)
      case None
      then show ?thesis using out g4 P clk by (auto simp: txq_admits_def intro!: exI [of _ None])
    next
      case (Some a)
      let ?q = "q4\<lparr>txq_queue := insert_before (\<lambda>e. priorityHigherThan frame (txe_frame e)) (?new a) (txq_queue q4)\<rparr>"
      have ad: "txq_addrs ?q = insert a (txq_addrs q4)" by (simp add: txq_addrs_def)
      have "inv s4" "distinct (map txe_addr (txq_queue q4))" "txq_addrs q4 \<subseteq> live s4" "txq_sorted (txq_queue q4)"
        "a \<in> live s4" "a \<notin> txe_addr ` set (txq_queue q4)"
        using g4 Some by (auto simp: txq_ok_def txq_addrs_def)
      then have "txq_ok s4 ?q"
        using ad txq_sorted_insert [of "txq_queue q4" "?new a"] by (simp add: txq_ok_def distinct_insert_before)
      then show ?thesis using out g4 Some ad P clk
        by (auto simp: txq_admits_def intro!: exI [of _ "Some (?new a)"])
    qed
  qed
qed

end

text \<open>The histories of a queue that has a pool of its own, with any readings of the clock.\<close>

inductive txq_reachable :: "'d platform \<Rightarrow> pool \<times> tx_queue \<Rightarrow> bool" for D where
  txq_init: "0 < n div b \<Longrightarrow> n div b \<le> 0xFFFF \<Longrightarrow> txq_reachable D (PoolAllocator n b, CanTxQueue quota)"
| txq_do_push: "txq_reachable D sq \<Longrightarrow> txq_push D pool_ops frame dl qos flags (d, sq) = (d', sq') \<Longrightarrow>
    txq_reachable D sq'"
| txq_do_peek: "txq_reachable D sq \<Longrightarrow> txq_peek D pool_ops (d, sq) = (e, d', sq') \<Longrightarrow> txq_reachable D sq'"
| txq_do_remove: "txq_reachable D sq \<Longrightarrow> e \<in> set (txq_queue (snd sq)) \<Longrightarrow> txq_remove pool_ops e sq = sq' \<Longrightarrow>
    txq_reachable D sq'"

lemma txq_reachable_ok:
  assumes "txq_reachable D sq"
  shows "pool.txq_ok (fst sq) (snd sq) \<and> pool_live (fst sq) = txq_addrs (snd sq)"
  using assms
proof induction
  case (txq_init n b quota)
  then show ?case using PoolAllocator_fresh [of n b]
    by (simp add: pool.txq_ok_def CanTxQueue_def txq_addrs_def txq_sorted_def)
next
  case (txq_do_push sq frame dl qos flags d d' sq')
  obtain p q p' q' where [simp]: "sq = (p, q)" "sq' = (p', q')" by (metis surj_pair)
  show ?case using pool.txq_push_spec [of p q D frame dl qos flags d d' p' q'] txq_do_push
    by (auto simp: pool.txq_ok_def)
next
  case (txq_do_peek sq d e d' sq')
  obtain p q p' q' where [simp]: "sq = (p, q)" "sq' = (p', q')" by (metis surj_pair)
  have "txq_peek_loop pool_ops (fst (pf_getMonotonic D d)) (txq_queue q) (p, q) = (e, p', q')"
    using txq_do_peek(2) by (auto simp: txq_peek_def split: prod.splits)
  from pool.txq_peek_loop_spec [OF _ this] show ?case using txq_do_peek.IH by (auto simp: pool.txq_ok_def)
next
  case (txq_do_remove sq e sq')
  obtain p q p' q' where [simp]: "sq = (p, q)" "sq' = (p', q')" by (metis surj_pair)
  show ?case using pool.txq_remove_spec [of p q e p' q'] txq_do_remove by (auto simp: pool.txq_ok_def)
qed

text \<open>
  C7.  In every history of a transmission queue its entries are in the order in which they would win the
  arbitration on the bus and occupy exactly the blocks taken from the pool.  A new frame is put into that
  order, and an entry is given up for it only if it has expired or if its quality of service is not higher;
  \<^verbatim>\<open>peek\<close> drops the expired entries at the front and returns an entry that is alive and that no other
  entry of the queue beats on the bus, if the queue has an entry that is alive.
\<close>

theorem tx_queue_priority_order:
  assumes "txq_reachable D (p, q)"
  shows "txq_sorted (txq_queue q) \<and> distinct (map txe_addr (txq_queue q)) \<and> pool_live p = txq_addrs q \<and>
    (\<forall>frame dl qos flags d d' p' q'. txq_push D pool_ops frame dl qos flags (d, p, q) = (d', p', q') \<longrightarrow>
      (\<exists>new. txq_admits (fst (pf_getMonotonic D d)) frame qos q q' new \<and>
        (\<forall>n. new = Some n \<longrightarrow> txe_frame n = frame \<and> txe_deadline n = dl \<and> txe_qos n = qos \<and> txe_flags n = flags))) \<and>
    (\<forall>d e d' p' q'. txq_peek D pool_ops (d, p, q) = (e, d', p', q') \<longrightarrow>
      txq_queue q' = dropWhile (txe_isExpired (fst (pf_getMonotonic D d))) (txq_queue q) \<and>
      (case e of None \<Rightarrow> (\<forall>x \<in> set (txq_queue q). txe_isExpired (fst (pf_getMonotonic D d)) x)
       | Some x \<Rightarrow> x \<in> set (txq_queue q') \<and> \<not> txe_isExpired (fst (pf_getMonotonic D d)) x \<and>
           (\<forall>y \<in> set (txq_queue q'). \<not> priorityHigherThan (txe_frame y) (txe_frame x))))"
proof (intro conjI allI impI)
  have ok: "pool.txq_ok p q" "pool_live p = txq_addrs q" using txq_reachable_ok [OF assms] by auto
  show "txq_sorted (txq_queue q)" "distinct (map txe_addr (txq_queue q))" "pool_live p = txq_addrs q"
    using ok by (auto simp: pool.txq_ok_def)
  show "\<exists>new. txq_admits (fst (pf_getMonotonic D d)) frame qos q q' new \<and>
        (\<forall>n. new = Some n \<longrightarrow> txe_frame n = frame \<and> txe_deadline n = dl \<and> txe_qos n = qos \<and> txe_flags n = flags)"
    if "txq_push D pool_ops frame dl qos flags (d, p, q) = (d', p', q')" for frame dl qos flags d d' p' q'
    using pool.txq_push_spec [OF ok(1) that] by (auto split: option.splits)
  fix d e d' p' q' assume pk: "txq_peek D pool_ops (d, p, q) = (e, d', p', q')"
  let ?now = "fst (pf_getMonotonic D d)"
  have "txq_peek_loop pool_ops ?now (txq_queue q) (p, q) = (e, p', q')"
    using pk by (auto simp: txq_peek_def split: prod.splits)
  note sp = pool.txq_peek_loop_spec [OF ok(1) this]
  then show q': "txq_queue q' = dropWhile (txe_isExpired ?now) (txq_queue q)" by simp
  have e: "e = (case txq_queue q' of [] \<Rightarrow> None | x # _ \<Rightarrow> Some x)" using sp by blast
  have irr: "\<not> priorityHigherThan (txe_frame x) (txe_frame x)" for x :: tx_entry by (simp add: priority_arbitration)
  show "case e of None \<Rightarrow> (\<forall>x \<in> set (txq_queue q). txe_isExpired ?now x)
       | Some x \<Rightarrow> x \<in> set (txq_queue q') \<and> \<not> txe_isExpired ?now x \<and>
           (\<forall>y \<in> set (txq_queue q'). \<not> priorityHigherThan (txe_frame y) (txe_frame x))"
  proof (cases "txq_queue q'")
    case Nil
    then have "e = None" using e by simp
    moreover have "dropWhile (txe_isExpired ?now) (txq_queue q) = []" using q' Nil by metis
    ultimately show ?thesis by (simp add: dropWhile_eq_Nil_conv)
  next
    case (Cons a es)
    have "txq_sorted (a # es)" using conjunct1 [OF sp] unfolding pool.txq_ok_def Cons by blast
    moreover have "\<not> txe_isExpired ?now a" using Cons unfolding q' by (simp add: dropWhile_eq_Cons_conv)
    moreover have "e = Some a" using e Cons by simp
    ultimately show ?thesis using irr [of a] by (simp add: Cons txq_sorted_def)
  qed
qed

definition example_tx_frame :: "u32 \<Rightarrow> can_frame" where
  "example_tx_frame ident = \<lparr>cf_id = ident, cf_data = replicate 8 0, cf_dlc = 0\<rparr>"

text \<open>A platform whose clock is its state and advances by a microsecond with each reading.\<close>

definition example_platform :: "time platform" where
  "example_platform =
    \<lparr>pf_getMonotonic = (\<lambda>t. (t, if t = - 1 then t else t + 1)), pf_getNumIfaces = (\<lambda>_. 2),
     pf_hasIface = (\<lambda>_ i. i < 2), pf_select = (\<lambda>m _ _ t. (0, m, t)), pf_send = (\<lambda>_ _ _ _ t. (0, t)),
     pf_receive = (\<lambda>_ t. (0, (example_tx_frame 0, 0, 0, 0), t)),
     pf_getErrorCount = (\<lambda>_ _. 0)\<rparr>"

lemma example_queue:
  "txq_push example_platform pool_ops (example_tx_frame 9) 100 Volatile 0 (0, PoolAllocator 128 64, CanTxQueue 2)
    = (1, snd (pool_allocate (PoolAllocator 128 64) 40),
       \<lparr>txq_queue = [\<lparr>txe_addr = 0, txe_deadline = 100, txe_frame = example_tx_frame 9, txe_qos = Volatile, txe_flags = 0\<rparr>],
        txq_allocator = \<lparr>lim_max_blocks = 2, lim_used_blocks = 1\<rparr>, txq_rejected_frames_cnt = 0\<rparr>)"
  by (simp add: txq_push_def example_platform_def CanTxQueue_def txq_allocate_def limited_allocate_def
      LimitedPoolAllocator_def pool_ops_def pool_allocate_def PoolAllocator_def sizeof_tx_entry_def)

theorem tx_queue_priority_order_witness:
  "let (d, p, q) = txq_push example_platform pool_ops (example_tx_frame 9) 100 Volatile 0
         (0, PoolAllocator 128 64, CanTxQueue 2);
       (e, d, p, q) = txq_peek example_platform pool_ops (d, p, q)
   in map_option (cf_id \<circ> txe_frame) e = Some 9 \<and> pool_live p = txq_addrs q"
proof -
  let ?D = example_platform
  obtain d p q where push: "txq_push ?D pool_ops (example_tx_frame 9) 100 Volatile 0
      (0, PoolAllocator 128 64, CanTxQueue 2) = (d, p, q)" by (metis prod_cases3)
  obtain e d' p' q' where peek: "txq_peek ?D pool_ops (d, p, q) = (e, d', p', q')" by (metis prod_cases4)
  have r: "txq_reachable ?D (p, q)" using txq_do_push [OF txq_init push] by simp
  have r': "txq_reachable ?D (p', q')" using txq_do_peek [OF r peek] .
  have q: "map (cf_id \<circ> txe_frame) (txq_queue q) = [9]" "\<not> txe_isExpired (fst (pf_getMonotonic ?D d)) (hd (txq_queue q))"
    using push unfolding example_queue
    by (auto simp: example_tx_frame_def txe_isExpired_def example_platform_def)
  then obtain x where x: "txq_queue q = [x]" "cf_id (txe_frame x) = 9" by auto
  have "case e of None \<Rightarrow> (\<forall>x \<in> set (txq_queue q). txe_isExpired (fst (pf_getMonotonic ?D d)) x)
      | Some x \<Rightarrow> x \<in> set (txq_queue q')" "txq_queue q' = dropWhile (txe_isExpired (fst (pf_getMonotonic ?D d))) (txq_queue q)"
    using tx_queue_priority_order [OF r] peek by (cases e; fastforce)+
  then have "e = Some x" using q(2) x(1) by (cases e) auto
  then show ?thesis using tx_queue_priority_order [OF r'] peek push x by simp
qed

section \<open>The loops of send and receive end\<close>

text \<open>
  What the loops need of the platform: at most finitely many readings of the clock can come before the
  deadline, counted by a measure that a reading before the deadline decreases and no call increases.
\<close>

definition clock_progress :: "'d platform \<Rightarrow> time \<Rightarrow> ('d \<Rightarrow> nat) \<Rightarrow> bool" where
  "clock_progress D dl \<mu> \<longleftrightarrow>
    (\<forall>d. \<mu> (snd (pf_getMonotonic D d)) \<le> \<mu> d) \<and>
    (\<forall>d. fst (pf_getMonotonic D d) < dl \<longrightarrow> \<mu> (snd (pf_getMonotonic D d)) < \<mu> d) \<and>
    (\<forall>m p t d. \<mu> (snd (snd (pf_select D m p t d))) \<le> \<mu> d) \<and>
    (\<forall>i f t fl d. \<mu> (snd (pf_send D i f t fl d)) \<le> \<mu> d) \<and>
    (\<forall>i d. \<mu> (snd (snd (pf_receive D i d))) \<le> \<mu> d)"

lemma clock_progress_le:
  assumes "clock_progress D dl \<mu>"
  shows "pf_getMonotonic D d = (now, d') \<Longrightarrow> \<mu> d' \<le> \<mu> d"
    "pf_getMonotonic D d = (now, d') \<Longrightarrow> now < dl \<Longrightarrow> \<mu> d' < \<mu> d"
    "pf_select D m p t d = (r, m', d') \<Longrightarrow> \<mu> d' \<le> \<mu> d"
    "pf_send D i f t fl d = (r, d') \<Longrightarrow> \<mu> d' \<le> \<mu> d"
    "pf_receive D i d = (r, x, d') \<Longrightarrow> \<mu> d' \<le> \<mu> d"
  using assms unfolding clock_progress_def by (metis fst_conv snd_conv)+

lemma sendToIface_progress:
  assumes "clock_progress D dl \<mu>" and "cio_sendToIface D i f t fl (d, s, c) = (res, d', s', c')"
  shows "\<mu> d' \<le> \<mu> d"
  using assms(2) clock_progress_le(4) [OF assms(1)]
  by (auto simp: cio_sendToIface_def Let_def split: if_splits prod.splits)

lemma peek_progress:
  assumes "clock_progress D dl \<mu>" and "txq_peek D A (d, s, q) = (e, d', s', q')"
  shows "\<mu> d' \<le> \<mu> d"
  using assms(2) clock_progress_le(1) [OF assms(1)] by (auto simp: txq_peek_def split: prod.splits)

lemma sendFromTxQueue_progress:
  assumes "clock_progress D dl \<mu>" and "cio_sendFromTxQueue D A i (d, s, c) = (res, d', s', c')"
  shows "\<mu> d' \<le> \<mu> d"
proof -
  obtain e d1 s1 q1 where pk: "txq_peek D A (d, s, cio_tx_queues c ! i) = (e, d1, s1, q1)" by (metis prod_cases4)
  note le = peek_progress [OF assms(1) pk]
  show ?thesis
  proof (cases e)
    case None
    then show ?thesis using assms(2) pk le by (simp add: cio_sendFromTxQueue_def)
  next
    case (Some x)
    obtain r d2 s2 c2 where st: "cio_sendToIface D i (txe_frame x) (txe_deadline x) (txe_flags x)
        (d1, s1, c\<lparr>cio_tx_queues := (cio_tx_queues c)[i := q1]\<rparr>) = (r, d2, s2, c2)" by (metis prod_cases4)
    have "d' = d2" using assms(2) pk st Some
      by (auto simp: cio_sendFromTxQueue_def Let_def split: if_splits prod.splits)
    then show ?thesis using sendToIface_progress [OF assms(1) st] le by simp
  qed
qed

lemma tx_loop_progress:
  assumes P: "clock_progress D dl \<mu>"
  shows "cio_tx_loop D A f t fl w is mr (d, s, c) = (mr', d', s', c') \<Longrightarrow> \<mu> d' \<le> \<mu> d"
proof (induction "is" arbitrary: mr d s c)
  case Nil
  then show ?case by simp
next
  case (Cons i "is")
  obtain mask rv where mr: "mr = (mask, rv)" by fastforce
  show ?case
  proof (cases "bit w i")
    case False
    then show ?thesis using Cons mr by auto
  next
    case True
    define turn where "turn = (if bit mask i then
                (let (res, dsc) = (if txq_topPriorityHigherOrEqual f (cio_tx_queues (snd (snd (d, s, c))) ! i)
                                   then cio_sendFromTxQueue D A i (d, s, c) else (0, d, s, c))
                 in if res \<le> 0 then
                      (let (res, dsc) = cio_sendToIface D i f t fl dsc
                       in (res, if res > 0 then mask AND NOT (push_bit i 1) else mask, dsc))
                    else (res, mask, dsc))
              else (let (res, dsc) = cio_sendFromTxQueue D A i (d, s, c) in (res, mask, dsc)))"
    obtain res m1 d1 s1 c1 where t: "turn = (res, m1, d1, s1, c1)" by (metis prod_cases5)
    have "\<mu> d1 \<le> \<mu> d"
      using t sendFromTxQueue_progress [OF P] sendToIface_progress [OF P]
      unfolding turn_def by (fastforce split: if_splits prod.splits dest: le_trans)
    moreover have "cio_tx_loop D A f t fl w is (m1, if res > 0 then rv + 1 else rv) (d1, s1, c1) = (mr', d', s', c')"
      using Cons.prems True t unfolding mr turn_def by simp
    ultimately show ?thesis using Cons.IH by fastforce
  qed
qed

lemma send_turn_progress:
  assumes P: "clock_progress D dl \<mu>"
    and turn: "cio_send_turn D A f t dl qos fl mr (d, s, c) = (Inr mr', d', s', c')"
  shows "\<mu> d' < \<mu> d"
proof -
  obtain mask rv where mr: "mr = (mask, rv)" by fastforce
  obtain r m d1 where sel: "pf_select D \<lparr>sm_read = 0, sm_write = mask OR cio_makePendingTxMask c\<rparr>
      (cio_pending_send c mask f) dl d = (r, m, d1)" by (metis prod_cases3)
  let ?w = "sm_write m AND (mask OR cio_makePendingTxMask c)"
  obtain m2 rv2 d2 s2 c2 where tx: "cio_tx_loop D A f t fl ?w [0..<unat (cio_num_ifaces c)] (mask, rv) (d1, s, c)
      = ((m2, rv2), d2, s2, c2)" by (metis surj_pair)
  obtain now d3 where clk: "pf_getMonotonic D d2 = (now, d3)" by fastforce
  have "now < dl" "d' = d3"
    using turn sel tx clk unfolding mr cio_send_turn_def cio_callSelect_def
    by (auto simp: Let_def split: if_splits)
  then show ?thesis
    using clock_progress_le(2) [OF P clk] tx_loop_progress [OF P tx] clock_progress_le(3) [OF P sel] by simp
qed

lemma send_loop_returns:
  assumes P: "clock_progress D dl \<mu>"
  shows "\<exists>r. cio_send_loop D A f t dl qos fl mr dsc = Some r"
proof (induction "\<mu> (fst dsc)" arbitrary: mr dsc rule: less_induct)
  case less
  obtain d s c where dsc: "dsc = (d, s, c)" by (metis prod_cases3)
  obtain r d' s' c' where turn: "cio_send_turn D A f t dl qos fl mr (d, s, c) = (r, d', s', c')" by (metis prod_cases4)
  show ?case
  proof (cases r)
    case (Inl a)
    then show ?thesis using turn dsc by (subst cio_send_loop.simps) simp
  next
    case (Inr m)
    then show ?thesis using turn dsc less [of "(d', s', c')"] send_turn_progress [OF P, of A f t qos fl mr d s c]
      by (subst cio_send_loop.simps) simp
  qed
qed

lemma rx_write_loop_progress:
  assumes P: "clock_progress D dl \<mu>"
  shows "cio_rx_write_loop D A w is (d, s, c) = (d', s', c') \<Longrightarrow> \<mu> d' \<le> \<mu> d"
proof (induction "is" arbitrary: d s c)
  case (Cons i "is")
  obtain r d1 s1 c1 where st: "cio_sendFromTxQueue D A i (d, s, c) = (r, d1, s1, c1)" by (metis prod_cases4)
  then show ?case using Cons.IH [of d s c] Cons.IH [of d1 s1 c1] Cons.prems sendFromTxQueue_progress [OF P st]
    by (auto split: if_splits)
qed simp

lemma rx_read_loop_progress:
  assumes P: "clock_progress D dl \<mu>"
  shows "cio_rx_read_loop D w is (d, s, c) = (r, d', s', c') \<Longrightarrow> \<mu> d' \<le> \<mu> d"
proof (induction "is" arbitrary: d s c)
  case (Cons i "is")
  obtain res fr tm tu fl d1 where rc: "pf_receive D i d = (res, (fr, tm, tu, fl), d1)" by (metis prod_cases4 surj_pair)
  then show ?case using Cons.IH [of d s c] Cons.IH [of d1 s c] Cons.prems clock_progress_le(5) [OF P rc]
    by (auto simp: Let_def split: if_splits)
qed simp

lemma receive_turn_progress:
  assumes P: "clock_progress D dl \<mu>"
    and turn: "cio_receive_turn D A dl (d, s, c) = (res, d', s', c')"
  shows "\<mu> d' \<le> \<mu> d \<and> (res = None \<longrightarrow> \<mu> d' < \<mu> d)"
proof -
  let ?m = "\<lparr>sm_read = push_bit (unat (cio_num_ifaces c)) 1 - 1, sm_write = cio_makePendingTxMask c\<rparr> :: can_select_masks"
  obtain r m d1 where sel: "pf_select D ?m (cio_pending_receive c) dl d = (r, m, d1)" by (metis prod_cases3)
  obtain d2 s2 c2 where wr: "cio_rx_write_loop D A (sm_write m AND sm_write ?m) [0..<unat (cio_num_ifaces c)] (d1, s, c)
      = (d2, s2, c2)" by (metis prod_cases3)
  obtain x d3 s3 c3 where rd: "cio_rx_read_loop D (sm_read m AND sm_read ?m) [0..<unat (cio_num_ifaces c)] (d2, s2, c2)
      = (x, d3, s3, c3)" by (metis prod_cases4)
  obtain now d4 where clk: "pf_getMonotonic D d3 = (now, d4)" by fastforce
  have "d' = d1 \<and> res \<noteq> None \<or> d' = d3 \<and> res \<noteq> None \<or> d' = d4 \<and> (res = None \<longrightarrow> now < dl)"
    using turn sel wr rd clk unfolding cio_receive_turn_def cio_callSelect_def
    by (auto simp: Let_def split: if_splits option.splits sum.splits)
  then show ?thesis
    using clock_progress_le(1,2) [OF P clk] rx_write_loop_progress [OF P wr] rx_read_loop_progress [OF P rd]
      clock_progress_le(3) [OF P sel] by auto
qed

lemma receive_returns:
  assumes P: "clock_progress D dl \<mu>"
  shows "\<exists>r d' s' c'. cio_receive D A dl dsc = Some (r, d', s', c') \<and> \<mu> d' \<le> \<mu> (fst dsc)"
proof (induction "\<mu> (fst dsc)" arbitrary: dsc rule: less_induct)
  case less
  obtain d s c where dsc: "dsc = (d, s, c)" by (metis prod_cases3)
  obtain r d' s' c' where turn: "cio_receive_turn D A dl (d, s, c) = (r, d', s', c')" by (metis prod_cases4)
  note le = receive_turn_progress [OF P turn]
  show ?case
  proof (cases r)
    case None
    then have "\<exists>r d2 s2 c2. cio_receive D A dl (d', s', c') = Some (r, d2, s2, c2) \<and> \<mu> d2 \<le> \<mu> d'"
      using less [of "(d', s', c')"] le dsc by simp
    then show ?thesis using turn dsc None le by (subst cio_receive.simps) (auto intro: order_trans)
  next
    case (Some a)
    then show ?thesis using turn dsc le by (subst cio_receive.simps) simp
  qed
qed

text \<open>
  C20.  \<^verbatim>\<open>CanIOManager::send\<close> and \<^verbatim>\<open>CanIOManager::receive\<close> return, whatever the driver does, if the clock
  makes progress to the deadline of the call.
\<close>

theorem cio_send_receive_return:
  assumes "clock_progress D blocking_deadline \<mu>" and "blocking_deadline \<le> tx_deadline"
  shows "(\<exists>r dsc'. cio_send D A frame tx_deadline blocking_deadline iface_mask qos flags dsc = Some (r, dsc')) \<and>
    (\<exists>r dsc'. cio_receive D A blocking_deadline dsc = Some (r, dsc'))"
proof -
  have "\<exists>r. cio_send D A frame tx_deadline blocking_deadline iface_mask qos flags dsc = Some r"
    using send_loop_returns [OF assms(1)] assms(2) by (simp add: cio_send_def Let_def min_absorb1)
  moreover have "\<exists>r. cio_receive D A blocking_deadline dsc = Some r" using receive_returns [OF assms(1), of A dsc] by blast
  ultimately show ?thesis by (simp only: split_paired_Ex)
qed

lemma example_platform_progress: "clock_progress example_platform dl (\<lambda>t. 2 ^ 64 - unat t)"
proof -
  have suc: "unat (t + 1) = Suc (unat t)" if "t \<noteq> - 1" for t :: time
  proof -
    have "1 + t \<noteq> 0" using that by (simp add: add_eq_0_iff)
    then show ?thesis using unatSuc [of t] by (simp add: add.commute)
  qed
  have lt: "unat t < 2 ^ 64" for t :: time using unsigned_less [of t] by simp
  have max: "\<not> - 1 < dl" by (simp add: word_order.not_eq_extremum)
  have "2 ^ 64 - unat (if t = - 1 then t else t + 1) < 2 ^ 64 - unat t" if "t < dl" for t :: time
    using that suc [of t] lt [of t] max by (cases "t = - 1") simp_all
  moreover have "2 ^ 64 - unat (if t = - 1 then t else t + 1) \<le> 2 ^ 64 - unat t" for t :: time
    using suc [of t] lt [of t] by (cases "t = - 1") simp_all
  ultimately show ?thesis unfolding clock_progress_def example_platform_def by simp
qed

theorem cio_send_receive_return_witness:
  "cio_send example_platform pool_ops (example_tx_frame 0) 200 100 3 Volatile 0
     (0, PoolAllocator 128 64, \<lparr>cio_tx_queues = [CanTxQueue 1, CanTxQueue 1],
        cio_counters = replicate 3 \<lparr>ic_frames_tx = 0, ic_frames_rx = 0\<rparr>, cio_num_ifaces = 2\<rparr>) \<noteq> None"
  using cio_send_receive_return [OF example_platform_progress, of 100 200] by fastforce

end
