(* ===== verification/Dispatchers.thy ===== *)
theory Dispatchers
  imports TransferListeners CanIo
begin

text \<open>
  \<^verbatim>\<open>OutgoingTransferRegistry\<close> (include/uavcan/transport/outgoing_transfer_registry.hpp,
  src/transport/uc_outgoing_transfer_registry.cpp) and \<^verbatim>\<open>Dispatcher\<close> with its registries of listeners
  (include/uavcan/transport/dispatcher.hpp, src/transport/uc_dispatcher.cpp).  The calls of the
  application's handlers are events that the operations return in their order; the handlers themselves
  are not part of the model, so a handler that registers or removes listeners while a frame is being
  dispatched is outside of it.
\<close>

unbundle bit_operations_syntax

section \<open>OutgoingTransferRegistry\<close>

record otr_key =
  otk_data_type_id :: data_type_id
  otk_transfer_type :: u8
  otk_destination_node_id :: node_id

definition otr_key_default :: otr_key where
  "otr_key_default =
    \<lparr>otk_data_type_id = data_type_id_invalid, otk_transfer_type = 0xFF, otk_destination_node_id = node_id_invalid\<rparr>"

definition OutgoingTransferRegistryKey :: "data_type_id \<Rightarrow> transfer_type \<Rightarrow> node_id \<Rightarrow> otr_key" where
  "OutgoingTransferRegistryKey data_type_id transfer_type destination_node_id =
    \<lparr>otk_data_type_id = data_type_id, otk_transfer_type = word_of_nat (transfer_type_value transfer_type),
     otk_destination_node_id = destination_node_id\<rparr>"

record otr_value =
  otv_deadline :: time
  otv_tid :: transfer_id

text \<open>A pair takes 24 bytes, so that two of them fit into a block next to the link of the list.\<close>

definition otr_type :: "(otr_key, otr_value) map_type" where
  "otr_type = \<lparr>mt_key = otr_key_default, mt_value = \<lparr>otv_deadline = 0, otv_tid = 0\<rparr>,
     mt_NumKV = (MemPoolBlockSize - sizeof_ptr) div 24, mt_sizeof = 56\<rparr>"

type_synonym otr_map = "(otr_key, otr_value) kv_map"

definition MinEntryLifetime :: duration where
  "MinEntryLifetime = dur_fromMSec 2000"

text \<open>
  \<^verbatim>\<open>accessOrCreate\<close> returns a pointer to the transfer ID of the key; the model returns its value, and
  \<^verbatim>\<open>otr_increment\<close> is the call of \<^verbatim>\<open>increment\<close> through the pointer.
\<close>

definition otr_accessOrCreate ::
  "'s allocator_ops \<Rightarrow> otr_key \<Rightarrow> time \<Rightarrow> 's \<times> otr_map \<Rightarrow> transfer_id option \<times> 's \<times> otr_map" where
  "otr_accessOrCreate A key new_deadline sm =
    (let (s, m) = sm
     in case kv_access key m of
          Some v \<Rightarrow> (Some (otv_tid v), s, kv_update key (v\<lparr>otv_deadline := new_deadline\<rparr>) m)
        | None \<Rightarrow>
            (let v = \<lparr>otv_deadline = 0, otv_tid = 0\<rparr>; (ok, s, m) = kv_insert A otr_type key v (s, m)
             in if \<not> ok then (None, s, m)
                else (Some (otv_tid v), s, kv_update key (v\<lparr>otv_deadline := new_deadline\<rparr>) m)))"

definition otr_increment :: "otr_key \<Rightarrow> otr_map \<Rightarrow> otr_map" where
  "otr_increment key m =
    (case kv_access key m of Some v \<Rightarrow> kv_update key (v\<lparr>otv_tid := tid_increment (otv_tid v)\<rparr>) m | None \<Rightarrow> m)"

text \<open>How a sender takes the transfer ID of its next transfer.\<close>

definition otr_next ::
  "'s allocator_ops \<Rightarrow> otr_key \<Rightarrow> time \<Rightarrow> 's \<times> otr_map \<Rightarrow> transfer_id option \<times> 's \<times> otr_map" where
  "otr_next A otr_key otr_deadline sm =
    (case otr_accessOrCreate A otr_key otr_deadline sm of
       (None, s, m) \<Rightarrow> (None, s, m)
     | (Some tid, s, m) \<Rightarrow> (Some tid, s, otr_increment otr_key m))"

definition otr_exists :: "data_type_id \<Rightarrow> transfer_type \<Rightarrow> otr_map \<Rightarrow> bool" where
  "otr_exists dtid tt m \<longleftrightarrow>
    kv_find otr_type (\<lambda>key _. dtid = otk_data_type_id key \<and>
      word_of_nat (transfer_type_value tt) = otk_transfer_type key) m \<noteq> None"

definition otr_deadline_expired :: "time \<Rightarrow> otr_value \<Rightarrow> bool" where
  "otr_deadline_expired ts v \<longleftrightarrow> otv_deadline v \<le> ts"

definition otr_cleanup :: "'s allocator_ops \<Rightarrow> time \<Rightarrow> 's \<times> otr_map \<Rightarrow> 's \<times> otr_map" where
  "otr_cleanup A ts sm =
    (let ((s, _), m) = kv_removeAllWhere A otr_type (\<lambda>_ v x. (otr_deadline_expired ts v, x)) (fst sm, ()) (snd sm)
     in (s, m))"

section \<open>The registry of listeners\<close>

text \<open>
  A registered listener: its address, whether it is a \<^verbatim>\<open>TransferListenerWithFilter\<close> (whose filter may be
  missing), and its state.
\<close>

datatype listener_class = PlainListener | FilteredListener "(rx_frame \<Rightarrow> bool) option"

record listener_node =
  ln_addr :: addr
  ln_class :: listener_class
  ln_listener :: listener

definition ln_id :: "listener_node \<Rightarrow> data_type_id" where
  "ln_id p = dtd_id (tl_data_type (ln_listener p))"

definition ln_handleFrame ::
  "'s allocator_ops \<Rightarrow> (addr \<Rightarrow> nat \<Rightarrow> u8) \<Rightarrow> rx_frame \<Rightarrow> perf_counter \<times> 's \<times> listener_node \<Rightarrow>
    incoming_transfer option \<times> perf_counter \<times> 's \<times> listener_node" where
  "ln_handleFrame A mem frame psn =
    (let (perf, s, p) = psn;
         (it, perf, s, l) = (case ln_class p of
            PlainListener \<Rightarrow> tl_handleFrame A mem frame (perf, s, ln_listener p)
          | FilteredListener f \<Rightarrow> tlf_handleFrame A mem f frame (perf, s, ln_listener p))
     in (it, perf, s, p\<lparr>ln_listener := l\<rparr>))"

datatype registry_mode = UniqueListener | ManyListeners

definition lr_insertion_comparator :: "data_type_id \<Rightarrow> listener_node \<Rightarrow> bool" where
  "lr_insertion_comparator dtid p \<longleftrightarrow> dtid > ln_id p"

definition lr_add :: "listener_node \<Rightarrow> registry_mode \<Rightarrow> listener_node list \<Rightarrow> bool \<times> listener_node list" where
  "lr_add p mode ps =
    (if mode = UniqueListener \<and> list_ex (\<lambda>q. ln_id q = ln_id p) ps then (False, ps)
     else (True, insert_before (lr_insertion_comparator (ln_id p)) p (remove_first (\<lambda>q. ln_addr q = ln_addr p) ps)))"

definition lr_remove :: "addr \<Rightarrow> listener_node list \<Rightarrow> listener_node list" where
  "lr_remove a ps = remove_first (\<lambda>q. ln_addr q = a) ps"

definition lr_exists :: "data_type_id \<Rightarrow> listener_node list \<Rightarrow> bool" where
  "lr_exists dtid ps \<longleftrightarrow> list_ex (\<lambda>p. ln_id p = dtid) ps"

fun lr_cleanup :: "'s allocator_ops \<Rightarrow> time \<Rightarrow> 's \<times> listener_node list \<Rightarrow> 's \<times> listener_node list" where
  "lr_cleanup A ts (s, []) = (s, [])"
| "lr_cleanup A ts (s, p # ps) =
    (let (s, l) = tl_cleanup A ts (s, ln_listener p); (s, ps) = lr_cleanup A ts (s, ps)
     in (s, p\<lparr>ln_listener := l\<rparr> # ps))"

text \<open>
  The walk over the list: a listener for another data type is passed over, and one with a smaller data
  type ID ends the walk.
\<close>

fun lr_handleFrame ::
  "'s allocator_ops \<Rightarrow> (addr \<Rightarrow> nat \<Rightarrow> u8) \<Rightarrow> rx_frame \<Rightarrow> listener_node list \<Rightarrow> perf_counter \<times> 's \<Rightarrow>
    (addr \<times> incoming_transfer) list \<times> listener_node list \<times> perf_counter \<times> 's" where
  "lr_handleFrame A mem frame [] ps = ([], [], ps)"
| "lr_handleFrame A mem frame (p # nodes) ps =
    (if ln_id p = fr_data_type_id (rxf_frame frame) then
       (let (perf, s) = ps; (it, perf, s, p') = ln_handleFrame A mem frame (perf, s, p);
            (its, nodes, ps) = lr_handleFrame A mem frame nodes (perf, s)
        in ((case it of Some t \<Rightarrow> [(ln_addr p, t)] | None \<Rightarrow> []) @ its, p' # nodes, ps))
     else if ln_id p < fr_data_type_id (rxf_frame frame) then ([], p # nodes, ps)
     else
       (let (its, nodes, ps) = lr_handleFrame A mem frame nodes ps in (its, p # nodes, ps)))"

section \<open>LoopbackFrameListenerRegistry\<close>

definition loopback_add :: "addr \<Rightarrow> addr list \<Rightarrow> addr list" where
  "loopback_add listener ls = listener # remove1 listener ls"

definition loopback_remove :: "addr \<Rightarrow> addr list \<Rightarrow> addr list" where
  "loopback_remove listener ls = remove1 listener ls"

definition loopback_doesExist :: "addr \<Rightarrow> addr list \<Rightarrow> bool" where
  "loopback_doesExist listener ls \<longleftrightarrow> listener \<in> set ls"

definition loopback_getNumListeners :: "addr list \<Rightarrow> nat" where
  "loopback_getNumListeners ls = length ls"

section \<open>Dispatcher\<close>

text \<open>The calls of the application: a received transfer, a loopback frame, a frame for the sniffer.\<close>

datatype dispatcher_event =
    IncomingTransfer addr incoming_transfer
  | LoopbackFrame addr rx_frame
  | RxFrame addr can_rx_frame can_io_flags

definition loopback_invokeListeners :: "rx_frame \<Rightarrow> addr list \<Rightarrow> dispatcher_event list" where
  "loopback_invokeListeners frame ls = map (\<lambda>p. LoopbackFrame p frame) ls"

record dispatcher =
  dsp_canio :: can_io
  dsp_outgoing_transfer_reg :: otr_map
  dsp_perf :: perf_counter
  dsp_lmsg :: "listener_node list"
  dsp_lsrv_req :: "listener_node list"
  dsp_lsrv_resp :: "listener_node list"
  dsp_loopback_listeners :: "addr list"
  dsp_rx_listener :: "addr option"
  dsp_self_node_id :: node_id
  dsp_self_node_id_is_set :: bool

definition Dispatcher :: "'d platform \<Rightarrow> 's allocator_ops \<Rightarrow> 'd \<times> 's \<Rightarrow> dispatcher option" where
  "Dispatcher D A ds =
    map_option (\<lambda>c. \<lparr>dsp_canio = c, dsp_outgoing_transfer_reg = [], dsp_perf = TransferPerfCounter,
       dsp_lmsg = [], dsp_lsrv_req = [], dsp_lsrv_resp = [], dsp_loopback_listeners = [],
       dsp_rx_listener = None, dsp_self_node_id = node_id_Broadcast, dsp_self_node_id_is_set = False\<rparr>)
      (CanIOManager D A 0 ds)"

definition dsp_isPassiveMode :: "dispatcher \<Rightarrow> bool" where
  "dsp_isPassiveMode x \<longleftrightarrow> \<not> node_id_isUnicast (dsp_self_node_id x)"

definition dsp_handleFrame ::
  "'s allocator_ops \<Rightarrow> (addr \<Rightarrow> nat \<Rightarrow> u8) \<Rightarrow> can_rx_frame \<Rightarrow> 's \<times> dispatcher \<Rightarrow>
    dispatcher_event list \<times> 's \<times> dispatcher" where
  "dsp_handleFrame A mem can_frame sx =
    (let (s, x) = sx
     in case rx_frame_parse can_frame of
          None \<Rightarrow> ([], s, x)
        | Some frame \<Rightarrow>
            if fr_dst_node_id (rxf_frame frame) \<noteq> node_id_Broadcast \<and>
               fr_dst_node_id (rxf_frame frame) \<noteq> dsp_self_node_id x then ([], s, x)
            else
              (let events = map (\<lambda>(a, it). IncomingTransfer a it)
               in case fr_transfer_type (rxf_frame frame) of
                 TransferTypeMessageBroadcast \<Rightarrow>
                   (let (its, l, perf, s) = lr_handleFrame A mem frame (dsp_lmsg x) (dsp_perf x, s)
                    in (events its, s, x\<lparr>dsp_lmsg := l, dsp_perf := perf\<rparr>))
               | TransferTypeServiceRequest \<Rightarrow>
                   (let (its, l, perf, s) = lr_handleFrame A mem frame (dsp_lsrv_req x) (dsp_perf x, s)
                    in (events its, s, x\<lparr>dsp_lsrv_req := l, dsp_perf := perf\<rparr>))
               | TransferTypeServiceResponse \<Rightarrow>
                   (let (its, l, perf, s) = lr_handleFrame A mem frame (dsp_lsrv_resp x) (dsp_perf x, s)
                    in (events its, s, x\<lparr>dsp_lsrv_resp := l, dsp_perf := perf\<rparr>))
               | NumTransferTypes \<Rightarrow> ([], s, x)))"

definition dsp_handleLoopbackFrame :: "can_rx_frame \<Rightarrow> dispatcher \<Rightarrow> dispatcher_event list" where
  "dsp_handleLoopbackFrame can_frame x =
    (case rx_frame_parse can_frame of
       None \<Rightarrow> []
     | Some frame \<Rightarrow> loopback_invokeListeners frame (dsp_loopback_listeners x))"

definition dsp_notifyRxFrameListener :: "can_rx_frame \<Rightarrow> can_io_flags \<Rightarrow> dispatcher \<Rightarrow> dispatcher_event list" where
  "dsp_notifyRxFrameListener can_frame flags x =
    (case dsp_rx_listener x of Some a \<Rightarrow> [RxFrame a can_frame flags] | None \<Rightarrow> [])"

text \<open>What \<^verbatim>\<open>spin\<close> and \<^verbatim>\<open>spinOnce\<close> do with a frame: the number of frames processed and the calls.\<close>

definition dsp_process ::
  "'s allocator_ops \<Rightarrow> (addr \<Rightarrow> nat \<Rightarrow> u8) \<Rightarrow> can_rx_frame \<Rightarrow> can_io_flags \<Rightarrow> nat \<Rightarrow> 's \<times> dispatcher \<Rightarrow>
    nat \<times> dispatcher_event list \<times> 's \<times> dispatcher" where
  "dsp_process A mem frame flags n sx =
    (let (s, x) = sx;
         (n, es, s, x) = (if flags AND CanIOFlagLoopback \<noteq> 0
                          then (n, dsp_handleLoopbackFrame frame x, s, x)
                          else (let (es, s, x) = dsp_handleFrame A mem frame (s, x) in (n + 1, es, s, x)))
     in (n, es @ dsp_notifyRxFrameListener frame flags x, s, x))"

text \<open>
  The loops; not returning is the value \<^const>\<open>None\<close>.  The second component of the result collects the
  calls of the application in their order.  The number of frames processed is an \<^verbatim>\<open>int\<close> in the code.
\<close>

partial_function (option) dsp_spin ::
  "'d platform \<Rightarrow> 's allocator_ops \<Rightarrow> (addr \<Rightarrow> nat \<Rightarrow> u8) \<Rightarrow> time \<Rightarrow> nat \<Rightarrow> dispatcher_event list \<Rightarrow>
    'd \<times> 's \<times> dispatcher \<Rightarrow> ((uavcan_error + nat) \<times> dispatcher_event list \<times> 'd \<times> 's \<times> dispatcher) option" where
  "dsp_spin D A mem deadline n es dsx =
    (let (d, s, x) = dsx
     in Option.bind (cio_receive D A deadline (d, s, dsp_canio x)) (\<lambda>(res, d, s, c).
          let x = x\<lparr>dsp_canio := c\<rparr>
          in case res of
               Inl e \<Rightarrow> Some (Inl e, es, d, s, x)
             | Inr r \<Rightarrow>
                 (let (n, es', s, x) = (case r of None \<Rightarrow> (n, [], s, x)
                                        | Some (_, frame, flags) \<Rightarrow> dsp_process A mem frame flags n (s, x));
                      (now, d) = pf_getMonotonic D d
                  in if now < deadline then dsp_spin D A mem deadline n (es @ es') (d, s, x)
                     else Some (Inr n, es @ es', d, s, x))))"

partial_function (option) dsp_spinOnce ::
  "'d platform \<Rightarrow> 's allocator_ops \<Rightarrow> (addr \<Rightarrow> nat \<Rightarrow> u8) \<Rightarrow> nat \<Rightarrow> dispatcher_event list \<Rightarrow>
    'd \<times> 's \<times> dispatcher \<Rightarrow> ((uavcan_error + nat) \<times> dispatcher_event list \<times> 'd \<times> 's \<times> dispatcher) option" where
  "dsp_spinOnce D A mem n es dsx =
    (let (d, s, x) = dsx
     in Option.bind (cio_receive D A 0 (d, s, dsp_canio x)) (\<lambda>(res, d, s, c).
          let x = x\<lparr>dsp_canio := c\<rparr>
          in case res of
               Inl e \<Rightarrow> Some (Inl e, es, d, s, x)
             | Inr None \<Rightarrow> Some (Inr n, es, d, s, x)
             | Inr (Some (_, frame, flags)) \<Rightarrow>
                 (let (n, es', s, x) = dsp_process A mem frame flags n (s, x)
                  in dsp_spinOnce D A mem n (es @ es') (d, s, x))))"

definition dsp_send ::
  "'d platform \<Rightarrow> 's allocator_ops \<Rightarrow> frame \<Rightarrow> time \<Rightarrow> time \<Rightarrow> qos \<Rightarrow> can_io_flags \<Rightarrow> u8 \<Rightarrow>
    'd \<times> 's \<times> dispatcher \<Rightarrow> ((uavcan_error + nat) \<times> 'd \<times> 's \<times> dispatcher) option" where
  "dsp_send D A frame tx_deadline blocking_deadline qos flags iface_mask dsx =
    (let (d, s, x) = dsx
     in if fr_src_node_id frame \<noteq> dsp_self_node_id x then Some (Inl ErrLogic, d, s, x)
        else
          (case frame_compile frame can_frame_default of
             None \<Rightarrow> Some (Inl ErrLogic, d, s, x)
           | Some can_frame \<Rightarrow>
               map_option (\<lambda>(res, d, s, c). (res, d, s, x\<lparr>dsp_canio := c\<rparr>))
                 (cio_send D A can_frame tx_deadline blocking_deadline iface_mask qos flags (d, s, dsp_canio x))))"

definition dsp_cleanup :: "'s allocator_ops \<Rightarrow> time \<Rightarrow> 's \<times> dispatcher \<Rightarrow> 's \<times> dispatcher" where
  "dsp_cleanup A ts sx =
    (let (s, x) = sx;
         (s, otr) = otr_cleanup A ts (s, dsp_outgoing_transfer_reg x);
         (s, lmsg) = lr_cleanup A ts (s, dsp_lmsg x);
         (s, lreq) = lr_cleanup A ts (s, dsp_lsrv_req x);
         (s, lresp) = lr_cleanup A ts (s, dsp_lsrv_resp x)
     in (s, x\<lparr>dsp_outgoing_transfer_reg := otr, dsp_lmsg := lmsg, dsp_lsrv_req := lreq, dsp_lsrv_resp := lresp\<rparr>))"

definition dsp_registerMessageListener :: "listener_node \<Rightarrow> dispatcher \<Rightarrow> bool \<times> dispatcher" where
  "dsp_registerMessageListener p x =
    (if dtd_kind (tl_data_type (ln_listener p)) \<noteq> DataTypeKindMessage then (False, x)
     else (let (ok, l) = lr_add p ManyListeners (dsp_lmsg x) in (ok, x\<lparr>dsp_lmsg := l\<rparr>)))"

definition dsp_registerServiceRequestListener :: "listener_node \<Rightarrow> dispatcher \<Rightarrow> bool \<times> dispatcher" where
  "dsp_registerServiceRequestListener p x =
    (if dtd_kind (tl_data_type (ln_listener p)) \<noteq> DataTypeKindService then (False, x)
     else (let (ok, l) = lr_add p UniqueListener (dsp_lsrv_req x) in (ok, x\<lparr>dsp_lsrv_req := l\<rparr>)))"

definition dsp_registerServiceResponseListener :: "listener_node \<Rightarrow> dispatcher \<Rightarrow> bool \<times> dispatcher" where
  "dsp_registerServiceResponseListener p x =
    (if dtd_kind (tl_data_type (ln_listener p)) \<noteq> DataTypeKindService then (False, x)
     else (let (ok, l) = lr_add p ManyListeners (dsp_lsrv_resp x) in (ok, x\<lparr>dsp_lsrv_resp := l\<rparr>)))"

definition dsp_unregisterMessageListener :: "addr \<Rightarrow> dispatcher \<Rightarrow> dispatcher" where
  "dsp_unregisterMessageListener a x = x\<lparr>dsp_lmsg := lr_remove a (dsp_lmsg x)\<rparr>"

definition dsp_unregisterServiceRequestListener :: "addr \<Rightarrow> dispatcher \<Rightarrow> dispatcher" where
  "dsp_unregisterServiceRequestListener a x = x\<lparr>dsp_lsrv_req := lr_remove a (dsp_lsrv_req x)\<rparr>"

definition dsp_unregisterServiceResponseListener :: "addr \<Rightarrow> dispatcher \<Rightarrow> dispatcher" where
  "dsp_unregisterServiceResponseListener a x = x\<lparr>dsp_lsrv_resp := lr_remove a (dsp_lsrv_resp x)\<rparr>"

definition dsp_hasSubscriber :: "data_type_id \<Rightarrow> dispatcher \<Rightarrow> bool" where
  "dsp_hasSubscriber dtid x = lr_exists dtid (dsp_lmsg x)"

definition dsp_hasPublisher :: "data_type_id \<Rightarrow> dispatcher \<Rightarrow> bool" where
  "dsp_hasPublisher dtid x = otr_exists dtid TransferTypeMessageBroadcast (dsp_outgoing_transfer_reg x)"

definition dsp_hasServer :: "data_type_id \<Rightarrow> dispatcher \<Rightarrow> bool" where
  "dsp_hasServer dtid x = lr_exists dtid (dsp_lsrv_req x)"

definition dsp_setNodeID :: "node_id \<Rightarrow> dispatcher \<Rightarrow> bool \<times> dispatcher" where
  "dsp_setNodeID nid x =
    (if \<not> dsp_self_node_id_is_set x
     then (True, x\<lparr>dsp_self_node_id := nid, dsp_self_node_id_is_set := True\<rparr>)
     else (False, x))"

definition dsp_installRxFrameListener :: "addr \<Rightarrow> dispatcher \<Rightarrow> dispatcher" where
  "dsp_installRxFrameListener a x = x\<lparr>dsp_rx_listener := Some a\<rparr>"

definition dsp_removeRxFrameListener :: "dispatcher \<Rightarrow> dispatcher" where
  "dsp_removeRxFrameListener x = x\<lparr>dsp_rx_listener := None\<rparr>"

section \<open>The order of the listeners\<close>

definition lr_sorted :: "listener_node list \<Rightarrow> bool" where
  "lr_sorted ps \<longleftrightarrow> sorted_wrt (\<lambda>a b. ln_id b \<le> ln_id a) ps"

text \<open>The reference: the frame is offered to every listener for its data type, in the order of the list.\<close>

fun lr_offer ::
  "'s allocator_ops \<Rightarrow> (addr \<Rightarrow> nat \<Rightarrow> u8) \<Rightarrow> rx_frame \<Rightarrow> listener_node list \<Rightarrow> perf_counter \<times> 's \<Rightarrow>
    (addr \<times> incoming_transfer) list \<times> listener_node list \<times> perf_counter \<times> 's" where
  "lr_offer A mem frame [] ps = ([], [], ps)"
| "lr_offer A mem frame (p # nodes) ps =
    (if ln_id p = fr_data_type_id (rxf_frame frame) then
       (let (it, perf, s, p') = ln_handleFrame A mem frame (fst ps, snd ps, p);
            (its, nodes, ps) = lr_offer A mem frame nodes (perf, s)
        in ((case it of Some t \<Rightarrow> [(ln_addr p, t)] | None \<Rightarrow> []) @ its, p' # nodes, ps))
     else (let (its, nodes, ps) = lr_offer A mem frame nodes ps in (its, p # nodes, ps)))"

lemma lr_offer_none:
  "\<forall>p \<in> set nodes. ln_id p \<noteq> fr_data_type_id (rxf_frame frame) \<Longrightarrow> lr_offer A mem frame nodes ps = ([], nodes, ps)"
  by (induction nodes) auto

lemma lr_handleFrame_eq:
  "lr_sorted nodes \<Longrightarrow> lr_handleFrame A mem frame nodes ps = lr_offer A mem frame nodes ps"
proof (induction nodes arbitrary: ps)
  case (Cons p nodes)
  obtain perf s where ps: "ps = (perf, s)" by fastforce
  have "lr_sorted nodes" using Cons.prems by (simp add: lr_sorted_def)
  then have IH: "lr_handleFrame A mem frame nodes ps = lr_offer A mem frame nodes ps" for ps by (rule Cons.IH)
  show ?case
  proof (cases "ln_id p < fr_data_type_id (rxf_frame frame)")
    case True
    then have "\<forall>q \<in> set (p # nodes). ln_id q \<noteq> fr_data_type_id (rxf_frame frame)"
      using Cons.prems by (auto simp: lr_sorted_def)
    then show ?thesis using lr_offer_none [of "p # nodes" frame A mem ps] True order_less_imp_not_eq [OF True] by simp
  next
    case False
    then show ?thesis using IH by (simp add: ps split: prod.splits)
  qed
qed simp

lemma lr_sorted_map: "map ln_id qs = map ln_id ps \<Longrightarrow> lr_sorted qs = lr_sorted ps"
proof -
  have "lr_sorted xs = sorted_wrt (\<lambda>a b. b \<le> a) (map ln_id xs)" for xs by (simp add: lr_sorted_def sorted_wrt_map)
  then show "map ln_id qs = map ln_id ps \<Longrightarrow> lr_sorted qs = lr_sorted ps" by simp
qed

text \<open>No operation of a listener changes its data type.\<close>

lemma tl_handleFrame_data_type:
  assumes "tl_handleFrame A mem rx (perf, s, l) = (it, perf', s', l')"
  shows "tl_data_type l' = tl_data_type l"
proof -
  have h: "tl_data_type l2 = tl_data_type l1"
    if "tl_handleReception A mem rx key recv (perf1, s1, l1) = (it2, r2, perf2, s2, l2)" for key recv perf1 s1 l1 it2 r2 perf2 s2 l2
    using that by (auto simp: tl_handleReception_def Let_def split: prod.splits result_code.splits option.splits if_splits)
  show ?thesis
    using assms
    by (auto simp: tl_handleFrame_def tl_handleAnonymousTransferReception_def Let_def dest!: h
        split: if_splits option.splits prod.splits)
qed

lemma ln_handleFrame_id:
  assumes "ln_handleFrame A mem rx (perf, s, p) = (it, perf', s', p')"
  shows "ln_id p' = ln_id p \<and> ln_addr p' = ln_addr p"
  using assms
  by (auto simp: ln_handleFrame_def ln_id_def tlf_handleFrame_def dest!: tl_handleFrame_data_type
      split: listener_class.splits prod.splits option.splits if_splits)

lemma lr_offer_ids:
  "lr_offer A mem frame nodes ps = (its, nodes', ps') \<Longrightarrow>
    map ln_id nodes' = map ln_id nodes \<and> map ln_addr nodes' = map ln_addr nodes"
proof (induction nodes arbitrary: ps its nodes' ps')
  case (Cons p nodes)
  obtain it perf s p' where h: "ln_handleFrame A mem frame (fst ps, snd ps, p) = (it, perf, s, p')" by (metis prod_cases4)
  obtain is1 n1 x1 where r1: "lr_offer A mem frame nodes (perf, s) = (is1, n1, x1)" by (metis prod_cases3)
  obtain is2 n2 x2 where r2: "lr_offer A mem frame nodes ps = (is2, n2, x2)" by (metis prod_cases3)
  have "nodes' = (if ln_id p = fr_data_type_id (rxf_frame frame) then p' # n1 else p # n2)"
    using Cons.prems h r1 r2 by (simp split: if_splits)
  then show ?case using Cons.IH [OF r1] Cons.IH [OF r2] ln_handleFrame_id [OF h] by simp
qed simp

lemma tl_cleanup_data_type: "tl_cleanup A ts (s, l) = (s', l') \<Longrightarrow> tl_data_type l' = tl_data_type l"
  by (auto simp: tl_cleanup_def split: prod.splits)

lemma lr_cleanup_ids:
  "lr_cleanup A ts (s, ps) = (s', ps') \<Longrightarrow> map ln_id ps' = map ln_id ps \<and> map ln_addr ps' = map ln_addr ps"
proof (induction ps arbitrary: s s' ps')
  case (Cons p ps)
  obtain s1 l1 where c: "tl_cleanup A ts (s, ln_listener p) = (s1, l1)" by fastforce
  obtain s2 ps2 where r: "lr_cleanup A ts (s1, ps) = (s2, ps2)" by fastforce
  have "ps' = p\<lparr>ln_listener := l1\<rparr> # ps2" using Cons.prems c r by simp
  then show ?case using Cons.IH [OF r] tl_cleanup_data_type [OF c] by (simp add: ln_id_def)
qed simp

lemma remove_first_subset: "set (remove_first P ps) \<subseteq> set ps"
  by (induction ps) auto

lemma remove_first_sorted: "lr_sorted ps \<Longrightarrow> lr_sorted (remove_first P ps)"
  unfolding lr_sorted_def
proof (induction ps)
  case (Cons p ps)
  then show ?case using remove_first_subset [of P ps] by auto
qed simp

lemma remove_first_distinct: "distinct (map f ps) \<Longrightarrow> distinct (map f (remove_first P ps))"
proof (induction ps)
  case (Cons p ps)
  then show ?case using image_mono [OF remove_first_subset, of f P ps] by auto
qed simp

lemma lr_insert_sorted:
  "lr_sorted ps \<Longrightarrow> lr_sorted (insert_before (lr_insertion_comparator (ln_id p)) p ps)"
  unfolding lr_sorted_def lr_insertion_comparator_def by (induction ps) fastforce+

text \<open>The histories of a registry that is used in one of the two modes.\<close>

inductive lr_reachable ::
  "'s allocator_ops \<Rightarrow> (addr \<Rightarrow> nat \<Rightarrow> u8) \<Rightarrow> registry_mode \<Rightarrow> listener_node list \<Rightarrow> bool" for A mem mode where
  lr_empty: "lr_reachable A mem mode []"
| lr_do_add: "lr_reachable A mem mode ps \<Longrightarrow> lr_add p mode ps = (ok, ps') \<Longrightarrow> lr_reachable A mem mode ps'"
| lr_do_remove: "lr_reachable A mem mode ps \<Longrightarrow> lr_reachable A mem mode (lr_remove a ps)"
| lr_do_cleanup: "lr_reachable A mem mode ps \<Longrightarrow> lr_cleanup A ts (s, ps) = (s', ps') \<Longrightarrow> lr_reachable A mem mode ps'"
| lr_do_frame: "lr_reachable A mem mode ps \<Longrightarrow> lr_handleFrame A mem frame ps x = (its, ps', x') \<Longrightarrow>
    lr_reachable A mem mode ps'"

lemma lr_reachable_sorted:
  "lr_reachable A mem mode ps \<Longrightarrow> lr_sorted ps \<and> (mode = UniqueListener \<longrightarrow> distinct (map ln_id ps))"
proof (induction rule: lr_reachable.induct)
  case lr_empty
  then show ?case by (simp add: lr_sorted_def)
next
  case (lr_do_add ps p ok ps')
  let ?qs = "remove_first (\<lambda>q. ln_addr q = ln_addr p) ps"
  have "distinct (map ln_id (insert_before Q p ?qs))" if u: "mode = UniqueListener" "ok" for Q
  proof (rule distinct_insert_before [OF remove_first_distinct])
    show "distinct (map ln_id ps)" using lr_do_add.IH u by simp
    have "ln_id p \<notin> ln_id ` set ps" using lr_do_add.hyps(2) u by (auto simp: lr_add_def list_ex_iff split: if_splits)
    then show "ln_id p \<notin> ln_id ` set ?qs"
      using image_mono [OF remove_first_subset, of ln_id "\<lambda>q. ln_addr q = ln_addr p" ps] by blast
  qed
  then show ?case using lr_do_add lr_insert_sorted [OF remove_first_sorted]
    by (auto simp: lr_add_def split: if_splits)
next
  case (lr_do_remove ps a)
  then show ?case by (simp add: lr_remove_def remove_first_sorted remove_first_distinct)
next
  case (lr_do_cleanup ps ts s s' ps')
  then show ?case using lr_cleanup_ids [OF lr_do_cleanup(2)] lr_sorted_map [of ps' ps] by simp
next
  case (lr_do_frame ps frame x its ps' x')
  then have "lr_offer A mem frame ps x = (its, ps', x')" using lr_handleFrame_eq by metis
  then show ?case using lr_do_frame.IH lr_offer_ids lr_sorted_map [of ps' ps] by metis
qed

text \<open>
  C12.  A registry of listeners stays ordered by data type ID, in descending order, and so the walk that
  ends at the first smaller ID still offers a frame to every listener for its data type.  A registry that
  is used with unique listeners never has two for the same data type.
\<close>

theorem registry_offers_to_all:
  assumes "lr_reachable A mem mode ps"
  shows "lr_handleFrame A mem frame ps x = lr_offer A mem frame ps x \<and> lr_sorted ps \<and>
    (mode = UniqueListener \<longrightarrow> distinct (map ln_id ps)) \<and>
    (\<forall>dtid. lr_exists dtid ps \<longleftrightarrow> dtid \<in> ln_id ` set ps)"
  using lr_reachable_sorted [OF assms] lr_handleFrame_eq [of ps A mem frame x]
  by (auto simp: lr_exists_def list_ex_iff)

definition example_node :: "addr \<Rightarrow> data_type_id \<Rightarrow> listener_node" where
  "example_node a dtid = \<lparr>ln_addr = a, ln_class = PlainListener,
     ln_listener = TransferListener \<lparr>dtd_signature = 0, dtd_full_name = None, dtd_kind = DataTypeKindMessage, dtd_id = dtid\<rparr> 100\<rparr>"

theorem registry_offers_to_all_witness:
  "let ps = snd (lr_add (example_node 2 7) ManyListeners (snd (lr_add (example_node 1 5) ManyListeners [])));
       frame = example_rx [1, 2] 0 True 1; x = (TransferPerfCounter, PoolAllocator 128 64)
   in map ln_id ps = [7, 5] \<and>
      lr_handleFrame pool_ops (\<lambda>_ _. 0) frame ps x = lr_offer pool_ops (\<lambda>_ _. 0) frame ps x"
proof -
  let ?m = "\<lambda>_ _. 0"
  obtain ok ps where a: "lr_add (example_node 1 5) ManyListeners [] = (ok, ps)" by fastforce
  obtain ok' ps' where b: "lr_add (example_node 2 7) ManyListeners ps = (ok', ps')" by fastforce
  have "lr_reachable pool_ops ?m ManyListeners ps'" by (rule lr_do_add [OF lr_do_add [OF lr_empty a] b])
  note * = registry_offers_to_all [OF this, of "example_rx [1, 2] 0 True 1" "(TransferPerfCounter, PoolAllocator 128 64)"]
  have "map ln_id ps' = [7, 5]"
    using a b by (auto simp: lr_add_def example_node_def lr_insertion_comparator_def ln_id_def TransferListener_def)
  then show ?thesis using * a b by simp
qed

section \<open>Transfer IDs\<close>

definition otr_tid :: "otr_map \<Rightarrow> otr_key \<Rightarrow> transfer_id" where
  "otr_tid m key = (case kv_lookup otr_type m key of Some v \<Rightarrow> otv_tid v | None \<Rightarrow> 0)"

lemma otr_key_not_default: "OutgoingTransferRegistryKey dtid tt nid \<noteq> otr_key_default"
  by (cases tt) (simp_all add: OutgoingTransferRegistryKey_def otr_key_default_def)

lemma otr_update:
  assumes "kv_state_inv otr_type (p, m)" and "key \<noteq> otr_key_default" and "kv_lookup otr_type m key = Some w"
  shows "kv_state_inv otr_type (p, kv_update key v m)"
    and "kv_lookup otr_type (kv_update key v m) = (kv_lookup otr_type m)(key \<mapsto> v)"
    and "kv_others pool_live p (kv_update key v m) = kv_others pool_live p m"
proof -
  have i: "kv_inv otr_type m" "key \<noteq> mt_key otr_type" using assms(1,2) by (simp_all add: kv_state_inv_def otr_type_def)
  note u = kv_update_spec [OF i assms(3)]
  have "fst ` set (kv_update key v m) = fst ` set m" using u(3) by (metis set_map)
  then show "kv_state_inv otr_type (p, kv_update key v m)"
    "kv_others pool_live p (kv_update key v m) = kv_others pool_live p m"
    using u(1) assms(1) by (simp_all add: kv_state_inv_def kv_owns_def kv_others_def)
  show "kv_lookup otr_type (kv_update key v m) = (kv_lookup otr_type m)(key \<mapsto> v)" by (rule u(2))
qed

lemma otr_accessOrCreate_spec:
  assumes i: "kv_state_inv otr_type (p, m)" and k: "key \<noteq> otr_key_default"
    and a: "otr_accessOrCreate pool_ops key dl (p, m) = (r, p', m')"
  shows "kv_state_inv otr_type (p', m') \<and> kv_others pool_live p' m' = kv_others pool_live p m \<and>
    (case r of Some tid \<Rightarrow> tid = otr_tid m key \<and>
         kv_lookup otr_type m' = (kv_lookup otr_type m)(key \<mapsto> \<lparr>otv_deadline = dl, otv_tid = tid\<rparr>)
     | None \<Rightarrow> kv_lookup otr_type m key = None \<and> kv_lookup otr_type m' = kv_lookup otr_type m)"
proof -
  have k': "key \<noteq> mt_key otr_type" using k by (simp add: otr_type_def)
  note acc = kv_access_lookup [OF k', of m]
  show ?thesis
  proof (cases "kv_lookup otr_type m key")
    case (Some v)
    then have "r = Some (otv_tid v)" "p' = p" "m' = kv_update key (v\<lparr>otv_deadline := dl\<rparr>) m"
      using a acc by (simp_all add: otr_accessOrCreate_def)
    moreover have "v\<lparr>otv_deadline := dl\<rparr> = \<lparr>otv_deadline = dl, otv_tid = otv_tid v\<rparr>" by (cases v) simp
    ultimately show ?thesis using otr_update [OF i k Some] Some by (simp add: otr_tid_def)
  next
    case None
    let ?v = "\<lparr>otv_deadline = 0, otv_tid = 0\<rparr> :: otr_value"
    obtain ok p1 m1 where ins: "kv_insert pool_ops otr_type key ?v (p, m) = (ok, p1, m1)" by (metis prod_cases3)
    have pi: "pool_inv p" "kv_inv otr_type m" "kv_owns pool_live p m" "0 < mt_NumKV otr_type"
      using i by (simp_all add: kv_state_inv_def)
    note sp = pool.kv_insert_spec [OF pi(1-3) k' pi(4) ins]
    have i1: "kv_state_inv otr_type (p1, m1)" using sp pi(4) by (simp add: kv_state_inv_def)
    show ?thesis
    proof (cases ok)
      case True
      then have out: "r = Some 0" "p' = p1" "m' = kv_update key (?v\<lparr>otv_deadline := dl\<rparr>) m1"
        using a acc None ins by (simp_all add: otr_accessOrCreate_def)
      have "kv_lookup otr_type m1 key = Some ?v" using sp True by simp
      from otr_update [OF i1 k this] show ?thesis using out sp True None by (simp add: otr_tid_def)
    next
      case False
      then have "r = None" "p' = p1" "m' = m1" using a acc None ins by (simp_all add: otr_accessOrCreate_def)
      then show ?thesis using sp i1 False None by (auto simp: fun_upd_idem_iff)
    qed
  qed
qed

lemma otr_next_spec:
  assumes i: "kv_state_inv otr_type (p, m)" and k: "key \<noteq> otr_key_default"
    and n: "otr_next pool_ops key dl (p, m) = (r, p', m')"
  shows "kv_state_inv otr_type (p', m') \<and> kv_others pool_live p' m' = kv_others pool_live p m \<and>
    (case r of Some tid \<Rightarrow> tid = otr_tid m key \<and>
         kv_lookup otr_type m' = (kv_lookup otr_type m)(key \<mapsto> \<lparr>otv_deadline = dl, otv_tid = tid_increment tid\<rparr>)
     | None \<Rightarrow> kv_lookup otr_type m key = None \<and> kv_lookup otr_type m' = kv_lookup otr_type m)"
proof -
  obtain r1 p1 m1 where a: "otr_accessOrCreate pool_ops key dl (p, m) = (r1, p1, m1)" by (metis prod_cases3)
  note sp = otr_accessOrCreate_spec [OF i k a]
  have k': "key \<noteq> mt_key otr_type" using k by (simp add: otr_type_def)
  show ?thesis
  proof (cases r1)
    case None
    then show ?thesis using n a sp by (simp add: otr_next_def)
  next
    case (Some tid)
    have l: "kv_lookup otr_type m1 key = Some \<lparr>otv_deadline = dl, otv_tid = tid\<rparr>" using sp Some by simp
    then have "r = Some tid" "p' = p1" "m' = kv_update key \<lparr>otv_deadline = dl, otv_tid = tid_increment tid\<rparr> m1"
      using n a Some kv_access_lookup [OF k', of m1] by (simp_all add: otr_next_def otr_increment_def)
    then show ?thesis using otr_update [OF conjunct1 [OF sp] k l] sp Some by simp
  qed
qed

lemma otr_cleanup_spec:
  assumes i: "kv_state_inv otr_type (p, m)" and c: "otr_cleanup pool_ops ts (p, m) = (p', m')"
  shows "kv_state_inv otr_type (p', m') \<and> kv_others pool_live p' m' = kv_others pool_live p m \<and>
    kv_lookup otr_type m' key = (case kv_lookup otr_type m key of
      Some v \<Rightarrow> if otv_deadline v \<le> ts then None else Some v | None \<Rightarrow> None)"
proof -
  have pi: "pool_inv p" "kv_inv otr_type m" "kv_owns pool_live p m" "0 < mt_NumKV otr_type"
    using i by (simp_all add: kv_state_inv_def)
  have r: "kv_removeAllWhere pool_ops otr_type (\<lambda>k v x. (otr_deadline_expired ts v, x)) (p, ()) m = ((p', ()), m')"
    using c by (auto simp: otr_cleanup_def split: prod.splits)
  note e = kv_removeAllWhere_eq [where P = "\<lambda>_ v. otr_deadline_expired ts v" and f = "\<lambda>_ _ x. x", OF pi(2) r]
  have fd: "kv_fold (\<lambda>_ _ x. x) x es = x" for x :: "pool \<times> unit" and es :: "(otr_key \<times> otr_value) list"
    by (induction es) (simp_all add: kv_fold_def)
  obtain ds where ds: "p' = deallocate_all pool_ops p ds" "distinct (ds @ map fst m')"
    "set (ds @ map fst m') = set (map fst m)"
    using e(3) fd by auto
  have rel: "pool_inv p' \<and> kv_owns pool_live p' m' \<and> kv_others pool_live p' m' = kv_others pool_live p m"
    by (rule pool.kv_release [OF pi(1,3) ds])
  have d: "distinct (map fst (kv_entries otr_type m))" using pi(2) by (simp add: kv_inv_def)
  have "map_of (filter (\<lambda>kv. \<not> Q (snd kv)) xs) key =
      (case map_of xs key of Some v \<Rightarrow> if Q v then None else Some v | None \<Rightarrow> None)"
    if "distinct (map fst xs)" for Q and xs :: "(otr_key \<times> otr_value) list"
    using that by (induction xs) (auto split: option.splits simp: map_of_eq_None_iff)
  from this [OF d, of "otr_deadline_expired ts"]
  have "kv_lookup otr_type m' key = (case kv_lookup otr_type m key of
      Some v \<Rightarrow> if otv_deadline v \<le> ts then None else Some v | None \<Rightarrow> None)"
    unfolding kv_lookup_def e(2) otr_deadline_expired_def .
  then show ?thesis using rel e(1) pi(4) by (simp add: kv_state_inv_def)
qed

text \<open>A history of the registry: transfers that take their ID, and cleanups.\<close>

datatype otr_op = Use otr_key time | Cleanup time

fun otr_run ::
  "'s allocator_ops \<Rightarrow> otr_op list \<Rightarrow> 's \<times> otr_map \<Rightarrow> (otr_key \<times> transfer_id option) list \<times> 's \<times> otr_map" where
  "otr_run A [] sm = ([], sm)"
| "otr_run A (Use key dl # ops) sm =
    (let (r, sm) = otr_next A key dl sm; (rs, sm) = otr_run A ops sm in ((key, r) # rs, sm))"
| "otr_run A (Cleanup ts # ops) sm = otr_run A ops (otr_cleanup A ts sm)"

definition otr_issued :: "otr_key \<Rightarrow> (otr_key \<times> transfer_id option) list \<Rightarrow> transfer_id list" where
  "otr_issued k rs = List.map_filter (\<lambda>(key, r). if key = k then r else None) rs"

lemma otr_issued_simps [simp]:
  "otr_issued k [] = []"
  "otr_issued k ((key, r) # rs) = (if key = k then (case r of Some t \<Rightarrow> [t] | None \<Rightarrow> []) else []) @ otr_issued k rs"
  by (simp_all add: otr_issued_def map_filter_simps split: option.splits)

lemma otr_run_issued:
  assumes "kv_state_inv otr_type (p, m)"
    and "\<forall>key dl. Use key dl \<in> set ops \<longrightarrow> key \<noteq> otr_key_default \<and> (key = k \<longrightarrow> T < dl)"
    and "\<forall>ts. Cleanup ts \<in> set ops \<longrightarrow> ts \<le> T"
    and "\<forall>v. kv_lookup otr_type m k = Some v \<longrightarrow> T < otv_deadline v"
    and "otr_run pool_ops ops (p, m) = (rs, p', m')"
  shows "otr_issued k rs = map (\<lambda>i. (tid_increment ^^ i) (otr_tid m k)) [0..<length (otr_issued k rs)] \<and>
    kv_state_inv otr_type (p', m') \<and> kv_others pool_live p' m' = kv_others pool_live p m"
  using assms
proof (induction ops arbitrary: p m rs)
  case (Cons op ops)
  show ?case
  proof (cases op)
    case (Use key dl)
    obtain r p1 m1 where n: "otr_next pool_ops key dl (p, m) = (r, p1, m1)" by (metis prod_cases3)
    obtain rs1 where run: "otr_run pool_ops ops (p1, m1) = (rs1, p', m')" and rs: "rs = (key, r) # rs1"
      using Cons.prems(5) Use n by (auto split: prod.splits)
    have kd: "key \<noteq> otr_key_default" "key = k \<Longrightarrow> T < dl" using Cons.prems(2) Use by auto
    note sp = otr_next_spec [OF Cons.prems(1) kd(1) n]
    have "\<forall>v. kv_lookup otr_type m1 k = Some v \<longrightarrow> T < otv_deadline v"
      using sp Cons.prems(4) kd(2) by (cases r) auto
    from Cons.IH [OF _ _ _ this run] have IH:
      "otr_issued k rs1 = map (\<lambda>i. (tid_increment ^^ i) (otr_tid m1 k)) [0..<length (otr_issued k rs1)]"
      "kv_state_inv otr_type (p', m')" "kv_others pool_live p' m' = kv_others pool_live p1 m1"
      using sp Cons.prems(2,3) by auto
    show ?thesis
    proof (cases "key = k \<and> r \<noteq> None")
      case True
      then obtain tid where t: "r = Some tid" "tid = otr_tid m k" "otr_tid m1 k = tid_increment tid"
        using sp by (auto simp: otr_tid_def)
      have "otr_issued k rs = map (\<lambda>i. (tid_increment ^^ i) tid) [0..<Suc (length (otr_issued k rs1))]"
      proof -
        have "map (\<lambda>i. (tid_increment ^^ i) (tid_increment tid)) [0..<n] = map (\<lambda>i. (tid_increment ^^ i) tid) [Suc 0..<Suc n]" for n
          by (simp only: map_Suc_upt [symmetric] map_map comp_def funpow_Suc_right)
        then have "otr_issued k rs1 = map (\<lambda>i. (tid_increment ^^ i) tid) [Suc 0..<Suc (length (otr_issued k rs1))]"
          using IH(1) t(3) by simp
        then show ?thesis using True t(1) rs by (simp add: upt_conv_Cons del: upt_Suc)
      qed
      then show ?thesis using IH sp t by simp
    next
      case False
      then have "otr_issued k rs = otr_issued k rs1" "otr_tid m1 k = otr_tid m k"
        using sp rs by (auto simp: otr_tid_def split: option.splits)
      then show ?thesis using IH sp by simp
    qed
  next
    case (Cleanup ts)
    obtain p1 m1 where c: "otr_cleanup pool_ops ts (p, m) = (p1, m1)" by fastforce
    note sp = otr_cleanup_spec [OF Cons.prems(1) c]
    have "ts \<le> T" using Cons.prems(3) Cleanup by simp
    then have same: "kv_lookup otr_type m1 k = kv_lookup otr_type m k"
      using sp [of k] Cons.prems(4) by (auto split: option.splits)
    have "otr_run pool_ops ops (p1, m1) = (rs, p', m')" using Cons.prems(5) Cleanup c by simp
    from Cons.IH [OF _ _ _ _ this] show ?thesis
      using sp Cons.prems(2-4) same by (auto simp: otr_tid_def)
  qed
qed simp

text \<open>
  C22.  The registry hands out consecutive transfer IDs (modulo 32) to the transfers of each key, however
  the transfers of different keys and the cleanups are interleaved, as long as no cleanup comes after the
  deadline of an entry; it leaves the blocks of the other users of the memory pool alone.
\<close>

theorem transfer_ids_consecutive:
  assumes "kv_state_inv otr_type (p, m)"
    and "\<forall>key dl. Use key dl \<in> set ops \<longrightarrow> key \<noteq> otr_key_default \<and> (key = k \<longrightarrow> T < dl)"
    and "\<forall>ts. Cleanup ts \<in> set ops \<longrightarrow> ts \<le> T"
    and "\<forall>v. kv_lookup otr_type m k = Some v \<longrightarrow> T < otv_deadline v"
    and "otr_run pool_ops ops (p, m) = (rs, p', m')"
  shows "otr_issued k rs = map (\<lambda>i. (tid_increment ^^ i) (otr_tid m k)) [0..<length (otr_issued k rs)] \<and>
    kv_state_inv otr_type (p', m') \<and> kv_others pool_live p' m' = kv_others pool_live p m"
  using otr_run_issued [OF assms] .

theorem transfer_ids_consecutive_witness:
  "let k = OutgoingTransferRegistryKey 7 TransferTypeMessageBroadcast 0;
       (rs, p, m) = otr_run pool_ops [Use k 10, Cleanup 5, Use k 20] (PoolAllocator 128 64, [])
   in length (otr_issued k rs) = 2 \<and> otr_issued k rs = [0, 1]"
proof -
  let ?k = "OutgoingTransferRegistryKey 7 TransferTypeMessageBroadcast 0"
  let ?p = "PoolAllocator 128 64" and ?ops = "[Use ?k 10, Cleanup 5, Use ?k 20]"
  obtain rs p m where run: "otr_run pool_ops ?ops (?p, []) = (rs, p, m)" by (metis prod_cases3)
  have "pool_inv ?p" using PoolAllocator_fresh [of 128 64] by simp
  then have i: "kv_state_inv otr_type (?p, [])"
    by (simp add: kv_state_inv_def otr_type_def kv_inv_def kv_owns_def MemPoolBlockSize_def sizeof_ptr_def)
  obtain r1 p1 m1 where n1: "otr_next pool_ops ?k 10 (?p, []) = (r1, p1, m1)" by (metis prod_cases3)
  obtain p2 m2 where c: "otr_cleanup pool_ops 5 (p1, m1) = (p2, m2)" by fastforce
  obtain r3 p3 m3 where n3: "otr_next pool_ops ?k 20 (p2, m2) = (r3, p3, m3)" by (metis prod_cases3)
  have "r1 \<noteq> None"
    using n1 by (auto simp: otr_next_def otr_accessOrCreate_def kv_access_def kv_insert_def kv_remove_def kvg_instantiate_def
        otr_type_def pool_allocate_def PoolAllocator_def Let_def)
  then obtain v where v: "kv_lookup otr_type m1 ?k = Some v" "otv_deadline v = 10" "kv_state_inv otr_type (p1, m1)"
    using otr_next_spec [OF i otr_key_not_default n1] by auto
  have "kv_lookup otr_type m2 ?k = Some v" "kv_state_inv otr_type (p2, m2)"
    using otr_cleanup_spec [OF v(3) c] v(1,2) by auto
  then have "r3 \<noteq> None" using otr_next_spec [OF _ otr_key_not_default n3] by (cases r3) auto
  then have len: "length (otr_issued ?k rs) = 2" using run n1 c n3 \<open>r1 \<noteq> None\<close> by auto
  have t0: "otr_tid [] ?k = 0" by (simp add: otr_tid_def kv_lookup_def kv_entries_def)
  have "otr_issued ?k rs = map (\<lambda>i. (tid_increment ^^ i) (otr_tid [] ?k)) [0..<length (otr_issued ?k rs)]"
    using transfer_ids_consecutive [OF i _ _ _ run, of ?k 5] otr_key_not_default
    by (auto simp: kv_lookup_def kv_entries_def)
  then have "otr_issued ?k rs = [0, 1]"
    unfolding len t0 by (simp add: numeral_2_eq_2 upt_rec tid_increment_def tid_Max_def tid_BitLen_def)
  then show ?thesis using len run by simp
qed

section \<open>Spinning\<close>

lemma spin_returns:
  assumes P: "clock_progress D dl \<mu>"
  shows "\<exists>r. dsp_spin D A mem dl n es dsx = Some r"
proof (induction "\<mu> (fst dsx)" arbitrary: n es dsx rule: less_induct)
  case less
  obtain d s x where dsx: "dsx = (d, s, x)" by (metis prod_cases3)
  obtain res d1 s1 c1 where rc: "cio_receive D A dl (d, s, dsp_canio x) = Some (res, d1, s1, c1)" "\<mu> d1 \<le> \<mu> d"
    using receive_returns [OF P, of A "(d, s, dsp_canio x)"] by auto
  show ?case
  proof (cases res)
    case (Inl e)
    then show ?thesis using rc dsx by (subst dsp_spin.simps) simp
  next
    case (Inr r)
    obtain n' es' s' x' where pr: "(case r of None \<Rightarrow> (n, [], s1, x\<lparr>dsp_canio := c1\<rparr>)
        | Some (_, frame, flags) \<Rightarrow> dsp_process A mem frame flags n (s1, x\<lparr>dsp_canio := c1\<rparr>)) = (n', es', s', x')"
      by (metis prod_cases4)
    obtain now d2 where clk: "pf_getMonotonic D d1 = (now, d2)" by fastforce
    have step: "dsp_spin D A mem dl n es dsx =
        (if now < dl then dsp_spin D A mem dl n' (es @ es') (d2, s', x') else Some (Inr n', es @ es', d2, s', x'))"
      using rc Inr pr clk dsx by (subst dsp_spin.simps) simp
    show ?thesis
    proof (cases "now < dl")
      case True
      then have "\<mu> (fst (d2, s', x')) < \<mu> (fst dsx)"
        using clock_progress_le(2) [OF P clk] rc(2) dsx by simp
      from less [OF this] show ?thesis using step True by simp
    next
      case False
      then show ?thesis using step by simp
    qed
  qed
qed

text \<open>
  C21.  \<^verbatim>\<open>Dispatcher::spin\<close> returns, whatever frames arrive and whatever the driver does, if the clock makes
  progress to the deadline.
\<close>

theorem spin_terminates:
  assumes "clock_progress D deadline \<mu>"
  shows "\<exists>res events d' s' x'. dsp_spin D A mem deadline 0 [] (d, s, x) = Some (res, events, d', s', x')"
  using spin_returns [OF assms, of A mem 0 "[]" "(d, s, x)"] by (metis prod_cases5)

theorem spin_terminates_witness:
  "dsp_spin example_platform pool_ops (\<lambda>_ _. 0) 1000 0 [] (0, PoolAllocator 128 64,
     \<lparr>dsp_canio = \<lparr>cio_tx_queues = [CanTxQueue 1, CanTxQueue 1],
        cio_counters = replicate 3 \<lparr>ic_frames_tx = 0, ic_frames_rx = 0\<rparr>, cio_num_ifaces = 2\<rparr>,
      dsp_outgoing_transfer_reg = [], dsp_perf = TransferPerfCounter, dsp_lmsg = [example_node 1 5],
      dsp_lsrv_req = [], dsp_lsrv_resp = [], dsp_loopback_listeners = [], dsp_rx_listener = None,
      dsp_self_node_id = 42, dsp_self_node_id_is_set = True\<rparr>) \<noteq> None"
  using spin_terminates [OF example_platform_progress] by fastforce

end
