(* ===== verification/Senders.thy ===== *)
theory Senders
  imports Dispatchers
begin

text \<open>
  \<^verbatim>\<open>TransferSender\<close> (include/uavcan/transport/transfer_sender.hpp, src/transport/uc_transfer_sender.cpp),
  and the way of a transfer from the sender over the bus to a listener.
\<close>

unbundle bit_operations_syntax

section \<open>Definitions\<close>

record transfer_sender =
  ts_max_transfer_interval :: duration
  ts_priority :: transfer_priority
  ts_qos :: qos
  ts_crc_base :: u16
  ts_data_type_id :: data_type_id
  ts_flags :: can_io_flags
  ts_iface_mask :: u8
  ts_allow_anonymous_transfers :: bool

definition ts_getDefaultMaxTransferInterval :: duration where
  "ts_getDefaultMaxTransferInterval = dur_fromMSec (60 * 1000)"

text \<open>The constructor without a data type; a default \<^verbatim>\<open>TransferCRC\<close> has its initial value.\<close>

definition TransferSender :: "duration \<Rightarrow> transfer_sender" where
  "TransferSender max_transfer_interval =
    \<lparr>ts_max_transfer_interval = max_transfer_interval, ts_priority = priority_Default, ts_qos = Volatile,
     ts_crc_base = crc_init, ts_data_type_id = data_type_id_invalid, ts_flags = 0, ts_iface_mask = 0xFF,
     ts_allow_anonymous_transfers = False\<rparr>"

definition ts_init :: "data_type_descriptor \<Rightarrow> qos \<Rightarrow> transfer_sender \<Rightarrow> transfer_sender" where
  "ts_init dtid qos t =
    t\<lparr>ts_qos := qos, ts_data_type_id := dtd_id dtid, ts_crc_base := toTransferCRC (dtd_signature dtid)\<rparr>"

definition ts_isInitialized :: "transfer_sender \<Rightarrow> bool" where
  "ts_isInitialized t \<longleftrightarrow> ts_data_type_id t \<noteq> data_type_id_invalid"

definition ts_registerError :: "dispatcher \<Rightarrow> dispatcher" where
  "ts_registerError x = x\<lparr>dsp_perf := pc_addError (dsp_perf x)\<rparr>"

text \<open>
  The loop over the frames of a transfer: the frame to send, the offset of the payload that follows it,
  and the number of frames sent so far.
\<close>

function ts_send_loop ::
  "'d platform \<Rightarrow> 's allocator_ops \<Rightarrow> transfer_sender \<Rightarrow> u8 list \<Rightarrow> time \<Rightarrow> time \<Rightarrow> frame \<Rightarrow> nat \<Rightarrow> nat \<Rightarrow>
    'd \<times> 's \<times> dispatcher \<Rightarrow> ((uavcan_error + nat) \<times> 'd \<times> 's \<times> dispatcher) option" where
  "ts_send_loop D A t payload tx_deadline blocking_deadline frame offset num_sent dsx =
    (case dsp_send D A frame tx_deadline blocking_deadline (ts_qos t) (ts_flags t) (ts_iface_mask t) dsx of
       None \<Rightarrow> None
     | Some (Inl e, d, s, x) \<Rightarrow> Some (Inl e, d, s, ts_registerError x)
     | Some (Inr _, dsx) \<Rightarrow>
         if fr_end_of_transfer frame then Some (Inr (num_sent + 1), dsx)
         else
           (let frame = flipToggle (frame\<lparr>fr_start_of_transfer := False\<rparr>);
                (frame, write_res) = setPayload frame (drop offset payload);
                offset = offset + write_res;
                frame = (if offset \<ge> length payload then frame\<lparr>fr_end_of_transfer := True\<rparr> else frame)
            in ts_send_loop D A t payload tx_deadline blocking_deadline frame offset (num_sent + 1) dsx))"
  by pat_completeness auto

termination
  by (relation "measure (\<lambda>(D, A, t, payload, _, _, frame, offset, _, _).
        (length payload - offset) + (if fr_end_of_transfer frame then 0 else 1))")
     (auto simp: setPayload_def flipToggle_def PayloadCapacity_def Let_def split: if_splits)

declare ts_send_loop.simps [simp del]

text \<open>The first frame of a transfer of several frames: the CRC in little endian and the first bytes.\<close>

definition ts_first_payload :: "transfer_sender \<Rightarrow> u8 list \<Rightarrow> u8 list" where
  "ts_first_payload t payload =
    (let crc = crc_add_bytes (ts_crc_base t) payload
     in ucast (crc AND 0xFF) # ucast (drop_bit 8 crc AND 0xFF) # take 6 payload)"

definition ts_send ::
  "'d platform \<Rightarrow> 's allocator_ops \<Rightarrow> transfer_sender \<Rightarrow> u8 list \<Rightarrow> time \<Rightarrow> time \<Rightarrow> transfer_type \<Rightarrow> node_id \<Rightarrow>
    transfer_id \<Rightarrow> 'd \<times> 's \<times> dispatcher \<Rightarrow> ((uavcan_error + nat) \<times> 'd \<times> 's \<times> dispatcher) option" where
  "ts_send D A t payload tx_deadline blocking_deadline transfer_type dst_node_id tid dsx =
    (let (d, s, x) = dsx;
         frame = (Frame (ts_data_type_id t) transfer_type (dsp_self_node_id x) dst_node_id tid)
                   \<lparr>fr_priority := ts_priority t, fr_start_of_transfer := True\<rparr>
     in if dsp_isPassiveMode x \<and>
           \<not> (ts_allow_anonymous_transfers t \<and> transfer_type = TransferTypeMessageBroadcast \<and>
              length payload \<le> PayloadCapacity)
        then Some (Inl ErrPassiveMode, d, s, x)
        else
          (let x = x\<lparr>dsp_perf := pc_addTxTransfer (dsp_perf x)\<rparr>
           in if PayloadCapacity \<ge> length payload then
                (let (frame, res) = setPayload frame payload
                 in if res \<noteq> length payload then Some (Inl ErrLogic, d, s, ts_registerError x)
                    else
                      dsp_send D A (frame\<lparr>fr_end_of_transfer := True\<rparr>) tx_deadline blocking_deadline (ts_qos t)
                        (if node_id_isUnicast (fr_src_node_id frame) then ts_flags t
                         else ts_flags t OR CanIOFlagAbortOnError) (ts_iface_mask t) (d, s, x))
              else
                (let (frame, write_res) = setPayload frame (ts_first_payload t payload)
                 in if write_res < 2 then Some (Inr write_res, d, s, ts_registerError x)
                    else ts_send_loop D A t payload tx_deadline blocking_deadline frame (write_res - 2) 0 (d, s, x))))"

definition ts_send_auto ::
  "'d platform \<Rightarrow> 's allocator_ops \<Rightarrow> transfer_sender \<Rightarrow> u8 list \<Rightarrow> time \<Rightarrow> time \<Rightarrow> transfer_type \<Rightarrow> node_id \<Rightarrow>
    'd \<times> 's \<times> dispatcher \<Rightarrow> ((uavcan_error + nat) \<times> 'd \<times> 's \<times> dispatcher) option" where
  "ts_send_auto D A t payload tx_deadline blocking_deadline transfer_type dst_node_id dsx =
    (let (d, s, x) = dsx;
         otr_key = OutgoingTransferRegistryKey (ts_data_type_id t) transfer_type dst_node_id;
         otr_deadline = time_add tx_deadline (max (dur_scale (ts_max_transfer_interval t) 2) MinEntryLifetime);
         (tid, s, otr) = otr_next A otr_key otr_deadline (s, dsp_outgoing_transfer_reg x);
         x = x\<lparr>dsp_outgoing_transfer_reg := otr\<rparr>
     in case tid of
          None \<Rightarrow> Some (Inl ErrMemory, d, s, x)
        | Some this_tid \<Rightarrow>
            ts_send D A t payload tx_deadline blocking_deadline transfer_type dst_node_id (TransferID this_tid) (d, s, x))"

section \<open>The frames of a transfer\<close>

text \<open>
  The specification of a transfer: the list of its frames.  The frame after one that is not the last
  carries the next seven bytes, and the last frame is the one that reaches the end.
\<close>

definition ts_next_frame :: "u8 list \<Rightarrow> frame \<Rightarrow> nat \<Rightarrow> frame" where
  "ts_next_frame payload f offset =
    f\<lparr>fr_start_of_transfer := False, fr_toggle := \<not> fr_toggle f, fr_payload := take 7 (drop offset payload),
      fr_end_of_transfer := length payload \<le> offset + 7\<rparr>"

function ts_frames :: "u8 list \<Rightarrow> frame \<Rightarrow> nat \<Rightarrow> frame list" where
  "ts_frames payload f offset =
    f # (if fr_end_of_transfer f then [] else ts_frames payload (ts_next_frame payload f offset) (offset + 7))"
  by pat_completeness auto

termination
  by (relation "measure (\<lambda>(payload, f, offset). (length payload - offset) + (if fr_end_of_transfer f then 0 else 1))")
     (auto simp: ts_next_frame_def)

declare ts_frames.simps [simp del]

definition ts_transfer_frames ::
  "transfer_sender \<Rightarrow> node_id \<Rightarrow> u8 list \<Rightarrow> transfer_type \<Rightarrow> node_id \<Rightarrow> transfer_id \<Rightarrow> frame list" where
  "ts_transfer_frames t src payload transfer_type dst tid =
    (let f = (Frame (ts_data_type_id t) transfer_type src dst tid)\<lparr>fr_priority := ts_priority t, fr_start_of_transfer := True\<rparr>
     in if length payload \<le> 7 then [f\<lparr>fr_payload := payload, fr_end_of_transfer := True\<rparr>]
        else ts_frames payload (f\<lparr>fr_payload := take 7 (ts_first_payload t payload)\<rparr>) 5)"

text \<open>Sending frames one after another, up to the first error.\<close>

fun ts_send_all ::
  "'d platform \<Rightarrow> 's allocator_ops \<Rightarrow> transfer_sender \<Rightarrow> time \<Rightarrow> time \<Rightarrow> frame list \<Rightarrow> nat \<Rightarrow>
    'd \<times> 's \<times> dispatcher \<Rightarrow> ((uavcan_error + nat) \<times> 'd \<times> 's \<times> dispatcher) option" where
  "ts_send_all D A t tx_deadline blocking_deadline [] n dsx = Some (Inr n, dsx)"
| "ts_send_all D A t tx_deadline blocking_deadline (f # fs) n dsx =
    (case dsp_send D A f tx_deadline blocking_deadline (ts_qos t) (ts_flags t) (ts_iface_mask t) dsx of
       None \<Rightarrow> None
     | Some (Inl e, d, s, x) \<Rightarrow> Some (Inl e, d, s, ts_registerError x)
     | Some (Inr _, dsx) \<Rightarrow> ts_send_all D A t tx_deadline blocking_deadline fs (n + 1) dsx)"

lemma ts_frames_last: "fr_end_of_transfer f \<Longrightarrow> ts_frames payload f offset = [f]"
  by (simp add: ts_frames.simps [of payload f])

lemma ts_frames_past_end:
  "length payload \<le> offset \<Longrightarrow> length payload \<le> offset' \<Longrightarrow> ts_frames payload f offset = ts_frames payload f offset'"
  by (simp add: ts_frames.simps [of payload f] ts_next_frame_def ts_frames_last)

lemma ts_send_loop_all:
  "ts_send_loop D A t payload td bd f offset n dsx = ts_send_all D A t td bd (ts_frames payload f offset) n dsx"
proof (induction D A t payload td bd f offset n dsx rule: ts_send_loop.induct)
  case (1 D A t payload td bd f offset n dsx)
  let ?send = "dsp_send D A f td bd (ts_qos t) (ts_flags t) (ts_iface_mask t) dsx"
  show ?case
  proof (cases "\<exists>k dsx'. ?send = Some (Inr k, dsx') \<and> \<not> fr_end_of_transfer f")
    case False
    then show ?thesis
      by (subst ts_send_loop.simps, subst ts_frames.simps) (auto split: option.splits sum.splits)
  next
    case True
    then obtain k dsx' where s: "?send = Some (Inr k, dsx')" and e: "\<not> fr_end_of_transfer f" by blast
    define w where "w = min 7 (length payload - offset)"
    define g where "g = ts_next_frame payload f offset"
    have sp: "setPayload (flipToggle (f\<lparr>fr_start_of_transfer := False\<rparr>)) (drop offset payload) =
        (f\<lparr>fr_start_of_transfer := False, fr_toggle := \<not> fr_toggle f, fr_payload := take 7 (drop offset payload)\<rparr>, w)"
      by (simp add: setPayload_def flipToggle_def PayloadCapacity_def w_def Let_def min_def)
    have g: "(if length payload \<le> offset + w then f\<lparr>fr_start_of_transfer := False, fr_toggle := \<not> fr_toggle f,
          fr_payload := take 7 (drop offset payload), fr_end_of_transfer := True\<rparr>
        else f\<lparr>fr_start_of_transfer := False, fr_toggle := \<not> fr_toggle f, fr_payload := take 7 (drop offset payload)\<rparr>) = g"
      using e by (auto simp: g_def ts_next_frame_def w_def)
    have "ts_send_loop D A t payload td bd f offset n dsx = ts_send_loop D A t payload td bd g (offset + w) (n + 1) dsx'"
      by (subst ts_send_loop.simps) (simp add: s e sp g)
    also have "\<dots> = ts_send_all D A t td bd (ts_frames payload g (offset + w)) (n + 1) dsx'"
      by (rule 1 [OF s refl refl e refl refl sp [symmetric] refl g [symmetric]])
    also have "ts_frames payload g (offset + w) = ts_frames payload g (offset + 7)"
      by (cases "offset + 7 \<le> length payload") (auto simp: w_def min_def intro: ts_frames_past_end)
    finally show ?thesis by (subst ts_frames.simps) (simp add: s e g_def)
  qed
qed

text \<open>
  C10.  \<^verbatim>\<open>TransferSender::send\<close>: in passive mode it refuses everything but a permitted anonymous broadcast of
  a single frame; a payload of at most seven bytes is sent as a single frame, with the flag that aborts on
  errors when the node has no ID; a longer one as the frames of its transfer, one after another until the
  first error, and the result is the number of frames or that error.
\<close>

theorem send_transmits_frames:
  "let x' = x\<lparr>dsp_perf := pc_addTxTransfer (dsp_perf x)\<rparr>;
       fs = ts_transfer_frames t (dsp_self_node_id x) payload tt dst tid
   in ts_send D A t payload td bd tt dst tid (d, s, x) =
     (if dsp_isPassiveMode x \<and> \<not> (ts_allow_anonymous_transfers t \<and> tt = TransferTypeMessageBroadcast \<and> length payload \<le> 7)
      then Some (Inl ErrPassiveMode, d, s, x)
      else if length payload \<le> 7
      then dsp_send D A (hd fs) td bd (ts_qos t)
             (if dsp_isPassiveMode x then ts_flags t OR CanIOFlagAbortOnError else ts_flags t) (ts_iface_mask t) (d, s, x')
      else ts_send_all D A t td bd fs 0 (d, s, x'))"
proof -
  have "setPayload f (ts_first_payload t payload) = (f\<lparr>fr_payload := take 7 (ts_first_payload t payload)\<rparr>, 7)"
    if "7 < length payload" for f
    using that by (simp add: setPayload_def ts_first_payload_def PayloadCapacity_def Let_def)
  then show ?thesis
    by (auto simp: ts_send_def ts_transfer_frames_def Let_def setPayload_def [of _ payload] PayloadCapacity_def
        dsp_isPassiveMode_def ts_send_loop_all Frame_def min_def)
qed

section \<open>From the sender to the listener\<close>

lemma ts_frames_payload:
  "(fr_end_of_transfer f \<Longrightarrow> length payload \<le> offset) \<Longrightarrow>
    concat (map fr_payload (ts_frames payload f offset)) = fr_payload f @ drop offset payload"
proof (induction payload f offset rule: ts_frames.induct)
  case (1 payload f offset)
  show ?case
  proof (cases "fr_end_of_transfer f")
    case True
    then show ?thesis using 1(2) by (simp add: ts_frames_last)
  next
    case False
    have "concat (map fr_payload (ts_frames payload (ts_next_frame payload f offset) (offset + 7))) =
        fr_payload (ts_next_frame payload f offset) @ drop (offset + 7) payload"
      using 1(1) [OF False] by (simp add: ts_next_frame_def)
    also have "\<dots> = drop offset payload"
      using append_take_drop_id [of 7 "drop offset payload"] by (simp add: ts_next_frame_def add.commute)
    finally show ?thesis using False by (simp add: ts_frames.simps [of payload f])
  qed
qed

text \<open>The fields that all frames of a transfer share.\<close>

lemma ts_frames_fields:
  "g \<in> set (ts_frames payload f offset) \<Longrightarrow> length (fr_payload f) \<le> 7 \<Longrightarrow>
    fr_src_node_id g = fr_src_node_id f \<and> fr_dst_node_id g = fr_dst_node_id f \<and>
    fr_transfer_type g = fr_transfer_type f \<and> fr_transfer_id g = fr_transfer_id f \<and>
    fr_data_type_id g = fr_data_type_id f \<and> fr_priority g = fr_priority f \<and> length (fr_payload g) \<le> 7 \<and>
    (g = f \<or> \<not> fr_start_of_transfer g)"
proof (induction payload f offset rule: ts_frames.induct)
  case (1 payload f offset)
  let ?n = "ts_next_frame payload f offset"
  consider "g = f" | "\<not> fr_end_of_transfer f" "g \<in> set (ts_frames payload ?n (offset + 7))"
    using 1(2) by (auto simp: ts_frames.simps [of payload f] split: if_splits)
  then show ?case
  proof cases
    case 1
    then show ?thesis using \<open>length (fr_payload f) \<le> 7\<close> by simp
  next
    case 2
    then show ?thesis using 1(1) [OF 2] by (auto simp: ts_next_frame_def)
  qed
qed

text \<open>What arrives: each frame with its time of reception, all on one interface.\<close>

definition ts_arrives :: "u8 \<Rightarrow> time \<Rightarrow> frame \<Rightarrow> rx_frame \<Rightarrow> bool" where
  "ts_arrives iface t0 f rx \<longleftrightarrow> rxf_frame rx = f \<and> rxf_iface_index rx = iface \<and> rxf_ts_mono rx \<noteq> 0 \<and>
     t0 \<le> rxf_ts_mono rx \<and> time_diff (rxf_ts_mono rx) t0 \<le> dur_fromMSec (uint DefaultTidTimeoutMSec)"

lemma ts_frames_rest:
  assumes "list_all2 (ts_arrives iface t0) (ts_frames payload f offset) rxs"
    and "\<not> fr_start_of_transfer f" and "length (fr_payload f) \<le> 7" and "fr_transfer_id f = tid"
  shows "rx_rest tid iface t0 (fr_toggle f) rxs"
  using assms
proof (induction payload f offset arbitrary: rxs rule: ts_frames.induct)
  case (1 payload f offset)
  let ?n = "ts_next_frame payload f offset"
  obtain rx rxs' where rx: "rxs = rx # rxs'" "ts_arrives iface t0 f rx"
    and rest: "list_all2 (ts_arrives iface t0) (if fr_end_of_transfer f then [] else ts_frames payload ?n (offset + 7)) rxs'"
    using 1(2) by (subst (asm) ts_frames.simps) (auto simp: list_all2_Cons1)
  have fo: "rx_follows tid iface t0 rx" "rxf_frame rx = f"
    using rx(2) 1(3-5) by (auto simp: ts_arrives_def rx_follows_def PayloadCapacity_def)
  show ?case
  proof (cases "fr_end_of_transfer f")
    case True
    then show ?thesis using rx(1) rest fo by simp
  next
    case False
    then have r: "list_all2 (ts_arrives iface t0) (ts_frames payload ?n (offset + 7)) rxs'" using rest by simp
    then have "rxs' \<noteq> []" by (subst (asm) ts_frames.simps) auto
    moreover have "rx_rest tid iface t0 (fr_toggle ?n) rxs'"
      using 1(1) [OF False r] 1(5) by (simp add: ts_next_frame_def)
    ultimately show ?thesis using rx(1) fo False by (simp add: ts_next_frame_def)
  qed
qed

lemma ts_frames_start:
  assumes "list_all2 (ts_arrives iface t0) (ts_frames payload f offset) (rx # rxs)"
    and "fr_start_of_transfer f" and "\<not> fr_end_of_transfer f" and "\<not> fr_toggle f"
    and "2 \<le> length (fr_payload f)" "length (fr_payload f) \<le> 7" and "fr_transfer_id f = tid"
    and "unat iface < MaxCanIfaces" and "rxf_ts_mono rx = t0"
  shows "rx_first tid iface t0 rx \<and> rx_rest tid iface t0 True rxs"
proof -
  let ?n = "ts_next_frame payload f offset"
  have "ts_arrives iface t0 f rx" and r: "list_all2 (ts_arrives iface t0) (ts_frames payload ?n (offset + 7)) rxs"
    using assms(1,3) by (subst (asm) ts_frames.simps, simp)+
  then have "rx_first tid iface t0 rx"
    using assms by (auto simp: rx_first_def ts_arrives_def crc_NumBytes_def PayloadCapacity_def)
  moreover have "rx_rest tid iface t0 True rxs"
    using ts_frames_rest [OF r, of tid] assms(4,7) by (simp add: ts_next_frame_def)
  ultimately show ?thesis by simp
qed

lemma ts_first_payload_crc:
  "le16 (ts_first_payload t payload ! 0) (ts_first_payload t payload ! 1) = crc_add_bytes (ts_crc_base t) payload"
proof -
  have m: "mask 8 = (0xFF :: u16)" by (simp add: mask_eq_exp_minus_1)
  have "le16 (ucast (c AND 0xFF)) (ucast (drop_bit 8 c AND 0xFF)) = c" for c :: u16
  proof (rule bit_word_eqI)
    fix n assume "n < LENGTH(16)"
    then have "n < 8 \<or> 8 \<le> n \<and> n < 16" by auto
    then show "bit (le16 (ucast (c AND 0xFF)) (ucast (drop_bit 8 c AND 0xFF))) n = bit c n"
      by (auto simp: le16_def bit_simps m [symmetric])
  qed
  then show ?thesis by (simp add: ts_first_payload_def Let_def)
qed

lemma ts_frames_valid:
  assumes "frame_isValid f" and "fr_src_node_id f \<noteq> 0" and "g \<in> set (ts_frames payload f offset)"
  shows "frame_isValid g"
  using ts_frames_fields [OF assms(3)] assms(1,2) by (auto simp: frame_isValid_iff)

lemma compiled_frame_parses:
  assumes "frame_isValid f" and "fr_transfer_id f \<le> tid_Max" and "fr_src_node_id f \<noteq> 0"
    and "frame_compile f can_frame_default = Some (rx_can c)" and "rx_ts_mono c \<noteq> 0"
  shows "rx_frame_parse c = Some \<lparr>rxf_frame = f, rxf_ts_mono = rx_ts_mono c, rxf_ts_utc = rx_ts_utc c,
    rxf_iface_index = rx_iface_index c\<rparr>"
proof -
  have len: "length (cf_data can_frame_default) = 8" by (simp add: can_frame_default_def MaxDataLen_def)
  have "frame_parse (rx_can c) = Some f"
    using assms(4) frame_compile_eq [OF assms(1) len] frame_parse_compiled [OF assms(1,2) len] decoded_id [of f] assms(3)
    by simp
  then show ?thesis using assms(5) by (simp add: rx_frame_parse_def)
qed

text \<open>
  C1.  A transfer of several frames gets through: when the frames that \<^verbatim>\<open>TransferSender\<close> makes of a payload
  are compiled, received on one interface in their order within the transfer ID timeout, parsed and fed to a
  listener with the same CRC base that expects the first of them and has the memory, the listener hands over
  exactly one transfer, with the sender's transfer ID, node ID and type, and reading it gives the payload.
\<close>

theorem transfer_end_to_end:
  assumes "7 < length payload" and "fs = ts_transfer_frames t src payload tt dst tid"
    and "node_id_isUnicast src" and "frame_isValid (hd fs)" and "tid \<le> tid_Max"
    and "list_all2 (\<lambda>f c. frame_compile f can_frame_default = Some (rx_can c)) fs cans"
    and "\<forall>c \<in> set cans. rx_iface_index c = iface \<and> rx_ts_mono c \<noteq> 0 \<and> t0 \<le> rx_ts_mono c \<and>
      time_diff (rx_ts_mono c) t0 \<le> dur_fromMSec (uint DefaultTidTimeoutMSec)"
    and "rx_ts_mono (hd cans) = t0" and "unat iface < MaxCanIfaces"
    and "node_pool_inv n p" and "tl_wf (pool_live p) l" and "tl_crc_base l = ts_crc_base t"
    and "rxs = map (the \<circ> rx_frame_parse) cans" and "tl_expects l (hd rxs)"
    and "length payload + 2 \<le> unat (bm_max_buf_size (tl_bufmgr l))"
    and "card (pool_live p) + 2 + blocks_for (length payload + 2) \<le> n"
    and "tl_run pool_ops mem rxs (perf, p, l) = (its, perf', p', l')"
  shows "(\<forall>c \<in> set cans. rx_frame_parse c \<noteq> None) \<and>
    (\<exists>it. its = [it] \<and> it_ts_mono it = t0 \<and> it_transfer_id it = tid \<and> it_src_node_id it = src \<and>
      it_transfer_type it = tt \<and>
      (\<forall>off len. off + len < 2 ^ 32 \<longrightarrow> it_read it off False len = Inr (take len (drop off payload))))"
proof -
  define f where "f = (Frame (ts_data_type_id t) tt src dst tid)
    \<lparr>fr_priority := ts_priority t, fr_start_of_transfer := True, fr_payload := take 7 (ts_first_payload t payload)\<rparr>"
  have fs: "fs = ts_frames payload f 5" using assms(1,2) by (simp add: ts_transfer_frames_def f_def Frame_def)
  have ff: "fr_start_of_transfer f" "\<not> fr_end_of_transfer f" "\<not> fr_toggle f" "length (fr_payload f) = 7"
    "fr_transfer_id f = tid" "fr_src_node_id f = src" "fr_transfer_type f = tt"
    using assms(1) by (simp_all add: f_def Frame_def ts_first_payload_def Let_def)
  have "hd fs = f" unfolding fs by (subst ts_frames.simps) simp
  then have v: "frame_isValid f" using assms(4) by simp
  have src: "src \<noteq> 0" using assms(3) by (simp add: node_id_isUnicast_def node_id_Broadcast_def)
  have parse: "rx_frame_parse c = Some \<lparr>rxf_frame = g, rxf_ts_mono = rx_ts_mono c, rxf_ts_utc = rx_ts_utc c,
      rxf_iface_index = rx_iface_index c\<rparr>"
    if "g \<in> set fs" "c \<in> set cans" "frame_compile g can_frame_default = Some (rx_can c)" for g c
    using that ts_frames_fields [of g payload f 5] ts_frames_valid [OF v, of g payload 5] ff src assms(5,7)
    by (intro compiled_frame_parses) (auto simp: fs)
  have arr: "list_all2 (ts_arrives iface t0) fs rxs"
    unfolding assms(13) list.rel_map using assms(6)
    by (rule list.rel_mono_strong) (use parse assms(7) in \<open>auto simp: ts_arrives_def\<close>)
  obtain rx rxs' where rxs: "rxs = rx # rxs'" using arr unfolding fs by (subst (asm) ts_frames.simps) (auto simp: list_all2_Cons1)
  obtain c cs where c: "cans = c # cs" using rxs assms(13) by auto
  have t0: "rxf_ts_mono rx = t0"
  proof (cases fs)
    case (Cons g gs)
    then show ?thesis using parse [of g c] assms(6,8,13) rxs c by simp
  qed (use arr rxs in simp)
  have first: "rx_first tid iface t0 rx" "rx_rest tid iface t0 True rxs'"
    using ts_frames_start [of iface t0 payload f 5 rx rxs' tid] arr rxs fs ff assms(9) t0 by auto
  let ?key = "\<lparr>tbk_node_id = src, tbk_transfer_type = tt\<rparr>"
  have same: "map rxf_frame rxs = fs" using arr by (induction rule: list_all2_induct) (auto simp: ts_arrives_def)
  have keys: "\<forall>x \<in> set (rx # rxs'). rx_key x = ?key"
  proof
    fix x assume "x \<in> set (rx # rxs')"
    then have "rxf_frame x \<in> set (ts_frames payload f 5)" using same rxs fs by (metis imageI set_map)
    from ts_frames_fields [OF this] show "rx_key x = ?key" using ff by (simp add: rx_key_def)
  qed
  define bytes where "bytes = concat (map (\<lambda>rx. fr_payload (rxf_frame rx)) (rx # rxs'))"
  have "bytes = concat (map fr_payload fs)" using same rxs by (simp add: bytes_def flip: map_map [unfolded comp_def])
  then have "bytes = fr_payload f @ drop 5 payload" using ts_frames_payload [of f payload 5] ff fs by simp
  also have "\<dots> = take 2 (ts_first_payload t payload) @ payload"
    using append_take_drop_id [of 5 payload] by (simp add: f_def ts_first_payload_def Let_def)
  finally have b: "bytes = take 2 (ts_first_payload t payload) @ payload" .
  have bl: "length bytes = length payload + 2" "drop crc_NumBytes bytes = payload"
    "bytes ! 0 = ts_first_payload t payload ! 0" "bytes ! 1 = ts_first_payload t payload ! 1"
    using b by (simp_all add: ts_first_payload_def crc_NumBytes_def Let_def)
  have crc: "crc_add_bytes (tl_crc_base l) (drop crc_NumBytes bytes) = le16 (bytes ! 0) (bytes ! 1)"
    using bl ts_first_payload_crc [of t payload] assms(12) by simp
  have uni: "node_id_isUnicast (tbk_node_id ?key)" using assms(3) by simp
  have ex: "tl_expects l rx" using assms(14) rxs by simp
  have fit: "length bytes \<le> unat (bm_max_buf_size (tl_bufmgr l))" "card (pool_live p) + 2 + blocks_for (length bytes) \<le> n"
    using assms(15,16) bl(1) by simp_all
  have parsed: "\<forall>c \<in> set cans. rx_frame_parse c \<noteq> None"
  proof
    fix c assume "c \<in> set cans"
    then obtain i where i: "i < length cans" "c = cans ! i" by (auto simp: in_set_conv_nth)
    then have "frame_compile (fs ! i) can_frame_default = Some (rx_can c)" "fs ! i \<in> set fs"
      using list_all2_nthD2 [OF assms(6), of i] list_all2_lengthD [OF assms(6)] by simp_all
    then show "rx_frame_parse c \<noteq> None" using parse [of "fs ! i" c] \<open>c \<in> set cans\<close> by simp
  qed
  from tl_run_delivers [OF assms(10,11) ex first keys uni bytes_def fit crc assms(17) [unfolded rxs]]
  show ?thesis using parsed bl(2) by simp
qed

definition example_sender :: transfer_sender where
  "example_sender = (TransferSender ts_getDefaultMaxTransferInterval)\<lparr>ts_crc_base := 0, ts_data_type_id := 7\<rparr>"

definition example_frames :: "frame list" where
  "example_frames = ts_transfer_frames example_sender 42 [0, 0, 0, 0, 0, 0, 0, 0] TransferTypeMessageBroadcast 0 3"

definition example_cans :: "can_rx_frame list" where
  "example_cans = map (\<lambda>f. \<lparr>rx_can = the (frame_compile f can_frame_default), rx_ts_mono = 1000, rx_ts_utc = 0,
     rx_iface_index = 0\<rparr>) example_frames"

lemma example_valid: "g \<in> set example_frames \<Longrightarrow> frame_isValid g"
  "frame_isValid (hd example_frames)"
proof -
  let ?f = "(Frame 7 TransferTypeMessageBroadcast 42 0 3)\<lparr>fr_priority := priority_Default, fr_start_of_transfer := True,
    fr_payload := take 7 (ts_first_payload example_sender [0, 0, 0, 0, 0, 0, 0, 0])\<rparr>"
  have e: "example_frames = ts_frames [0, 0, 0, 0, 0, 0, 0, 0] ?f 5"
    by (simp add: example_frames_def ts_transfer_frames_def example_sender_def TransferSender_def Frame_def)
  have v: "frame_isValid ?f"
    by (simp add: frame_isValid_iff Frame_def priority_Default_def isValidForDataTypeKind_def data_type_id_get_def
        ts_first_payload_def Let_def)
  show "g \<in> set example_frames \<Longrightarrow> frame_isValid g"
    using ts_frames_valid [OF v, of g] by (simp add: e Frame_def)
  show "frame_isValid (hd example_frames)" using v unfolding e by (subst ts_frames.simps) simp
qed

theorem transfer_end_to_end_witness:
  "let (its, _) = tl_run pool_ops (\<lambda>_ _. 0) (map (the \<circ> rx_frame_parse) example_cans)
     (TransferPerfCounter, PoolAllocator 1024 64, example_listener)
   in length its = 1 \<and> it_read (its ! 0) 0 False 64 = Inr [0, 0, 0, 0, 0, 0, 0, 0]"
proof -
  let ?p = "PoolAllocator 1024 64" and ?rxs = "map (the \<circ> rx_frame_parse) example_cans"
  let ?pl = "[0, 0, 0, 0, 0, 0, 0, 0] :: u8 list"
  obtain its perf p l where run: "tl_run pool_ops (\<lambda>_ _. 0) ?rxs (TransferPerfCounter, ?p, example_listener)
      = (its, perf, p, l)" by (metis prod_cases4)
  have c: "list_all2 (\<lambda>f c. frame_compile f can_frame_default = Some (rx_can c)) example_frames example_cans"
    using example_valid(1) frame_compile_eq [of _ can_frame_default]
    by (auto simp: example_cans_def list_all2_conv_all_nth can_frame_default_def MaxDataLen_def)
  have ne: "example_frames \<noteq> []" unfolding example_frames_def ts_transfer_frames_def
    by (simp add: ts_frames.simps [of _ _ 5] Let_def)
  have ts: "\<forall>c \<in> set example_cans. rx_iface_index c = 0 \<and> rx_ts_mono c \<noteq> 0 \<and> 1000 \<le> rx_ts_mono c \<and>
      time_diff (rx_ts_mono c) 1000 \<le> dur_fromMSec (uint DefaultTidTimeoutMSec)"
    by (auto simp: example_cans_def time_diff_def dur_fromMSec_def i64_def DefaultTidTimeoutMSec_def)
  have hd: "rx_ts_mono (hd example_cans) = 1000" using ne by (simp add: example_cans_def hd_map)
  have lf: "tl_crc_base example_listener = ts_crc_base example_sender" "tl_expects example_listener (hd ?rxs)"
    "length ?pl + 2 \<le> unat (bm_max_buf_size (tl_bufmgr example_listener))"
    "card (pool_live ?p) + 2 + blocks_for (length ?pl + 2) \<le> 16"
    by (simp_all add: example_listener_fresh example_sender_def tl_expects_def example_pool blocks_for_def block_Size_def
        MemPoolBlockSize_def sizeof_ptr_def)
  obtain it where it: "its = [it]" "\<forall>off len. off + len < 2 ^ 32 \<longrightarrow> it_read it off False len = Inr (take len (drop off ?pl))"
    using transfer_end_to_end [of ?pl example_frames example_sender 42 TransferTypeMessageBroadcast 0 3 example_cans 0 1000,
        OF _ example_frames_def _ example_valid(2) _ c ts hd _ example_pool(1) example_listener_fresh(1) lf(1) refl lf(2-4) run]
    by (auto simp: node_id_isUnicast_def node_id_isValid_def node_id_Max_def node_id_Broadcast_def tid_Max_def tid_BitLen_def MaxCanIfaces_def)
  have "it_read it 0 False 64 = Inr ?pl" using it(2) [rule_format, of 0 64] by simp
  then show ?thesis unfolding run using it(1) by simp
qed

end
