(* ===== verification/BitStreams.thy ===== *)
theory BitStreams
  imports TransferBuffers
begin

text \<open>
  Serialization: the copying of bit arrays (src/marshal/uc_bit_array_copy.cpp), \<^verbatim>\<open>BitStream\<close>
  (include/uavcan/marshal/bit_stream.hpp, src/marshal/uc_bit_stream.cpp), \<^verbatim>\<open>ScalarCodec\<close>
  (include/uavcan/marshal/scalar_codec.hpp, src/marshal/uc_scalar_codec.cpp) on a little-endian machine and
  \<^verbatim>\<open>IntegerSpec\<close> (include/uavcan/marshal/integer_spec.hpp).
\<close>

unbundle bit_operations_syntax

section \<open>Copying bits\<close>

definition bac_write_mask :: "nat \<Rightarrow> nat \<Rightarrow> u8" where
  "bac_write_mask copy_bits dst_bit_offset =
    drop_bit dst_bit_offset (ucast (drop_bit copy_bits 0xFF00 :: u32))"

definition bac_src_data :: "u8 \<Rightarrow> nat \<Rightarrow> nat \<Rightarrow> u8" where
  "bac_src_data b src_bit_offset dst_bit_offset =
    ucast (drop_bit dst_bit_offset (push_bit src_bit_offset (ucast b :: u32)))"

function bac_loop :: "u8 list \<Rightarrow> nat \<Rightarrow> nat \<Rightarrow> u8 list \<Rightarrow> nat \<Rightarrow> u8 list" where
  "bac_loop src src_offset last_bit dst dst_offset =
    (if last_bit - src_offset = 0 then dst
     else
       (let src_bit_offset = src_offset mod 8;
            dst_bit_offset = dst_offset mod 8;
            max_offset = max src_bit_offset dst_bit_offset;
            copy_bits = min (last_bit - src_offset) (8 - max_offset);
            write_mask = bac_write_mask copy_bits dst_bit_offset;
            src_data = bac_src_data (src ! (src_offset div 8)) src_bit_offset dst_bit_offset;
            old = dst ! (dst_offset div 8)
        in bac_loop src (src_offset + copy_bits) last_bit
             (dst[dst_offset div 8 := (old AND NOT write_mask) OR (src_data AND write_mask)])
             (dst_offset + copy_bits)))"
  by pat_completeness auto

termination
proof (relation "measure (\<lambda>(src, src_offset, last_bit, dst, dst_offset). last_bit - src_offset)", simp)
  fix src_offset last_bit dst_offset xc xd :: nat and src dst :: "u8 list" and m x xa xb xe xf xg
  assume "last_bit - src_offset \<noteq> 0" "x = src_offset mod 8" "xa = dst_offset mod 8" "xb = max x xa"
    "xc = min (last_bit - src_offset) (8 - xb)"
  then have "0 < xc" "xc \<le> last_bit - src_offset" by auto
  then show "((src, src_offset + xc, last_bit, xe, dst_offset + xc), src, src_offset, last_bit, dst, dst_offset)
      \<in> measure (\<lambda>(src, src_offset, last_bit, dst, dst_offset). last_bit - src_offset)" for xe
    by simp
qed

declare bac_loop.simps [simp del]

definition bitarrayCopy :: "u8 list \<Rightarrow> nat \<Rightarrow> nat \<Rightarrow> u8 list \<Rightarrow> nat \<Rightarrow> u8 list" where
  "bitarrayCopy src src_offset src_len dst dst_offset = bac_loop src src_offset (src_offset + src_len) dst dst_offset"

text \<open>Bits are counted from the most significant one of the first byte.\<close>

definition bitat :: "u8 list \<Rightarrow> nat \<Rightarrow> bool" where
  "bitat xs i = bit (xs ! (i div 8)) (7 - i mod 8)"

lemma bit_u8: "bit (w :: u8) n \<Longrightarrow> n < 8"
  using bit_imp_le_length by fastforce

lemma bit_write_mask:
  assumes "c \<le> 8" and "d < 8"
  shows "bit (bac_write_mask c d) n \<longleftrightarrow> n + d < 8 \<and> 8 - c \<le> n + d"
proof -
  have m: "(0xFF00 :: u32) = push_bit 8 (mask 8)" by (simp add: mask_eq_exp_minus_1)
  show ?thesis unfolding bac_write_mask_def m using assms by (auto simp: bit_simps)
qed

lemma bit_src_data:
  assumes "s < 8" and "d < 8" and "n < 8"
  shows "bit (bac_src_data b s d) n \<longleftrightarrow> s \<le> n + d \<and> bit b (n + d - s)"
  using assms by (auto simp: bac_src_data_def bit_simps add.commute dest: bit_u8)

lemma bac_step:
  assumes "s < 8" and "d < 8" and "c \<le> 8 - max s d" and "n < 8"
  shows "bit ((old AND NOT (bac_write_mask c d)) OR (bac_src_data b s d AND bac_write_mask c d)) (7 - n) \<longleftrightarrow>
    (if d \<le> n \<and> n < d + c then bit b (7 - (n - d + s)) else bit (old :: u8) (7 - n))"
proof -
  have "c \<le> 8" using assms(3) by simp
  note wm = bit_write_mask [OF this assms(2), of "7 - n"] bit_src_data [OF assms(1,2), of "7 - n" b]
  show ?thesis
  proof (cases "d \<le> n \<and> n < d + c")
    case True
    then have "7 - n + d - s = 7 - (n - d + s)" "s \<le> 7 - n + d" using assms by auto
    then show ?thesis using True wm assms(4) by (auto simp: bit_simps)
  next
    case False
    then have "\<not> bit (bac_write_mask c d) (7 - n)" using wm(1) assms(4) by auto
    then show ?thesis using False assms(4) by (auto simp: bit_simps)
  qed
qed

lemma div8: "r < 8 \<Longrightarrow> (8 * a + r) div 8 = a \<and> (8 * a + r) mod (8 :: nat) = r"
  by simp

lemma bac_loop_bits:
  assumes "lb \<le> 8 * length src" and "so \<le> lb" and "d0 + (lb - so) \<le> 8 * length dst"
  shows "length (bac_loop src so lb dst d0) = length dst \<and>
    (\<forall>i < 8 * length dst. bitat (bac_loop src so lb dst d0) i =
      (if d0 \<le> i \<and> i < d0 + (lb - so) then bitat src (so + (i - d0)) else bitat dst i))"
  using assms
proof (induction "lb - so" arbitrary: so dst d0 rule: less_induct)
  case less
  show ?case
  proof (cases "lb - so = 0")
    case True
    then show ?thesis by (auto simp: bac_loop.simps [of src so])
  next
    case False
    define s where "s = so mod 8"
    define d where "d = d0 mod 8"
    define c where "c = min (lb - so) (8 - max s d)"
    define new where "new = (dst ! (d0 div 8) AND NOT (bac_write_mask c d)) OR
        (bac_src_data (src ! (so div 8)) s d AND bac_write_mask c d)"
    define dst1 where "dst1 = dst[d0 div 8 := new]"
    have step: "bac_loop src so lb dst d0 = bac_loop src (so + c) lb dst1 (d0 + c)"
      using False by (subst bac_loop.simps) (simp add: s_def d_def c_def new_def dst1_def Let_def)
    have sd: "s < 8" "d < 8" "c \<le> 8 - max s d" "0 < c" "c \<le> lb - so"
      using False by (auto simp: s_def d_def c_def)
    have len: "length dst1 = length dst" by (simp add: dst1_def)
    have IH: "length (bac_loop src (so + c) lb dst1 (d0 + c)) = length dst \<and>
      (\<forall>i < 8 * length dst. bitat (bac_loop src (so + c) lb dst1 (d0 + c)) i =
        (if d0 + c \<le> i \<and> i < d0 + c + (lb - (so + c)) then bitat src (so + c + (i - (d0 + c))) else bitat dst1 i))"
      using less.hyps [of "so + c" "d0 + c" dst1] less.prems sd len by simp
    have one: "bitat dst1 i = (if d0 \<le> i \<and> i < d0 + c then bitat src (so + (i - d0)) else bitat dst i)"
      if "i < 8 * length dst" for i
    proof (cases "i div 8 = d0 div 8")
      case True
      have lt: "d0 div 8 < length dst" using less.prems(3) False sd by linarith
      have e: "i = 8 * (d0 div 8) + i mod 8" "d0 = 8 * (d0 div 8) + d" "so = 8 * (so div 8) + s"
        using True mult_div_mod_eq [of 8 i] by (simp_all add: d_def s_def)
      have iff: "(d \<le> i mod 8 \<and> i mod 8 < d + c) = (d0 \<le> i \<and> i < d0 + c)" using e(1,2) by linarith
      have src: "(so + (i - d0)) div 8 = so div 8 \<and> (so + (i - d0)) mod 8 = i mod 8 - d + s" if "d0 \<le> i" "i < d0 + c"
      proof -
        have "i mod 8 - d + s = s + (i - d0)" using that(1) e(1,2) by linarith
        moreover have "s + (i - d0) < 8" using that sd(3) by linarith
        moreover have "so + (i - d0) = 8 * (so div 8) + (s + (i - d0))" using e(3) by linarith
        ultimately show ?thesis using div8 [of "s + (i - d0)" "so div 8"] by metis
      qed
      have "bitat dst1 i = bit new (7 - i mod 8)" using True lt by (simp add: bitat_def dst1_def)
      also have "\<dots> = (if d \<le> i mod 8 \<and> i mod 8 < d + c then bit (src ! (so div 8)) (7 - (i mod 8 - d + s))
          else bit (dst ! (d0 div 8)) (7 - i mod 8))"
        unfolding new_def by (rule bac_step [OF sd(1-3)]) simp
      finally show ?thesis using iff src True by (simp add: bitat_def)
    next
      case False
      have "i div 8 = d0 div 8" if "d0 \<le> i" "i < d0 + c"
      proof -
        have "i = 8 * (d0 div 8) + (d + (i - d0))" using that(1) mult_div_mod_eq [of 8 d0] unfolding d_def by linarith
        moreover have "d + (i - d0) < 8" using that sd(3) by linarith
        ultimately show ?thesis using div8 [of "d + (i - d0)" "d0 div 8"] by metis
      qed
      then have "\<not> (d0 \<le> i \<and> i < d0 + c)" using False by blast
      then show ?thesis using False by (auto simp: bitat_def dst1_def)
    qed
    show ?thesis unfolding step using IH one sd less.prems by auto
  qed
qed

lemma bitarrayCopy_bits:
  assumes "so + n \<le> 8 * length src" and "d0 + n \<le> 8 * length dst"
  shows "length (bitarrayCopy src so n dst d0) = length dst \<and>
    (\<forall>i < 8 * length dst. bitat (bitarrayCopy src so n dst d0) i =
      (if d0 \<le> i \<and> i < d0 + n then bitat src (so + (i - d0)) else bitat dst i))"
  using bac_loop_bits [of "so + n" src so d0 dst] assms by (simp add: bitarrayCopy_def)

text \<open>
  C23.  \<^verbatim>\<open>bitarrayCopy\<close>, which moves up to eight bits at a time with masks and shifts, copies exactly the
  bits it is asked to: the destination bits in the range are those of the source, all others keep their
  values, whatever the two offsets are.
\<close>

theorem bitarray_copy_correct:
  assumes "src_offset + src_len \<le> 8 * length src" and "dst_offset + src_len \<le> 8 * length dst"
  shows "length (bitarrayCopy src src_offset src_len dst dst_offset) = length dst \<and>
    (\<forall>i < 8 * length dst. bitat (bitarrayCopy src src_offset src_len dst dst_offset) i =
      (if dst_offset \<le> i \<and> i < dst_offset + src_len then bitat src (src_offset + (i - dst_offset)) else bitat dst i))"
  using bitarrayCopy_bits [OF assms] .

theorem bitarray_copy_correct_witness:
  "bitat (bitarrayCopy [0x0F, 0xF0] 4 8 [0, 0] 3) 3 \<and> \<not> bitat (bitarrayCopy [0x0F, 0xF0] 4 8 [0, 0] 3) 12"
proof -
  have "bitat (bitarrayCopy [0x0F, 0xF0] 4 8 [0, 0] 3) i =
      (if 3 \<le> i \<and> i < 11 then bitat [0x0F, 0xF0] (4 + (i - 3)) else bitat [0, 0] i)" if "i < 16" for i
    using bitarray_copy_correct [of 4 8 "[0x0F, 0xF0]" 3 "[0, 0]"] that by simp
  from this [of 3] this [of 12] show ?thesis by (simp add: bitat_def bit_numeral_rec)
qed

section \<open>BitStream\<close>

text \<open>\<^verbatim>\<open>ITransferBuffer\<close>: reading returns bytes, writing the number of bytes written, or an error.\<close>

record 'b itransfer_buffer =
  tb_read :: "'b \<Rightarrow> nat \<Rightarrow> nat \<Rightarrow> uavcan_error + u8 list"
  tb_write :: "'b \<Rightarrow> nat \<Rightarrow> u8 list \<Rightarrow> (uavcan_error + nat) \<times> 'b"

record bit_stream =
  bs_bit_offset :: nat
  bs_byte_cache :: u8

definition BitStream :: bit_stream where
  "BitStream = \<lparr>bs_bit_offset = 0, bs_byte_cache = 0\<rparr>"

datatype bs_result = ResultOutOfBuffer | ResultOk

definition bitlenToBytelen :: "nat \<Rightarrow> nat" where
  "bitlenToBytelen bits = uadd bits 7 div 8"

definition bs_write ::
  "'b itransfer_buffer \<Rightarrow> u8 list \<Rightarrow> nat \<Rightarrow> bit_stream \<times> 'b \<Rightarrow> (uavcan_error + bs_result) \<times> bit_stream \<times> 'b" where
  "bs_write B bytes bitlen st =
    (let (bs, buf) = st;
         bytelen = bitlenToBytelen (uadd bitlen (bs_bit_offset bs mod 8));
         tmp = replicate bytelen 0;
         tmp = bitarrayCopy bytes 0 bitlen tmp (bs_bit_offset bs mod 8);
         new_bit_offset = uadd (bs_bit_offset bs) bitlen;
         tmp = tmp[0 := tmp ! 0 OR bs_byte_cache bs];
         bs = bs\<lparr>bs_byte_cache := (if new_bit_offset mod 8 \<noteq> 0 then tmp ! (bytelen - 1) else 0)\<rparr>;
         (write_res, buf) = tb_write B buf (bs_bit_offset bs div 8) tmp
     in case write_res of
          Inl e \<Rightarrow> (Inl e, bs, buf)
        | Inr n \<Rightarrow> if n < bytelen then (Inr ResultOutOfBuffer, bs, buf)
                   else (Inr ResultOk, bs\<lparr>bs_bit_offset := new_bit_offset\<rparr>, buf))"

text \<open>\<^verbatim>\<open>read\<close> overwrites the first bytes of the caller's array.\<close>

definition bs_read ::
  "'b itransfer_buffer \<Rightarrow> 'b \<Rightarrow> u8 list \<Rightarrow> nat \<Rightarrow> bit_stream \<Rightarrow> (uavcan_error + bs_result) \<times> u8 list \<times> bit_stream" where
  "bs_read B buf bytes bitlen bs =
    (let bytelen = bitlenToBytelen (uadd bitlen (bs_bit_offset bs mod 8))
     in case tb_read B buf (bs_bit_offset bs div 8) bytelen of
          Inl e \<Rightarrow> (Inl e, bytes, bs)
        | Inr tmp \<Rightarrow>
            if length tmp < bytelen then (Inr ResultOutOfBuffer, bytes, bs)
            else
              (let bytes = overwrite bytes 0 (replicate (bitlenToBytelen bitlen) 0);
                   bytes = bitarrayCopy tmp (bs_bit_offset bs mod 8) bitlen bytes 0
               in (Inr ResultOk, bytes, bs\<lparr>bs_bit_offset := uadd (bs_bit_offset bs) bitlen\<rparr>)))"

section \<open>ScalarCodec\<close>

text \<open>
  A scalar type is given by its number of bits, 8, 16, 32 or 64, and its signedness; a value is held in the
  low bits of a 64-bit word, and its bytes are those of a little-endian machine, on which
  \<^verbatim>\<open>convertByteOrder\<close> does nothing.
\<close>

definition sc_bytes :: "nat \<Rightarrow> u64 \<Rightarrow> u8 list" where
  "sc_bytes bits v = map (\<lambda>i. ucast (drop_bit (8 * i) v)) [0..<bits div 8]"

fun sc_of_bytes :: "u8 list \<Rightarrow> u64" where
  "sc_of_bytes [] = 0"
| "sc_of_bytes (b # bs) = ucast b OR push_bit 8 (sc_of_bytes bs)"

definition sc_clearExtraBits :: "nat \<Rightarrow> nat \<Rightarrow> u64 \<Rightarrow> u64" where
  "sc_clearExtraBits BitLen bits v = (if bits > BitLen then v AND (push_bit BitLen 1 - 1) else v)"

definition sc_fixTwosComplement :: "nat \<Rightarrow> nat \<Rightarrow> bool \<Rightarrow> u64 \<Rightarrow> u64" where
  "sc_fixTwosComplement BitLen bits is_signed v =
    (if is_signed \<and> bits > BitLen \<and> v AND push_bit (BitLen - 1) 1 \<noteq> 0
     then v OR (mask bits AND NOT (push_bit BitLen 1 - 1)) else v)"

definition sc_encodeBytesImpl ::
  "'b itransfer_buffer \<Rightarrow> u8 list \<Rightarrow> nat \<Rightarrow> bit_stream \<times> 'b \<Rightarrow> (uavcan_error + bs_result) \<times> bit_stream \<times> 'b" where
  "sc_encodeBytesImpl B bytes bitlen st =
    (let bytes = (if bitlen mod 8 \<noteq> 0
                  then bytes[bitlen div 8 := push_bit ((8 - bitlen mod 8) mod 8) (bytes ! (bitlen div 8))] else bytes)
     in bs_write B bytes bitlen st)"

definition sc_decodeBytesImpl ::
  "'b itransfer_buffer \<Rightarrow> 'b \<Rightarrow> u8 list \<Rightarrow> nat \<Rightarrow> bit_stream \<Rightarrow> (uavcan_error + bs_result) \<times> u8 list \<times> bit_stream" where
  "sc_decodeBytesImpl B buf bytes bitlen bs =
    (let (read_res, bytes, bs) = bs_read B buf bytes bitlen bs
     in if read_res = Inr ResultOk \<and> bitlen mod 8 \<noteq> 0
        then (read_res, bytes[bitlen div 8 := drop_bit ((8 - bitlen mod 8) mod 8) (bytes ! (bitlen div 8))], bs)
        else (read_res, bytes, bs))"

definition sc_encode ::
  "'b itransfer_buffer \<Rightarrow> nat \<Rightarrow> nat \<Rightarrow> u64 \<Rightarrow> bit_stream \<times> 'b \<Rightarrow> (uavcan_error + bs_result) \<times> bit_stream \<times> 'b" where
  "sc_encode B BitLen bits v st = sc_encodeBytesImpl B (sc_bytes bits (sc_clearExtraBits BitLen bits v)) BitLen st"

definition sc_decode ::
  "'b itransfer_buffer \<Rightarrow> 'b \<Rightarrow> nat \<Rightarrow> nat \<Rightarrow> bool \<Rightarrow> u64 \<Rightarrow> bit_stream \<Rightarrow> (uavcan_error + bs_result) \<times> u64 \<times> bit_stream" where
  "sc_decode B buf BitLen bits is_signed v bs =
    (let (read_res, bytes, bs) = sc_decodeBytesImpl B buf (replicate (bits div 8) 0) BitLen bs
     in if read_res = Inr ResultOk
        then (read_res, sc_fixTwosComplement BitLen bits is_signed (sc_of_bytes bytes), bs)
        else (read_res, v, bs))"

section \<open>IntegerSpec\<close>

datatype signedness = SignednessUnsigned | SignednessSigned

datatype cast_mode = CastModeSaturate | CastModeTruncate

record integer_spec =
  is_BitLen :: nat
  is_Signedness :: signedness
  is_CastMode :: cast_mode

text \<open>The size of \<^verbatim>\<open>StorageType\<close> in bits.  The Boolean of the specialization takes one byte as well.\<close>

definition is_storage_bits :: "integer_spec \<Rightarrow> nat" where
  "is_storage_bits I =
    (if is_BitLen I \<le> 8 then 8 else if is_BitLen I \<le> 16 then 16 else if is_BitLen I \<le> 32 then 32 else 64)"

text \<open>
  The conversion of an integer to \<^verbatim>\<open>StorageType\<close>, as when it is passed to \<^verbatim>\<open>encode\<close>: it wraps around, for
  signed types in two's complement.
\<close>

definition is_StorageType :: "integer_spec \<Rightarrow> int \<Rightarrow> int" where
  "is_StorageType I x =
    (if is_Signedness I = SignednessSigned then signed_take_bit (is_storage_bits I - 1) x else take_bit (is_storage_bits I) x)"

text \<open>The bytes of a value of \<^verbatim>\<open>StorageType\<close> as a number, and a number as such bytes.\<close>

definition is_value :: "integer_spec \<Rightarrow> u64 \<Rightarrow> int" where
  "is_value I w = (if is_Signedness I = SignednessSigned then signed_take_bit (is_storage_bits I - 1) (uint w)
                   else uint w)"

definition is_storage :: "integer_spec \<Rightarrow> int \<Rightarrow> u64" where
  "is_storage I x = word_of_int x AND mask (is_storage_bits I)"

definition is_max :: "integer_spec \<Rightarrow> int" where
  "is_max I = (if is_Signedness I = SignednessUnsigned then 2 ^ is_BitLen I - 1 else 2 ^ (is_BitLen I - 1) - 1)"

definition is_min :: "integer_spec \<Rightarrow> int" where
  "is_min I = (if is_Signedness I = SignednessSigned then - is_max I - 1 else 0)"

definition is_mask :: "integer_spec \<Rightarrow> u64" where
  "is_mask I = mask (is_BitLen I)"

definition is_saturate :: "integer_spec \<Rightarrow> int \<Rightarrow> int" where
  "is_saturate I value =
    (if value > is_max I then is_max I else if value \<le> is_min I then is_min I else value)"

definition is_truncate :: "integer_spec \<Rightarrow> u64 \<Rightarrow> u64" where
  "is_truncate I value = value AND is_mask I"

definition is_encode ::
  "'b itransfer_buffer \<Rightarrow> integer_spec \<Rightarrow> int \<Rightarrow> bit_stream \<times> 'b \<Rightarrow> (uavcan_error + bs_result) \<times> bit_stream \<times> 'b" where
  "is_encode B I x st =
    (let value = is_StorageType I x;
         w = (if is_CastMode I = CastModeSaturate then is_storage I (is_saturate I value)
              else is_truncate I (is_storage I value))
     in sc_encode B (is_BitLen I) (is_storage_bits I) w st)"

definition is_decode ::
  "'b itransfer_buffer \<Rightarrow> 'b \<Rightarrow> integer_spec \<Rightarrow> int \<Rightarrow> bit_stream \<Rightarrow> (uavcan_error + bs_result) \<times> int \<times> bit_stream" where
  "is_decode B buf I old bs =
    (let (res, w, bs) = sc_decode B buf (is_BitLen I) (is_storage_bits I) (is_Signedness I = SignednessSigned)
                          (is_storage I old) bs
     in (res, is_value I w, bs))"

text \<open>
  The specialization for Booleans.  An integer converts to \<^verbatim>\<open>bool\<close> as true unless it is zero; true is the
  byte 1.
\<close>

definition ib_StorageType :: "int \<Rightarrow> bool" where
  "ib_StorageType x \<longleftrightarrow> x \<noteq> 0"

definition ib_encode ::
  "'b itransfer_buffer \<Rightarrow> bool \<Rightarrow> bit_stream \<times> 'b \<Rightarrow> (uavcan_error + bs_result) \<times> bit_stream \<times> 'b" where
  "ib_encode B value st = sc_encode B 1 8 (of_bool value) st"

definition ib_decode ::
  "'b itransfer_buffer \<Rightarrow> 'b \<Rightarrow> bool \<Rightarrow> bit_stream \<Rightarrow> (uavcan_error + bs_result) \<times> bool \<times> bit_stream" where
  "ib_decode B buf old bs =
    (let (res, w, bs) = sc_decode B buf 1 8 False (of_bool old) bs in (res, w \<noteq> 0, bs))"

text \<open>The template that a specification selects, with the Booleans as the numbers 0 and 1.\<close>

definition integer_encode ::
  "'b itransfer_buffer \<Rightarrow> integer_spec \<Rightarrow> int \<Rightarrow> bit_stream \<times> 'b \<Rightarrow> (uavcan_error + bs_result) \<times> bit_stream \<times> 'b" where
  "integer_encode B I x st = (if is_BitLen I = 1 then ib_encode B (ib_StorageType x) st else is_encode B I x st)"

definition integer_decode ::
  "'b itransfer_buffer \<Rightarrow> 'b \<Rightarrow> integer_spec \<Rightarrow> int \<Rightarrow> bit_stream \<Rightarrow> (uavcan_error + bs_result) \<times> int \<times> bit_stream" where
  "integer_decode B buf I old bs =
    (if is_BitLen I = 1 then (let (res, v, bs) = ib_decode B buf (ib_StorageType old) bs in (res, of_bool v, bs))
     else is_decode B buf I old bs)"

section \<open>What the stream writes and reads\<close>

locale bit_buffer =
  fixes B :: "'b itransfer_buffer"
    and binv :: "'b \<Rightarrow> bool"
    and contents :: "'b \<Rightarrow> u8 list"
  assumes tb_read_contents: "binv b \<Longrightarrow> off + len < 2 ^ 32 \<Longrightarrow>
      tb_read B b off len = Inr (take len (drop off (contents b)))"
    and tb_write_contents: "binv b \<Longrightarrow> off \<le> length (contents b) \<Longrightarrow> off + length d < 2 ^ 32 \<Longrightarrow>
      tb_write B b off d = (r, b') \<Longrightarrow> \<exists>n. r = Inr n \<and> n \<le> length d \<and> binv b' \<and>
        contents b' = take off (contents b) @ take n d @ drop (off + n) (contents b)"

lemma bitat_append: "bitat (xs @ ys) i = (if i < 8 * length xs then bitat xs i else bitat ys (i - 8 * length xs))"
proof (cases "i < 8 * length xs")
  case True
  then have "i div 8 < length xs" by simp
  then show ?thesis using True by (simp add: bitat_def nth_append)
next
  case False
  then obtain j where j: "i = 8 * length xs + j" by (metis le_Suc_ex not_less)
  show ?thesis unfolding j by (simp add: bitat_def nth_append)
qed

lemma bitat_replicate: "i < 8 * n \<Longrightarrow> bitat (replicate n b) i = bit b (7 - i mod 8)"
  by (simp add: bitat_def less_mult_imp_div_less mult.commute)

lemma bitat_or_first:
  assumes "xs \<noteq> []"
  shows "bitat (xs[0 := xs ! 0 OR c]) i = (bitat xs i \<or> i < 8 \<and> bit c (7 - i))"
  using assms by (cases "i < 8") (auto simp: bitat_def bit_simps)

definition bit_stream_ok :: "u8 list \<Rightarrow> bit_stream \<Rightarrow> bool" where
  "bit_stream_ok c bs \<longleftrightarrow> length c = (bs_bit_offset bs + 7) div 8 \<and>
     bs_byte_cache bs = (if bs_bit_offset bs mod 8 = 0 then 0 else c ! (bs_bit_offset bs div 8)) \<and>
     (\<forall>i. bs_bit_offset bs \<le> i \<and> i < 8 * length c \<longrightarrow> \<not> bitat c i)"

lemma div8_ceil: "(off + n + 7) div 8 = off div 8 + (n + off mod 8 + 7) div (8 :: nat)"
proof -
  have "off + n + 7 = 8 * (off div 8) + (n + off mod 8 + 7)" using mult_div_mod_eq [of 8 off] by linarith
  then show ?thesis by (simp only: div_mult_self4)
qed

lemma div8_Suc: "m mod 8 \<noteq> 0 \<Longrightarrow> (m + 7) div 8 = Suc (m div (8 :: nat))"
  by presburger

context bit_buffer
begin

lemma bs_write_spec:
  assumes inv: "binv buf" and ok: "bit_stream_ok (contents buf) bs" and n: "0 < n" "n \<le> 8 * length bytes"
    and small: "bs_bit_offset bs + n + 16 < 2 ^ 32"
    and w: "bs_write B bytes n (bs, buf) = (Inr ResultOk, bs', buf')"
  shows "binv buf' \<and> bit_stream_ok (contents buf') bs' \<and> bs_bit_offset bs' = bs_bit_offset bs + n \<and>
    (\<forall>i < bs_bit_offset bs. bitat (contents buf') i = bitat (contents buf) i) \<and>
    (\<forall>i < n. bitat (contents buf') (bs_bit_offset bs + i) = bitat bytes i)"
proof -
  define off where "off = bs_bit_offset bs"
  define q where "q = off div 8"
  define r where "r = off mod 8"
  define l where "l = (n + r + 7) div 8"
  define c where "c = contents buf"
  define t1 where "t1 = bitarrayCopy bytes 0 n (replicate l 0) r"
  define t where "t = t1[0 := t1 ! 0 OR bs_byte_cache bs]"
  have e: "off = 8 * q + r" "r < 8" by (simp_all add: q_def r_def)
  have l0: "0 < l" "r + n \<le> 8 * l" "8 * l < 2 ^ 32" using n(1) small e unfolding l_def off_def [symmetric] by linarith+
  have bl: "bitlenToBytelen (uadd n r) = l" "uadd off n = off + n"
    using small e(2) by (simp_all add: bitlenToBytelen_def l_def off_def)
  have t1: "length t1 = l" "\<forall>i < 8 * l. bitat t1 i = (r \<le> i \<and> i < r + n \<and> bitat bytes (i - r))"
    using bitarrayCopy_bits [of 0 n bytes r "replicate l 0"] n(2) l0(2) by (auto simp: t1_def bitat_replicate)
  have t: "length t = l" "\<forall>i < 8 * l. bitat t i = (r \<le> i \<and> i < r + n \<and> bitat bytes (i - r) \<or> i < 8 \<and> bit (bs_byte_cache bs) (7 - i))"
    using t1 l0(1) bitat_or_first [of t1 "bs_byte_cache bs"] by (auto simp: t_def)
  have lc: "length c = (off + 7) div 8" and cache: "bs_byte_cache bs = (if r = 0 then 0 else c ! q)"
    and zero: "\<forall>i. off \<le> i \<and> i < 8 * length c \<longrightarrow> \<not> bitat c i"
    using ok by (simp_all add: bit_stream_ok_def off_def r_def q_def c_def)
  have qc: "q \<le> length c" "length c \<le> q + l" using lc e l0(1) by linarith+
  obtain res where tw: "tb_write B buf q t = (res, buf')"
    and bs': "bs' = bs\<lparr>bs_byte_cache := (if (off + n) mod 8 \<noteq> 0 then t ! (l - 1) else 0), bs_bit_offset := off + n\<rparr>"
    and res: "\<exists>k. res = Inr k \<and> l \<le> k"
    using w bl unfolding bs_write_def
    by (auto simp: Let_def off_def [symmetric] r_def [symmetric] q_def [symmetric] t1_def [symmetric] t_def [symmetric]
        split: prod.splits sum.splits if_splits)
  have "q + length t < 2 ^ 32" using t(1) small n(1) e unfolding l_def off_def [symmetric] by linarith
  from tb_write_contents [OF inv _ this tw] obtain k where k: "res = Inr k" "k \<le> length t" "binv buf'"
    "contents buf' = take q c @ take k t @ drop (q + k) c" using qc(1) c_def by auto
  have "k = l" using k(1,2) res t(1) by simp
  then have c': "contents buf' = take q c @ t" using k(4) t(1) qc(2) by simp
  have b': "bitat (contents buf') i = (if i < 8 * q then bitat c i else bitat t (i - 8 * q))" for i
    using bitat_append [of "take q c" "drop q c"] bitat_append [of "take q c" t i] qc(1) by (simp add: c')
  have hit: "bit (bs_byte_cache bs) (7 - (i - 8 * q)) = (i < off \<and> bitat c i)" if "8 * q \<le> i" "i - 8 * q < 8" for i
  proof -
    have i: "i div 8 = q" "i mod 8 = i - 8 * q" using that div8 [of "i - 8 * q" q] by auto
    show ?thesis
    proof (cases "r = 0")
      case True
      then show ?thesis using cache that e by simp
    next
      case False
      then have "q < length c" using lc e by linarith
      then have "off \<le> i \<longrightarrow> \<not> bitat c i" using zero that by auto
      moreover have "bit (bs_byte_cache bs) (7 - (i - 8 * q)) = bitat c i" using cache False i by (simp add: bitat_def)
      ultimately show ?thesis by auto
    qed
  qed
  have low: "bitat (contents buf') i = bitat c i" if "i < off" for i
  proof (cases "i < 8 * q")
    case False
    then have "i - 8 * q < r" "i - 8 * q < 8" "i - 8 * q < 8 * l" using that e l0 by linarith+
    then show ?thesis using b' [of i] t(2) hit [of i] False that by auto
  qed (simp add: b')
  have high: "bitat (contents buf') i = (i < off + n \<and> bitat bytes (i - off))" if "off \<le> i" "i < 8 * (q + l)" for i
  proof -
    define j where "j = i - 8 * q"
    have j: "i = 8 * q + j" "r \<le> j" using that(1) e(1) by (simp_all add: j_def)
    have lt: "j < 8 * l" "(j < r + n) = (i < off + n)" "j - r = i - off" using that(2) e(1) j by simp_all
    have "bitat (contents buf') i = bitat t j" using b' [of i] j(1) by simp
    also have "\<dots> = (j < r + n \<and> bitat bytes (j - r) \<or> j < 8 \<and> bit (bs_byte_cache bs) (7 - j))" using t(2) lt(1) j(2) by simp
    also have "j < 8 \<and> bit (bs_byte_cache bs) (7 - j) \<longleftrightarrow> False" using hit [of i] j(1) that(1) by simp
    finally show ?thesis using lt by simp
  qed
  have len: "length (contents buf') = (off + n + 7) div 8"
    using div8_ceil [of off n] qc(1) t(1) by (simp add: c' q_def r_def l_def)
  then have len': "length (contents buf') = q + l" using qc(1) t(1) by (simp add: c')
  have lastbyte: "t ! (l - 1) = contents buf' ! ((off + n) div 8)" if "(off + n) mod 8 \<noteq> 0"
  proof -
    have "Suc ((off + n) div 8) = q + l" using div8_Suc [OF that] len len' by simp
    then have "(off + n) div 8 = q + (l - 1)" using l0(1) by simp
    then show ?thesis using qc(1) by (simp add: c' nth_append)
  qed
  have "bit_stream_ok (contents buf') bs'"
    using len lastbyte high len' by (auto simp: bit_stream_ok_def bs')
  then show ?thesis using k(3) bs' low high l0(2) e len' by (auto simp: off_def c_def)
qed

lemma bs_read_spec:
  assumes inv: "binv buf" and n: "0 < n" "n \<le> 8 * length bytes" and small: "bs_bit_offset bs + n + 16 < 2 ^ 32"
    and room: "bs_bit_offset bs + n \<le> 8 * length (contents buf)"
    and r: "bs_read B buf bytes n bs = (res, bytes', bs')"
  shows "res = Inr ResultOk \<and> bs' = bs\<lparr>bs_bit_offset := bs_bit_offset bs + n\<rparr> \<and> length bytes' = length bytes \<and>
    (\<forall>i < 8 * length bytes. bitat bytes' i =
      (if i < n then bitat (contents buf) (bs_bit_offset bs + i)
       else if i < 8 * ((n + 7) div 8) then False else bitat bytes i))"
proof -
  define off where "off = bs_bit_offset bs"
  define q where "q = off div 8"
  define r where "r = off mod 8"
  define l where "l = (n + r + 7) div 8"
  define c where "c = contents buf"
  define k where "k = (n + 7) div 8"
  have e: "off = 8 * q + r" "r < 8" by (simp_all add: q_def r_def)
  have lq: "q + l \<le> length c" "q + l < 2 ^ 32" "r + n \<le> 8 * l"
    using room small n(1) e unfolding l_def off_def [symmetric] c_def by linarith+
  have bl: "bitlenToBytelen (uadd n r) = l" "uadd off n = off + n" "bitlenToBytelen n = k"
    using small e(2) by (simp_all add: bitlenToBytelen_def l_def off_def k_def)
  have k: "k \<le> length bytes" "n \<le> 8 * k" using n(2) unfolding k_def by linarith+
  define tmp where "tmp = take l (drop q c)"
  have rd: "tb_read B buf q l = Inr tmp" "length tmp = l"
    using tb_read_contents [OF inv, of q l] lq(1,2) by (simp_all add: tmp_def c_def)
  let ?z = "overwrite bytes 0 (replicate k 0)"
  have out: "res = Inr ResultOk" "bs' = bs\<lparr>bs_bit_offset := off + n\<rparr>" "bytes' = bitarrayCopy tmp r n ?z 0"
    using r rd bl by (simp_all add: bs_read_def Let_def off_def [symmetric] q_def [symmetric] r_def [symmetric])
  have z: "length ?z = length bytes" "bitat ?z i = (if i < 8 * k then False else bitat bytes i)"
    if "i < 8 * length bytes" for i
    using k(1) that bitat_append [of "take k bytes" "drop k bytes" i] bitat_append [of "replicate k 0" "drop k bytes" i]
    by (auto simp: overwrite_def bitat_replicate)
  have lz: "length ?z = length bytes" using k(1) by simp
  have cp: "length bytes' = length bytes \<and> (\<forall>i < 8 * length bytes. bitat bytes' i = (if i < n then bitat tmp (r + i) else bitat ?z i))"
    using bitarrayCopy_bits [of r n tmp 0 ?z] lq(3) rd(2) n(2) lz unfolding out(3) by auto
  have src: "bitat tmp (r + i) = bitat c (off + i)" if "i < n" for i
  proof -
    have "bitat c (8 * q + (r + i)) = bitat (drop q c) (r + i)"
      using bitat_append [of "take q c" "drop q c" "8 * q + (r + i)"] lq(1) by simp
    also have "\<dots> = bitat tmp (r + i)"
      using bitat_append [of tmp "drop l (drop q c)" "r + i"] lq(3) rd(2) that unfolding tmp_def append_take_drop_id by simp
    finally show ?thesis using e(1) by (simp add: add.assoc)
  qed
  show ?thesis using out cp src z by (auto simp: off_def c_def k_def)
qed

end

section \<open>Scalars\<close>

text \<open>The bit of the value that is sent at a position: bytes from the least significant one, bits of a byte from the most significant one.\<close>

definition sc_index :: "nat \<Rightarrow> nat \<Rightarrow> nat" where
  "sc_index n i = 8 * (i div 8) + (if i div 8 = n div 8 then n mod 8 - 1 - i mod 8 else 7 - i mod 8)"

lemma sc_index_involution:
  assumes "i < n"
  shows "sc_index n i < n" "sc_index n (sc_index n i) = i"
proof -
  define q where "q = i div 8"
  define r where "r = i mod 8"
  have e: "i = 8 * q + r" "r < 8" "n = 8 * (n div 8) + n mod 8" by (simp_all add: q_def r_def)
  have "sc_index n i < n \<and> sc_index n (sc_index n i) = i"
  proof (cases "q = n div 8")
    case True
    then have "r < n mod 8" using assms e by linarith
    define j where "j = n mod 8 - 1 - r"
    have j: "j < 8" "n mod 8 - 1 - j = r" "sc_index n i = 8 * q + j"
      using \<open>r < n mod 8\<close> by (simp_all add: j_def sc_index_def True [symmetric] q_def r_def less_imp_diff_less)
    have lt: "sc_index n i < n" using j(3) True e(3) \<open>r < n mod 8\<close> unfolding j_def by linarith
    have "sc_index n (8 * q + j) = 8 * q + (n mod 8 - 1 - j)"
      using div8 [OF j(1), of q] True by (simp only: sc_index_def simp_thms if_True)
    then show ?thesis using j(2,3) e(1) lt by simp
  next
    case False
    then have "q < n div 8" using assms e by linarith
    define j where "j = 7 - r"
    have j: "j < 8" "7 - j = r" "sc_index n i = 8 * q + j" using False e(2) by (simp_all add: j_def sc_index_def q_def r_def)
    have lt: "sc_index n i < n" using j(3) \<open>q < n div 8\<close> e(3) unfolding j_def by linarith
    have "sc_index n (8 * q + j) = 8 * q + (7 - j)"
      using div8 [OF j(1), of q] False by (simp only: sc_index_def simp_thms if_False)
    then show ?thesis using j(2,3) e(1) lt by simp
  qed
  then show "sc_index n i < n" "sc_index n (sc_index n i) = i" by simp_all
qed

definition sc_shift :: "nat \<Rightarrow> u8 list \<Rightarrow> u8 list" where
  "sc_shift n bytes = (if n mod 8 \<noteq> 0
    then bytes[n div 8 := push_bit ((8 - n mod 8) mod 8) (bytes ! (n div 8))] else bytes)"

lemma sc_shift_bits:
  assumes "i < n" and "n \<le> bits" and "bits mod 8 = 0" and "bits \<le> 64"
  shows "bitat (sc_shift n (sc_bytes bits v)) i = bit v (sc_index n i)" "length (sc_shift n (sc_bytes bits v)) = bits div 8"
proof -
  show len: "length (sc_shift n (sc_bytes bits v)) = bits div 8" by (simp add: sc_shift_def sc_bytes_def)
  define q where "q = i div 8"
  define r where "r = i mod 8"
  have e: "i = 8 * q + r" "r < 8" "n = 8 * (n div 8) + n mod 8" by (simp_all add: q_def r_def)
  have "bits = 8 * (bits div 8)" using assms(3) mult_div_mod_eq [of 8 bits] by simp
  then have "q < bits div 8" "bits div 8 \<le> 8" using assms(1,2,4) e(1) by linarith+
  then have q: "q < bits div 8" "8 * q + 7 < 64" by linarith+
  have b: "bit (sc_bytes bits v ! q) j = (j < 8 \<and> bit v (8 * q + j))" for j
    using q by (auto simp: sc_bytes_def bit_simps dest: bit_u8)
  show "bitat (sc_shift n (sc_bytes bits v)) i = bit v (sc_index n i)"
  proof (cases "q = n div 8")
    case True
    then have m: "r < n mod 8" using assms(1) e by linarith
    have m8: "n mod 8 < 8" by simp
    then have sh: "(8 - n mod 8) mod 8 = 8 - n mod 8" using m by simp
    have ix: "7 - r - (8 - n mod 8) = n mod 8 - 1 - r" "8 - n mod 8 \<le> 7 - r" "7 - r < 8" "n mod 8 - 1 - r < 8"
      using m m8 by linarith+
    let ?b = "sc_bytes bits v ! q"
    have "q < length (sc_bytes bits v)" using q(1) by (simp add: sc_bytes_def)
    then have "bitat (sc_shift n (sc_bytes bits v)) i = bit (push_bit (8 - n mod 8) ?b) (7 - r)"
      using True m sh by (simp add: bitat_def sc_shift_def q_def [symmetric] r_def [symmetric])
    also have "\<dots> = bit ?b (7 - r - (8 - n mod 8))" using ix(2,3) by (simp add: bit_push_bit_iff)
    also have "\<dots> = bit v (8 * q + (n mod 8 - 1 - r))" unfolding ix(1) using b [of "n mod 8 - 1 - r"] ix(4) by blast
    finally show ?thesis unfolding sc_index_def using True by (simp add: q_def [symmetric] r_def [symmetric])
  next
    case False
    moreover have "7 - r < 8" by simp
    ultimately show ?thesis using b [of "7 - r"] unfolding sc_index_def
      by (simp add: bitat_def sc_shift_def q_def [symmetric] r_def [symmetric])
  qed
qed

lemma bit_sc_of_bytes:
  "length bs \<le> 8 \<Longrightarrow> bit (sc_of_bytes bs) k = (k div 8 < length bs \<and> bit (bs ! (k div 8)) (k mod 8))"
proof (induction bs arbitrary: k)
  case (Cons b bs)
  show ?case
  proof (cases "k < 8")
    case True
    then show ?thesis by (auto simp: bit_simps)
  next
    case False
    then have k: "(k - 8) div 8 = k div 8 - 1" "(k - 8) mod 8 = k mod 8" "0 < k div 8"
      by (simp_all add: le_div_geq le_mod_geq)
    have "k < 64" if "k div 8 < Suc (length bs)" using that Cons.prems by (simp add: div_less_iff_less_mult)
    moreover have "(k div 8 - 1 < length bs) = (k div 8 < Suc (length bs))" using k(3) by linarith
    ultimately show ?thesis using False Cons k by (auto simp: bit_simps nth_Cons' dest: bit_u8)
  qed
qed simp

lemma sc_encode_eq:
  "sc_encode B n bits v st = bs_write B (sc_shift n (sc_bytes bits (sc_clearExtraBits n bits v))) n st"
  by (simp add: sc_encode_def sc_encodeBytesImpl_def sc_shift_def Let_def)

lemma bit_clearExtraBits: "k < n \<Longrightarrow> bit (sc_clearExtraBits n bits v) k = bit v k"
proof -
  have "push_bit n 1 - 1 = (mask n :: u64)" by (simp add: mask_eq_exp_minus_1 push_bit_eq_mult)
  then show "k < n \<Longrightarrow> bit (sc_clearExtraBits n bits v) k = bit v k"
    by (auto simp: sc_clearExtraBits_def bit_simps dest: bit_imp_le_length)
qed

text \<open>The stream holds a value: its bits are at the positions behind an offset.\<close>

definition sc_sent :: "u8 list \<Rightarrow> nat \<Rightarrow> nat \<Rightarrow> u64 \<Rightarrow> bool" where
  "sc_sent c off n v \<longleftrightarrow> off + n \<le> 8 * length c \<and> (\<forall>i < n. bitat c (off + i) = bit v (sc_index n i))"

context bit_buffer
begin

lemma sc_encode_spec:
  assumes "binv buf" and "bit_stream_ok (contents buf) bs" and n: "0 < n" "n \<le> bits" "bits mod 8 = 0" "bits \<le> 64"
    and "bs_bit_offset bs + n + 16 < 2 ^ 32"
    and w: "sc_encode B n bits v (bs, buf) = (Inr ResultOk, bs', buf')"
  shows "binv buf' \<and> bit_stream_ok (contents buf') bs' \<and> bs_bit_offset bs' = bs_bit_offset bs + n \<and>
    (\<forall>i < bs_bit_offset bs. bitat (contents buf') i = bitat (contents buf) i) \<and>
    sc_sent (contents buf') (bs_bit_offset bs) n v"
proof -
  let ?bytes = "sc_shift n (sc_bytes bits (sc_clearExtraBits n bits v))"
  have "bits = 8 * (bits div 8)" using n(3) mult_div_mod_eq [of 8 bits] by simp
  then have len: "n \<le> 8 * length ?bytes" using sc_shift_bits(2) [of 0 n bits] n by simp
  note sp = bs_write_spec [OF assms(1,2) n(1) len assms(7) w [unfolded sc_encode_eq]]
  have "length (contents buf') = (bs_bit_offset bs + n + 7) div 8" using sp by (auto simp: bit_stream_ok_def)
  then have "bs_bit_offset bs + n \<le> 8 * length (contents buf')" by linarith
  moreover have "bitat ?bytes i = bit v (sc_index n i)" if "i < n" for i
    using sc_shift_bits(1) [OF that n(2-4)] bit_clearExtraBits [OF sc_index_involution(1) [OF that]] by simp
  ultimately show ?thesis using sp by (auto simp: sc_sent_def)
qed

lemma sc_decode_spec:
  assumes inv: "binv buf" and n: "0 < n" "n \<le> bits" "bits mod 8 = 0" "bits \<le> 64"
    and small: "bs_bit_offset bs + n + 16 < 2 ^ 32"
    and sent: "sc_sent (contents buf) (bs_bit_offset bs) n v"
  shows "sc_decode B buf n bits is_signed old bs =
    (Inr ResultOk, sc_fixTwosComplement n bits is_signed (v AND mask n), bs\<lparr>bs_bit_offset := bs_bit_offset bs + n\<rparr>)"
proof -
  let ?z = "replicate (bits div 8) 0 :: u8 list"
  obtain res bytes bs1 where r: "bs_read B buf ?z n bs = (res, bytes, bs1)" by (metis prod_cases3)
  have bits: "bits = 8 * (bits div 8)" using n(3) mult_div_mod_eq [of 8 bits] by simp
  have sp: "res = Inr ResultOk" "bs1 = bs\<lparr>bs_bit_offset := bs_bit_offset bs + n\<rparr>" "length bytes = bits div 8"
    "\<forall>i < bits. bitat bytes i = (i < n \<and> bit v (sc_index n i))"
    using bs_read_spec [OF inv n(1) _ small _ r] sent n(2) bits
    by (auto simp: sc_sent_def bitat_replicate)
  define m where "m = n mod 8"
  define f where "f = (if m \<noteq> 0 then bytes[n div 8 := drop_bit ((8 - m) mod 8) (bytes ! (n div 8))] else bytes)"
  have dec: "sc_decodeBytesImpl B buf ?z n bs = (Inr ResultOk, f, bs1)"
    using r sp(1) by (simp add: sc_decodeBytesImpl_def f_def m_def)
  have "sc_of_bytes f = v AND mask n"
  proof (rule bit_word_eqI)
    fix k assume "k < LENGTH(64)"
    define q where "q = k div 8"
    define r where "r = k mod 8"
    have e: "k = 8 * q + r" "r < 8" "n = 8 * (n div 8) + m" "m < 8" by (simp_all add: q_def r_def m_def)
    have lf: "length f = bits div 8" "length f \<le> 8" using sp(3) n(4) by (auto simp: f_def)
    have byte: "bit (bytes ! q) j = (8 * q + (7 - j) < n \<and> bit v (sc_index n (8 * q + (7 - j))))"
      if "j < 8" "q < bits div 8" for j
    proof -
      have "8 * q + (7 - j) < bits" using that bits by linarith
      moreover have "bitat bytes (8 * q + (7 - j)) = bit (bytes ! q) j"
        using div8 [of "7 - j" q] that(1) by (simp add: bitat_def)
      ultimately show ?thesis using sp(4) by simp
    qed
    have "bit (sc_of_bytes f) k = (q < bits div 8 \<and> bit (f ! q) r)"
      using bit_sc_of_bytes [OF lf(2)] lf(1) by (simp add: q_def r_def)
    also have "\<dots> = (k < n \<and> bit v k)"
    proof (cases "q < bits div 8")
      case False
      then have "n \<le> k" using n(2) bits e(1) by linarith
      then show ?thesis using False by simp
    next
      case q: True
      show ?thesis
      proof (cases "q = n div 8 \<and> m \<noteq> 0")
        case True
        then have "(8 - m) mod 8 = 8 - m" by simp
        then have "bit (f ! q) r = bit (bytes ! q) (8 - m + r)"
          using True sp(3) q by (simp add: f_def bit_drop_bit_eq)
        also have "\<dots> = (r < m \<and> bit v k)"
        proof (cases "r < m")
          case True
          have ix: "7 - (8 - m + r) = m - 1 - r" "8 - m + r < 8" "8 * q + (m - 1 - r) < n" "m - 1 - r < 8"
            using True e \<open>q = n div 8 \<and> m \<noteq> 0\<close> by linarith+
          have "sc_index n (8 * q + (m - 1 - r)) = 8 * q + (m - 1 - (m - 1 - r))"
            using div8 [OF ix(4), of q] \<open>q = n div 8 \<and> m \<noteq> 0\<close> by (simp only: sc_index_def m_def simp_thms if_True)
          then have "sc_index n (8 * q + (m - 1 - r)) = k" using e(1) True by simp
          then show ?thesis using byte [OF ix(2) q] ix(1,3) True by simp
        next
          case False
          then have "8 \<le> 8 - m + r" using e(4) by linarith
          then show ?thesis using False bit_u8 [of "bytes ! q" "8 - m + r"] by auto
        qed
        also have "(r < m) = (k < n)" using e True by linarith
        finally show ?thesis using q by simp
      next
        case False
        then have "f ! q = bytes ! q" using e by (auto simp: f_def)
        moreover have "bit (bytes ! q) r = (k < n \<and> bit v k)"
        proof (cases "q = n div 8")
          case True
          then have "m = 0" using False by simp
          then show ?thesis using byte [OF e(2) q] e True by auto
        next
          case ne: False
          have ix: "7 - r < 8" by simp
          have "sc_index n (8 * q + (7 - r)) = 8 * q + (7 - (7 - r))"
            using div8 [OF ix, of q] ne by (simp only: sc_index_def simp_thms if_False)
          then have "sc_index n (8 * q + (7 - r)) = k" using e(1,2) by simp
          moreover have "(8 * q + (7 - r) < n) = (k < n)" using e ne by linarith
          ultimately show ?thesis using byte [OF e(2) q] by simp
        qed
        ultimately show ?thesis using q by simp
      qed
    qed
    finally show "bit (sc_of_bytes f) k = bit (v AND mask n) k"
      by (auto simp: bit_simps dest: bit_imp_le_length)
  qed
  then show ?thesis using dec sp(2) by (simp add: sc_decode_def)
qed

end

section \<open>Integers\<close>

definition is_wf :: "integer_spec \<Rightarrow> bool" where
  "is_wf I \<longleftrightarrow> 1 \<le> is_BitLen I \<and> is_BitLen I \<le> 64 \<and> (is_Signedness I = SignednessSigned \<longrightarrow> 1 < is_BitLen I)"

text \<open>
  The number that arrives when a number is sent.  A number that \<^verbatim>\<open>StorageType\<close> does not hold is first converted
  to it.
\<close>

definition is_expected :: "integer_spec \<Rightarrow> int \<Rightarrow> int" where
  "is_expected I x =
    (if is_BitLen I = 1 then of_bool (x \<noteq> 0)
     else
       (let value = is_StorageType I x
        in if is_CastMode I = CastModeSaturate then min (is_max I) (max (is_min I) value)
           else if is_Signedness I = SignednessSigned then signed_take_bit (is_BitLen I - 1) value
           else value mod 2 ^ is_BitLen I))"

lemma is_storage_bits:
  "is_wf I \<Longrightarrow> is_BitLen I \<le> is_storage_bits I" "is_storage_bits I mod 8 = 0" "is_storage_bits I \<le> 64"
  "0 < is_storage_bits I"
  by (auto simp: is_wf_def is_storage_bits_def)

lemma bit_uint_word: "bit (uint w) k = bit w k"
  by (auto simp: bit_uint_iff dest: bit_imp_le_length)

lemma bit_signed_take_int: "bit (signed_take_bit n (x :: int)) k = bit x (min k n)"
  by (simp add: bit_signed_take_bit_iff min.commute)

lemma is_value_fix:
  assumes "is_wf I"
  shows "is_value I (sc_fixTwosComplement (is_BitLen I) (is_storage_bits I) (is_Signedness I = SignednessSigned)
      (w AND mask (is_BitLen I))) =
    (if is_Signedness I = SignednessSigned then signed_take_bit (is_BitLen I - 1) (uint w) else take_bit (is_BitLen I) (uint w))"
    (is "is_value I ?f = _")
proof -
  define n where "n = is_BitLen I"
  define m where "m = is_storage_bits I"
  have nm: "n \<le> m" "m \<le> 64" "0 < n" using is_storage_bits [of I] assms by (auto simp: n_def m_def is_wf_def)
  have mask: "push_bit n 1 - 1 = (mask n :: u64)" by (simp add: mask_eq_exp_minus_1 push_bit_eq_mult)
  show ?thesis
  proof (cases "is_Signedness I = SignednessSigned")
    case False
    moreover have "uint (w AND mask n) = take_bit n (uint w)"
      by (rule bit_eqI) (auto simp: bit_simps bit_uint_iff dest: bit_imp_le_length)
    ultimately show ?thesis by (simp add: is_value_def sc_fixTwosComplement_def n_def)
  next
    case True
    have top: "((w AND mask n) AND push_bit (n - 1) 1 \<noteq> 0) = bit w (n - 1)"
    proof -
      have "(w AND mask n) AND push_bit (n - 1) 1 = (if bit w (n - 1) then push_bit (n - 1) 1 else 0)"
        using nm by (intro bit_word_eqI) (auto simp: bit_simps)
      moreover have "push_bit (n - 1) 1 \<noteq> (0 :: u64)" using nm by (simp add: push_bit_eq_mult)
      ultimately show ?thesis by simp
    qed
    define g where "g = sc_fixTwosComplement n m True (w AND mask n)"
    have g: "bit g k = (k < m \<and> bit w (min k (n - 1)))" for k
    proof (cases "n < m \<and> bit w (n - 1)")
      case True
      then have "g = (w AND mask n) OR (mask m AND NOT (mask n))" using top by (simp add: g_def sc_fixTwosComplement_def mask [symmetric])
      then show ?thesis using True nm by (auto simp: bit_simps min_def dest: bit_imp_le_length)
    next
      case False
      then have "g = w AND mask n" using top by (auto simp: g_def sc_fixTwosComplement_def)
      then show ?thesis using False nm by (cases "k < n") (auto simp: bit_simps min_def not_less dest: bit_imp_le_length)
    qed
    have "signed_take_bit (m - 1) (uint g) = signed_take_bit (n - 1) (uint w)"
    proof (rule bit_eqI)
      fix k
      have "min (min k (m - 1)) (n - 1) = min k (n - 1)" "min k (m - 1) < m" using nm by auto
      then show "bit (signed_take_bit (m - 1) (uint g)) k = bit (signed_take_bit (n - 1) (uint w)) k"
        using g [of "min k (m - 1)"] by (simp only: bit_signed_take_int bit_uint_word simp_thms)
    qed
    then show ?thesis using True by (simp add: is_value_def g_def n_def m_def)
  qed
qed

lemma uint_storage:
  assumes "k \<le> is_storage_bits I"
  shows "take_bit k (uint (is_storage I x)) = take_bit k x"
  using assms is_storage_bits(3) [of I]
  by (intro bit_eqI) (auto simp: is_storage_def bit_simps bit_take_bit_iff bit_uint_word)

lemma signed_storage:
  assumes "k < is_storage_bits I"
  shows "signed_take_bit k (uint (is_storage I x)) = signed_take_bit k x"
  using assms is_storage_bits(3) [of I]
  by (intro bit_eqI) (auto simp: is_storage_def bit_simps bit_signed_take_int bit_uint_word min_def)

definition is_word :: "integer_spec \<Rightarrow> int \<Rightarrow> u64" where
  "is_word I value =
    (if is_BitLen I = 1 then of_bool (value \<noteq> 0)
     else if is_CastMode I = CastModeSaturate then is_storage I (is_saturate I (is_StorageType I value))
     else is_truncate I (is_storage I (is_StorageType I value)))"

lemma is_saturate_clamp: "is_wf I \<Longrightarrow> is_saturate I x = min (is_max I) (max (is_min I) x)"
proof -
  assume "is_wf I"
  then have "is_min I \<le> is_max I" by (auto simp: is_min_def is_max_def)
  then show ?thesis by (auto simp: is_saturate_def)
qed

lemma is_expected_eq:
  assumes wf: "is_wf I"
  shows "(if is_Signedness I = SignednessSigned then signed_take_bit (is_BitLen I - 1) (uint (is_word I a))
     else take_bit (is_BitLen I) (uint (is_word I a))) = is_expected I a"
proof -
  define n where "n = is_BitLen I"
  define x where "x = is_StorageType I a"
  have n: "n \<le> is_storage_bits I" "0 < n" "n - 1 < is_storage_bits I" "n \<le> 64"
    using is_storage_bits [of I] wf by (auto simp: n_def is_wf_def)
  have nos: "is_Signedness I \<noteq> SignednessSigned" if "n = 1" using wf that by (auto simp: is_wf_def n_def)
  have sat: "signed_take_bit (n - 1) y = y" if "is_Signedness I = SignednessSigned" "is_min I \<le> y" "y \<le> is_max I" for y
    using that n(2) by (intro signed_take_bit_int_eq_self) (auto simp: is_min_def is_max_def n_def)
  have usat: "take_bit n y = y" if "is_Signedness I \<noteq> SignednessSigned" "is_min I \<le> y" "y \<le> is_max I" for y
    using that by (intro take_bit_int_eq_self) (cases "is_Signedness I"; auto simp: is_min_def is_max_def n_def)+
  let ?y = "min (is_max I) (max (is_min I) x)"
  have "is_min I \<le> is_max I" by (auto simp: is_min_def is_max_def)
  then have y: "is_min I \<le> ?y" "?y \<le> is_max I" by auto
  have trs: "signed_take_bit (n - 1) (uint (is_truncate I (is_storage I x))) = signed_take_bit (n - 1) (uint (is_storage I x))"
    using n by (intro bit_eqI) (auto simp: is_truncate_def is_mask_def bit_simps bit_signed_take_int bit_uint_word n_def min_def)
  have tr: "take_bit n (uint (is_truncate I (is_storage I x))) = take_bit n (uint (is_storage I x))"
    using n by (intro bit_eqI) (auto simp: is_truncate_def is_mask_def bit_simps bit_take_bit_iff bit_uint_word n_def)
  consider "n = 1" | "n \<noteq> 1" "is_CastMode I = CastModeSaturate" | "n \<noteq> 1" "is_CastMode I = CastModeTruncate"
    by (cases "is_CastMode I") auto
  then show ?thesis
  proof cases
    case 1
    then show ?thesis using nos by (simp add: is_word_def is_expected_def n_def take_bit_eq_mod)
  next
    case 2
    then show ?thesis using sat usat y uint_storage [of n I ?y] signed_storage [of "n - 1" I ?y] n is_saturate_clamp [OF wf, of x]
      by (simp add: is_word_def is_expected_def n_def Let_def flip: x_def)
  next
    case 3
    then show ?thesis using tr trs uint_storage [of n I x] signed_storage [of "n - 1" I x] n
      by (simp add: is_word_def is_expected_def n_def take_bit_eq_mod Let_def flip: x_def)
  qed
qed

lemma is_expected_in_range:
  assumes wf: "is_wf I" and x: "is_min I \<le> x" "x \<le> is_max I"
  shows "is_expected I x = x"
proof (cases "is_BitLen I = 1")
  case True
  then have "is_Signedness I = SignednessUnsigned" using wf by (cases "is_Signedness I") (auto simp: is_wf_def)
  then have "x = 0 \<or> x = 1" using x True by (auto simp: is_min_def is_max_def)
  then show ?thesis using True by (auto simp: is_expected_def)
next
  case False
  define n m where "n = is_BitLen I" and "m = is_storage_bits I"
  have nm: "0 < n" "n \<le> m" using is_storage_bits(1) [OF wf] wf by (auto simp: n_def m_def is_wf_def)
  show ?thesis
  proof (cases "is_Signedness I")
    case SignednessUnsigned
    then have r: "0 \<le> x" "x < 2 ^ n" using x by (auto simp: is_min_def is_max_def n_def)
    moreover have "(2 :: int) ^ n \<le> 2 ^ m" using nm by (intro power_increasing) auto
    ultimately have "x < 2 ^ m" by linarith
    then show ?thesis using r x False SignednessUnsigned
      by (simp add: is_expected_def is_StorageType_def take_bit_int_eq_self flip: n_def m_def)
  next
    case SignednessSigned
    then have r: "- (2 ^ (n - 1)) \<le> x" "x < 2 ^ (n - 1)" using x by (auto simp: is_min_def is_max_def n_def)
    moreover have "(2 :: int) ^ (n - 1) \<le> 2 ^ (m - 1)" using nm by (intro power_increasing) auto
    ultimately have "- (2 ^ (m - 1)) \<le> x" "x < 2 ^ (m - 1)" by linarith+
    then show ?thesis using r x False SignednessSigned
      by (simp add: is_expected_def is_StorageType_def signed_take_bit_int_eq_self flip: n_def m_def)
  qed
qed

section \<open>Sequences of fields\<close>

text \<open>Structures are encoded field after field, up to the first failure, and decoded in the same order.\<close>

fun is_encode_all ::
  "'b itransfer_buffer \<Rightarrow> (integer_spec \<times> int) list \<Rightarrow> bit_stream \<times> 'b \<Rightarrow>
    (uavcan_error + bs_result) \<times> bit_stream \<times> 'b" where
  "is_encode_all B [] st = (Inr ResultOk, st)"
| "is_encode_all B ((I, x) # fs) st =
    (let (res, st) = integer_encode B I x st
     in if res = Inr ResultOk then is_encode_all B fs st else (res, st))"

fun is_decode_all ::
  "'b itransfer_buffer \<Rightarrow> 'b \<Rightarrow> integer_spec list \<Rightarrow> bit_stream \<Rightarrow> (uavcan_error + bs_result) \<times> int list \<times> bit_stream" where
  "is_decode_all B buf [] bs = (Inr ResultOk, [], bs)"
| "is_decode_all B buf (I # Is) bs =
    (let (res, x, bs) = integer_decode B buf I 0 bs
     in if res = Inr ResultOk then (let (res, xs, bs) = is_decode_all B buf Is bs in (res, x # xs, bs))
        else (res, [], bs))"

definition is_total :: "(integer_spec \<times> int) list \<Rightarrow> nat" where
  "is_total fs = sum_list (map (is_BitLen \<circ> fst) fs)"

lemma is_total_simps [simp]: "is_total [] = 0" "is_total ((I, x) # fs) = is_BitLen I + is_total fs"
  by (simp_all add: is_total_def)

fun is_sent :: "u8 list \<Rightarrow> nat \<Rightarrow> (integer_spec \<times> int) list \<Rightarrow> bool" where
  "is_sent c off [] \<longleftrightarrow> True"
| "is_sent c off ((I, x) # fs) \<longleftrightarrow> sc_sent c off (is_BitLen I) (is_word I x) \<and> is_sent c (off + is_BitLen I) fs"

lemma integer_encode_eq: "integer_encode B I x st = sc_encode B (is_BitLen I) (is_storage_bits I) (is_word I x) st"
  by (simp add: integer_encode_def ib_encode_def ib_StorageType_def is_encode_def is_word_def is_storage_bits_def Let_def)

lemma integer_decode_eq:
  assumes "is_wf I" and "sc_decode B buf (is_BitLen I) (is_storage_bits I) (is_Signedness I = SignednessSigned) (is_storage I 0) bs =
      (Inr ResultOk, sc_fixTwosComplement (is_BitLen I) (is_storage_bits I) (is_Signedness I = SignednessSigned)
         (w AND mask (is_BitLen I)), bs')"
  shows "integer_decode B buf I 0 bs =
    (Inr ResultOk, if is_Signedness I = SignednessSigned then signed_take_bit (is_BitLen I - 1) (uint w)
       else take_bit (is_BitLen I) (uint w), bs')"
proof (cases "is_BitLen I = 1")
  case True
  then have u: "is_Signedness I \<noteq> SignednessSigned" "is_storage_bits I = 8" using assms(1) by (auto simp: is_wf_def is_storage_bits_def)
  have w: "w AND 1 \<noteq> 0 \<longleftrightarrow> odd w" "odd (uint w) \<longleftrightarrow> odd w"
    using bit_uint_word [of w 0] by (simp_all add: and_one_eq odd_iff_mod_2_eq_one bit_0)
  have "sc_decode B buf 1 8 False 0 bs = (Inr ResultOk, w AND 1, bs')"
    using assms(2) u True by (simp add: is_storage_def sc_fixTwosComplement_def mask_eq_exp_minus_1)
  then show ?thesis using True u w
    by (simp add: integer_decode_def ib_decode_def ib_StorageType_def take_bit_eq_mod mod2_eq_if)
next
  case False
  then show ?thesis using assms(2) is_value_fix [OF assms(1), of w] by (simp add: integer_decode_def is_decode_def)
qed

context bit_buffer
begin

lemma is_encode_all_spec:
  assumes "binv buf" and "bit_stream_ok (contents buf) bs" and "\<forall>(I, x) \<in> set fs. is_wf I"
    and "bs_bit_offset bs + is_total fs + 16 < 2 ^ 32"
    and "is_encode_all B fs (bs, buf) = (Inr ResultOk, bs', buf')"
  shows "binv buf' \<and> bit_stream_ok (contents buf') bs' \<and> bs_bit_offset bs' = bs_bit_offset bs + is_total fs \<and>
    (\<forall>i < bs_bit_offset bs. bitat (contents buf') i = bitat (contents buf) i) \<and>
    is_sent (contents buf') (bs_bit_offset bs) fs"
  using assms
proof (induction fs arbitrary: bs buf)
  case (Cons f fs)
  obtain I x where f: "f = (I, x)" by fastforce
  let ?n = "is_BitLen I"
  obtain bs1 buf1 where e: "integer_encode B I x (bs, buf) = (Inr ResultOk, bs1, buf1)"
    and r: "is_encode_all B fs (bs1, buf1) = (Inr ResultOk, bs', buf')"
    using Cons.prems(5) f by (auto split: prod.splits if_splits)
  have wf: "is_wf I" using Cons.prems(3) f by simp
  have n: "0 < ?n" "?n \<le> is_storage_bits I" using wf is_storage_bits(1) by (auto simp: is_wf_def)
  have "bs_bit_offset bs + ?n + 16 < 2 ^ 32" using Cons.prems(4) f by simp
  note sp = sc_encode_spec [OF Cons.prems(1,2) n is_storage_bits(2,3) this e [unfolded integer_encode_eq]]
  have IH: "binv buf' \<and> bit_stream_ok (contents buf') bs' \<and> bs_bit_offset bs' = bs_bit_offset bs1 + is_total fs \<and>
    (\<forall>i < bs_bit_offset bs1. bitat (contents buf') i = bitat (contents buf1) i) \<and> is_sent (contents buf') (bs_bit_offset bs1) fs"
    by (rule Cons.IH [OF _ _ _ _ r]) (use sp Cons.prems(3,4) f in auto)
  have "length (contents buf1) \<le> length (contents buf')"
    using sp IH by (auto simp: bit_stream_ok_def intro!: div_le_mono)
  then have "sc_sent (contents buf') (bs_bit_offset bs) ?n (is_word I x)"
    using sp IH by (auto simp: sc_sent_def)
  then show ?case using sp IH f by (simp add: add.assoc)
qed simp

lemma is_decode_all_spec:
  assumes "binv buf" and "is_sent (contents buf) (bs_bit_offset bs) fs" and "\<forall>(I, x) \<in> set fs. is_wf I"
    and "bs_bit_offset bs + is_total fs + 16 < 2 ^ 32"
  shows "\<exists>bs'. is_decode_all B buf (map fst fs) bs = (Inr ResultOk, map (\<lambda>(I, x). is_expected I x) fs, bs')"
  using assms
proof (induction fs arbitrary: bs)
  case (Cons f fs)
  obtain I x where f: "f = (I, x)" by fastforce
  let ?n = "is_BitLen I"
  have wf: "is_wf I" using Cons.prems(3) f by simp
  have n: "0 < ?n" "?n \<le> is_storage_bits I" using wf is_storage_bits(1) by (auto simp: is_wf_def)
  have s: "bs_bit_offset bs + ?n + 16 < 2 ^ 32" "sc_sent (contents buf) (bs_bit_offset bs) ?n (is_word I x)"
    using Cons.prems(2,4) f by simp_all
  let ?bs = "bs\<lparr>bs_bit_offset := bs_bit_offset bs + ?n\<rparr>"
  have d: "integer_decode B buf I 0 bs = (Inr ResultOk, is_expected I x, ?bs)"
    using integer_decode_eq [OF wf sc_decode_spec [OF Cons.prems(1) n is_storage_bits(2,3) s]] is_expected_eq [OF wf] by simp
  obtain bs' where "is_decode_all B buf (map fst fs) ?bs = (Inr ResultOk, map (\<lambda>(I, x). is_expected I x) fs, bs')"
    using Cons.IH [of ?bs] Cons.prems f by auto
  then show ?case using d f by simp
qed simp

end

text \<open>A buffer that stores everything below its capacity.\<close>

locale fixed_bit_buffer = bit_buffer +
  fixes capacity :: "'a \<Rightarrow> nat"
  assumes tb_write_room: "binv b \<Longrightarrow> off \<le> length (contents b) \<Longrightarrow> off + length d \<le> capacity b \<Longrightarrow>
      off + length d < 2 ^ 32 \<Longrightarrow> tb_write B b off d = (r, b') \<Longrightarrow> r = Inr (length d) \<and> capacity b' = capacity b"
begin

lemma bs_write_ok:
  assumes "binv buf" and "bit_stream_ok (contents buf) bs" and "0 < n" and "n \<le> 8 * length bytes"
    and "bs_bit_offset bs + n + 16 < 2 ^ 32" and "bs_bit_offset bs + n \<le> 8 * capacity buf"
  shows "\<exists>bs' buf'. bs_write B bytes n (bs, buf) = (Inr ResultOk, bs', buf') \<and> capacity buf' = capacity buf"
proof -
  define off where "off = bs_bit_offset bs"
  define l where "l = (n + off mod 8 + 7) div 8"
  define t1 where "t1 = bitarrayCopy bytes 0 n (replicate l 0) (off mod 8)"
  define t where "t = t1[0 := t1 ! 0 OR bs_byte_cache bs]"
  have bl: "bitlenToBytelen (uadd n (off mod 8)) = l" using assms(5) by (simp add: bitlenToBytelen_def l_def off_def)
  have "off mod 8 + n \<le> 8 * l" unfolding l_def by linarith
  then have len: "length t = l" using bitarrayCopy_bits [of 0 n bytes "off mod 8" "replicate l 0"] assms(4) by (simp add: t_def t1_def)
  have q: "off div 8 + l = (off + n + 7) div 8" unfolding l_def by (rule div8_ceil [symmetric])
  then have room: "off div 8 + length t \<le> capacity buf" "off div 8 + length t < 2 ^ 32"
    using assms(5,6) len unfolding off_def [symmetric] by linarith+
  have "length (contents buf) = (off + 7) div 8" using assms(2) by (simp add: bit_stream_ok_def off_def)
  then have "off div 8 \<le> length (contents buf)" by linarith
  moreover obtain r buf' where w: "tb_write B buf (off div 8) t = (r, buf')" by fastforce
  ultimately have "r = Inr l \<and> capacity buf' = capacity buf" using tb_write_room [OF assms(1) _ room] len by simp
  then show ?thesis using w
    by (simp add: bs_write_def Let_def off_def [symmetric] bl t1_def [symmetric] t_def [symmetric])
qed

lemma is_encode_all_ok:
  assumes "binv buf" and "bit_stream_ok (contents buf) bs" and "\<forall>(I, x) \<in> set fs. is_wf I"
    and "bs_bit_offset bs + is_total fs + 16 < 2 ^ 32" and "bs_bit_offset bs + is_total fs \<le> 8 * capacity buf"
  shows "\<exists>bs' buf'. is_encode_all B fs (bs, buf) = (Inr ResultOk, bs', buf')"
  using assms
proof (induction fs arbitrary: bs buf)
  case (Cons f fs)
  obtain I x where f: "f = (I, x)" by fastforce
  let ?n = "is_BitLen I" and ?bits = "is_storage_bits I"
  have wf: "is_wf I" using Cons.prems(3) f by simp
  have n: "0 < ?n" "?n \<le> ?bits" using wf is_storage_bits(1) by (auto simp: is_wf_def)
  have s: "bs_bit_offset bs + ?n + 16 < 2 ^ 32" "bs_bit_offset bs + ?n \<le> 8 * capacity buf"
    using Cons.prems(4,5) f by simp_all
  have "?bits = 8 * (?bits div 8)" using is_storage_bits(2) [of I] mult_div_mod_eq [of 8 ?bits] by simp
  then have len: "?n \<le> 8 * length (sc_shift ?n (sc_bytes ?bits v))" for v
    using n sc_shift_bits(2) [of 0 ?n ?bits] is_storage_bits(2,3) [of I] by simp
  obtain bs1 buf1 where e: "integer_encode B I x (bs, buf) = (Inr ResultOk, bs1, buf1)" "capacity buf1 = capacity buf"
    using bs_write_ok [OF Cons.prems(1,2) n(1) len s] unfolding integer_encode_eq sc_encode_eq by blast
  note sp = sc_encode_spec [OF Cons.prems(1,2) n is_storage_bits(2,3) s(1) e(1) [unfolded integer_encode_eq]]
  have "\<exists>bs' buf'. is_encode_all B fs (bs1, buf1) = (Inr ResultOk, bs', buf')"
    by (rule Cons.IH) (use sp Cons.prems(3-5) f e(2) in auto)
  then show ?case using e f by simp
qed simp

end

definition sb_ops :: "static_buffer itransfer_buffer" where
  "sb_ops = \<lparr>tb_read = (\<lambda>b off len. sb_read b off False len), tb_write = (\<lambda>b off d. sb_write b off (Some d))\<rparr>"

interpretation sbs: fixed_bit_buffer sb_ops sb_inv sb_contents "\<lambda>b. unat (sb_size b)"
proof unfold_locales
  fix b and off len :: nat assume "sb_inv b" "off + len < 2 ^ 32"
  then show "tb_read sb_ops b off len = Inr (take len (drop off (sb_contents b)))" by (simp add: sb_ops_def sb_read_spec)
next
  fix b and off :: nat and d r b'
  assume a: "sb_inv b" "off \<le> length (sb_contents b)" "off + length d < 2 ^ 32" "tb_write sb_ops b off d = (r, b')"
  show "\<exists>n. r = Inr n \<and> n \<le> length d \<and> sb_inv b' \<and>
      sb_contents b' = take off (sb_contents b) @ take n d @ drop (off + n) (sb_contents b)"
    using sb_write_spec [OF a(1-3), of r b'] a(4) by (auto simp: sb_ops_def)
next
  fix b and off :: nat and d r b'
  assume a: "sb_inv b" "off \<le> length (sb_contents b)" "off + length d \<le> unat (sb_size b)" "off + length d < 2 ^ 32"
    "tb_write sb_ops b off d = (r, b')"
  show "r = Inr (length d) \<and> unat (sb_size b') = unat (sb_size b)"
    using sb_write_spec [OF a(1,2,4), of r b'] a(3,5) by (auto simp: sb_ops_def)
qed

definition te_ops :: "(addr \<Rightarrow> nat \<Rightarrow> u8) \<Rightarrow> (pool \<times> buffer_entry) itransfer_buffer" where
  "te_ops mem = \<lparr>tb_read = (\<lambda>b off len. te_read (snd b) off False len),
     tb_write = (\<lambda>b off d. te_write pool_ops mem b off (Some d))\<rparr>"

interpretation tes: bit_buffer "te_ops mem" te_binv "\<lambda>b. te_contents (snd b)" for mem
proof unfold_locales
  fix b and off len :: nat assume "te_binv b" "off + len < 2 ^ 32"
  then show "tb_read (te_ops mem) b off len = Inr (take len (drop off (te_contents (snd b))))"
    by (simp add: te_ops_def te_read_spec te_binv_def)
next
  fix b and off :: nat and d r b'
  assume a: "te_binv b" "off \<le> length (te_contents (snd b))" "off + length d < 2 ^ 32" "tb_write (te_ops mem) b off d = (r, b')"
  have w: "te_write pool_ops mem (fst b, snd b) off (Some d) = (r, fst b', snd b')" using a(4) by (simp add: te_ops_def)
  show "\<exists>n. r = Inr n \<and> n \<le> length d \<and> te_binv b' \<and>
      te_contents (snd b') = take off (te_contents (snd b)) @ take n d @ drop (off + n) (te_contents (snd b))"
    using pool.te_write_spec [OF _ _ _ a(2,3) w] a(1) unfolding te_binv_def by fastforce
qed

text \<open>
  C9.  Integers survive serialization: a sequence of fields of any widths, signednesses and cast modes
  that fits into an empty static buffer is encoded without failure, and decoding the buffer with the same
  sequence of specifications gives every number in the range of its field back.  Any other number is
  converted to the storage type of the field, as a call of \<^verbatim>\<open>encode\<close> does, and then clamped to the range when the
  field saturates, or reduced modulo its width when it truncates; in a field of one bit, which is Boolean,
  it arrives as 1.
\<close>

theorem integers_roundtrip:
  assumes "\<forall>(I, x) \<in> set fs. is_wf I" and "is_total fs \<le> 8 * unat (sb_size b)" and "sb_inv b" and "sb_contents b = []"
  shows "(\<exists>bs b' bs'. is_encode_all sb_ops fs (BitStream, b) = (Inr ResultOk, bs, b') \<and>
      is_decode_all sb_ops b' (map fst fs) BitStream = (Inr ResultOk, map (\<lambda>(I, x). is_expected I x) fs, bs')) \<and>
    (\<forall>(I, x) \<in> set fs. is_min I \<le> x \<and> x \<le> is_max I \<longrightarrow> is_expected I x = x)"
proof -
  have ok: "bit_stream_ok (sb_contents b) BitStream" using assms(4) by (simp add: bit_stream_ok_def BitStream_def)
  have small: "bs_bit_offset BitStream + is_total fs + 16 < 2 ^ 32" "bs_bit_offset BitStream + is_total fs \<le> 8 * unat (sb_size b)"
    using assms(2) unat_u16_lt [of "sb_size b"] by (simp_all add: BitStream_def)
  obtain bs b' where e: "is_encode_all sb_ops fs (BitStream, b) = (Inr ResultOk, bs, b')"
    using sbs.is_encode_all_ok [OF assms(3) ok assms(1) small] by blast
  note sp = sbs.is_encode_all_spec [OF assms(3) ok assms(1) small(1) e]
  have "\<exists>bs'. is_decode_all sb_ops b' (map fst fs) BitStream = (Inr ResultOk, map (\<lambda>(I, x). is_expected I x) fs, bs')"
    by (rule sbs.is_decode_all_spec) (use sp assms(1) small(1) in auto)
  then show ?thesis using e is_expected_in_range assms(1) by fastforce
qed

text \<open>A number that is clamped, one that is reduced, a Boolean, one that \<^verbatim>\<open>uint8_t\<close> does not hold, and one in range.\<close>

definition example_fields :: "(integer_spec \<times> int) list" where
  "example_fields =
    [(\<lparr>is_BitLen = 5, is_Signedness = SignednessSigned, is_CastMode = CastModeSaturate\<rparr>, 100),
     (\<lparr>is_BitLen = 12, is_Signedness = SignednessUnsigned, is_CastMode = CastModeTruncate\<rparr>, 5000),
     (\<lparr>is_BitLen = 1, is_Signedness = SignednessUnsigned, is_CastMode = CastModeSaturate\<rparr>, 42),
     (\<lparr>is_BitLen = 8, is_Signedness = SignednessUnsigned, is_CastMode = CastModeSaturate\<rparr>, 300),
     (\<lparr>is_BitLen = 6, is_Signedness = SignednessSigned, is_CastMode = CastModeTruncate\<rparr>, - 7)]"

theorem integers_roundtrip_witness:
  "\<exists>bs b' bs'. is_encode_all sb_ops example_fields (BitStream, StaticTransferBuffer (replicate 4 0) 4) = (Inr ResultOk, bs, b') \<and>
    is_decode_all sb_ops b' (map fst example_fields) BitStream = (Inr ResultOk, [15, 904, 1, 44, - 7], bs')"
proof -
  have "map (\<lambda>(I, x). is_expected I x) example_fields = [15, 904, 1, 44, - 7]" by code_simp
  then show ?thesis
    using integers_roundtrip [of example_fields "StaticTransferBuffer (replicate 4 0) 4"]
    by (simp add: example_fields_def is_wf_def sb_inv_def sb_contents_def StaticTransferBuffer_def)
qed

end
