(* ===== verification/Multisets.thy ===== *)
theory Multisets
  imports PoolAllocators "HOL-Library.Multiset"
begin

text \<open>
  \<^verbatim>\<open>Multiset\<close> (include/uavcan/util/multiset.hpp): items in the slots of chunks, one chunk per memory block.
  A chunk is the address of its block and its slots; \<^const>\<open>None\<close> is a slot without a constructed item.
\<close>

section \<open>Definitions\<close>

record ms_type =
  ms_NumItems :: nat
  ms_sizeof :: nat

type_synonym 'a ms_chunk = "addr \<times> 'a option list"

type_synonym 'a ms_chunks = "'a ms_chunk list"

definition msc_instantiate :: "'s allocator_ops \<Rightarrow> ms_type \<Rightarrow> 's \<Rightarrow> 'a ms_chunk option \<times> 's" where
  "msc_instantiate A T s =
    (case op_allocate A s (ms_sizeof T) of
       (None, s) \<Rightarrow> (None, s)
     | (Some praw, s) \<Rightarrow> (Some (praw, replicate (ms_NumItems T) None), s))"

definition msc_destroy :: "'s allocator_ops \<Rightarrow> 's \<Rightarrow> 'a ms_chunk \<Rightarrow> 's" where
  "msc_destroy A s c = op_deallocate A s (Some (fst c))"

text \<open>\<^verbatim>\<open>findFreeSlot\<close>, with the construction of the item in the slot it finds.\<close>

fun msc_fill :: "'a \<Rightarrow> 'a option list \<Rightarrow> 'a option list option" where
  "msc_fill x [] = None"
| "msc_fill x (None # is) = Some (Some x # is)"
| "msc_fill x (Some y # is) = map_option (\<lambda>is. Some y # is) (msc_fill x is)"

fun ms_fill :: "'a \<Rightarrow> 'a ms_chunks \<Rightarrow> 'a ms_chunks option" where
  "ms_fill x [] = None"
| "ms_fill x (p # ps) =
    (case msc_fill x (snd p) of
       Some is \<Rightarrow> Some ((fst p, is) # ps)
     | None \<Rightarrow> map_option (\<lambda>ps. p # ps) (ms_fill x ps))"

text \<open>\<^verbatim>\<open>emplace\<close>; the Boolean says whether the pointer it returns is not null.\<close>

definition ms_emplace ::
  "'s allocator_ops \<Rightarrow> ms_type \<Rightarrow> 'a \<Rightarrow> 's \<times> 'a ms_chunks \<Rightarrow> bool \<times> 's \<times> 'a ms_chunks" where
  "ms_emplace A T x sm =
    (let (s, m) = sm
     in case ms_fill x m of
          Some m \<Rightarrow> (True, s, m)
        | None \<Rightarrow>
            (case msc_instantiate A T s of
               (None, s) \<Rightarrow> (False, s, m)
             | (Some c, s) \<Rightarrow> (True, s, (fst c, (snd c)[0 := Some x]) # m)))"

fun ms_compact :: "'s allocator_ops \<Rightarrow> 's \<Rightarrow> 'a ms_chunks \<Rightarrow> 's \<times> 'a ms_chunks" where
  "ms_compact A s [] = (s, [])"
| "ms_compact A s (p # ps) =
    (if \<forall>i \<in> set (snd p). i = None then ms_compact A (msc_destroy A s p) ps
     else (let (s, ps) = ms_compact A s ps in (s, p # ps)))"

datatype remove_strategy = RemoveOne | RemoveAll

fun msc_sweep :: "remove_strategy \<Rightarrow> ('a \<Rightarrow> bool) \<Rightarrow> 'a option list \<Rightarrow> nat \<times> 'a option list" where
  "msc_sweep strategy predicate [] = (0, [])"
| "msc_sweep strategy predicate (None # is) =
    (let (n, is) = msc_sweep strategy predicate is in (n, None # is))"
| "msc_sweep strategy predicate (Some x # is) =
    (if predicate x then
       (if strategy = RemoveOne then (1, None # is)
        else (let (n, is) = msc_sweep strategy predicate is in (n + 1, None # is)))
     else (let (n, is) = msc_sweep strategy predicate is in (n, Some x # is)))"

fun ms_sweep :: "remove_strategy \<Rightarrow> ('a \<Rightarrow> bool) \<Rightarrow> nat \<Rightarrow> 'a ms_chunks \<Rightarrow> nat \<times> 'a ms_chunks" where
  "ms_sweep strategy predicate num_removed [] = (num_removed, [])"
| "ms_sweep strategy predicate num_removed (p # ps) =
    (if num_removed > 0 \<and> strategy = RemoveOne then (num_removed, p # ps)
     else
       (let (n, is) = msc_sweep strategy predicate (snd p);
            (num_removed, ps) = ms_sweep strategy predicate (num_removed + n) ps
        in (num_removed, (fst p, is) # ps)))"

definition ms_removeWhere ::
  "'s allocator_ops \<Rightarrow> ('a \<Rightarrow> bool) \<Rightarrow> remove_strategy \<Rightarrow> 's \<times> 'a ms_chunks \<Rightarrow> 's \<times> 'a ms_chunks" where
  "ms_removeWhere A predicate strategy sm =
    (let (s, m) = sm; (num_removed, m) = ms_sweep strategy predicate 0 m
     in if num_removed > 0 then ms_compact A s m else (s, m))"

definition ms_removeFirst :: "'s allocator_ops \<Rightarrow> 'a \<Rightarrow> 's \<times> 'a ms_chunks \<Rightarrow> 's \<times> 'a ms_chunks" where
  "ms_removeFirst A ref sm = ms_removeWhere A (\<lambda>sample. ref = sample) RemoveOne sm"

definition ms_removeAll :: "'s allocator_ops \<Rightarrow> 'a \<Rightarrow> 's \<times> 'a ms_chunks \<Rightarrow> 's \<times> 'a ms_chunks" where
  "ms_removeAll A ref sm = ms_removeWhere A (\<lambda>sample. ref = sample) RemoveAll sm"

definition ms_clear :: "'s allocator_ops \<Rightarrow> 's \<times> 'a ms_chunks \<Rightarrow> 's \<times> 'a ms_chunks" where
  "ms_clear A sm = ms_removeWhere A (\<lambda>_. True) RemoveAll sm"

text \<open>
  \<^verbatim>\<open>find\<close> with a predicate that may have a state, as \<^verbatim>\<open>IndexPredicate\<close> has; the result is the item that the
  pointer refers to.
\<close>

fun msc_find :: "('a \<Rightarrow> 'p \<Rightarrow> bool \<times> 'p) \<Rightarrow> 'p \<Rightarrow> 'a option list \<Rightarrow> 'a option \<times> 'p" where
  "msc_find predicate st [] = (None, st)"
| "msc_find predicate st (None # is) = msc_find predicate st is"
| "msc_find predicate st (Some x # is) =
    (let (hit, st) = predicate x st in if hit then (Some x, st) else msc_find predicate st is)"

fun ms_find :: "('a \<Rightarrow> 'p \<Rightarrow> bool \<times> 'p) \<Rightarrow> 'p \<Rightarrow> 'a ms_chunks \<Rightarrow> 'a option \<times> 'p" where
  "ms_find predicate st [] = (None, st)"
| "ms_find predicate st (p # ps) =
    (case msc_find predicate st (snd p) of (Some x, st) \<Rightarrow> (Some x, st) | (None, st) \<Rightarrow> ms_find predicate st ps)"

definition ms_getByIndex :: "nat \<Rightarrow> 'a ms_chunks \<Rightarrow> 'a option" where
  "ms_getByIndex index m = fst (ms_find (\<lambda>_ index. (index = 0, index - 1)) index m)"

definition ms_isEmpty :: "'a ms_chunks \<Rightarrow> bool" where
  "ms_isEmpty m \<longleftrightarrow> fst (ms_find (\<lambda>_ u. (True, u)) () m) = None"

definition ms_getSize :: "'a ms_chunks \<Rightarrow> nat" where
  "ms_getSize m = sum_list (map (\<lambda>p. length (filter (\<lambda>i. i \<noteq> None) (snd p))) m)"

text \<open>Assignment through the pointer that \<^verbatim>\<open>getByIndex\<close> returned: the item at an index gets a new value.\<close>

fun msc_assign :: "nat \<Rightarrow> 'a \<Rightarrow> 'a option list \<Rightarrow> 'a option list" where
  "msc_assign index v [] = []"
| "msc_assign index v (None # is) = None # msc_assign index v is"
| "msc_assign index v (Some x # is) = (if index = 0 then Some v # is else Some x # msc_assign (index - 1) v is)"

fun ms_assign :: "nat \<Rightarrow> 'a \<Rightarrow> 'a ms_chunks \<Rightarrow> 'a ms_chunks" where
  "ms_assign index v [] = []"
| "ms_assign index v (p # ps) =
    (let n = length (filter (\<lambda>i. i \<noteq> None) (snd p))
     in if index < n then (fst p, msc_assign index v (snd p)) # ps else p # ms_assign (index - n) v ps)"

section \<open>The items\<close>

definition msc_items :: "'a option list \<Rightarrow> 'a list" where
  "msc_items is = map the (filter (\<lambda>i. i \<noteq> None) is)"

definition ms_items :: "'a ms_chunks \<Rightarrow> 'a list" where
  "ms_items m = concat (map (\<lambda>p. msc_items (snd p)) m)"

lemma msc_items_simps [simp]:
  "msc_items [] = []" "msc_items (None # is) = msc_items is" "msc_items (Some x # is) = x # msc_items is"
  "length (filter (\<lambda>i. \<exists>y. i = Some y) is) = length (msc_items is)" "msc_items (replicate n None) = []"
  by (simp_all add: msc_items_def filter_replicate)

lemma ms_items_simps [simp]: "ms_items [] = []" "ms_items (p # ps) = msc_items (snd p) @ ms_items ps"
  by (simp_all add: ms_items_def)

lemma ms_getSize_items [simp]: "ms_getSize m = length (ms_items m)"
  by (induction m) (simp_all add: ms_getSize_def)

lemma msc_items_empty: "msc_items is = [] \<longleftrightarrow> (\<forall>i \<in> set is. i = None)"
  by (auto simp: msc_items_def filter_empty_conv)

lemma msc_fill_items: "msc_fill x is = Some js \<Longrightarrow> mset (msc_items js) = add_mset x (mset (msc_items is)) \<and> length js = length is"
  by (induction x "is" arbitrary: js rule: msc_fill.induct) auto

lemma ms_fill_items:
  "ms_fill x m = Some m' \<Longrightarrow> mset (ms_items m') = add_mset x (mset (ms_items m)) \<and> map fst m' = map fst m \<and>
    map (length \<circ> snd) m' = map (length \<circ> snd) m"
  by (induction x m arbitrary: m' rule: ms_fill.induct) (auto split: option.splits dest: msc_fill_items)

lemma ms_compact_eq:
  "ms_compact A s m = (deallocate_all A s (map fst (filter (\<lambda>p. msc_items (snd p) = []) m)),
     filter (\<lambda>p. msc_items (snd p) \<noteq> []) m)"
  by (induction m arbitrary: s) (auto simp: msc_items_empty msc_destroy_def)

lemma ms_items_filter: "ms_items (filter (\<lambda>p. msc_items (snd p) \<noteq> []) m) = ms_items m"
  by (induction m) auto

lemma msc_sweep_one:
  "msc_sweep RemoveOne P is = (if \<exists>x \<in> set (msc_items is). P x then 1 else 0, snd (msc_sweep RemoveOne P is)) \<and>
    length (snd (msc_sweep RemoveOne P is)) = length is \<and>
    msc_items (snd (msc_sweep RemoveOne P is)) = remove_first P (msc_items is)"
proof (induction "is")
  case (Cons i "is")
  then show ?case by (cases i; cases "msc_sweep RemoveOne P is") simp_all
qed simp

lemma msc_sweep_all:
  "msc_sweep RemoveAll P is = (length (filter P (msc_items is)), snd (msc_sweep RemoveAll P is)) \<and>
    length (snd (msc_sweep RemoveAll P is)) = length is \<and>
    msc_items (snd (msc_sweep RemoveAll P is)) = filter (\<lambda>x. \<not> P x) (msc_items is)"
proof (induction "is")
  case (Cons i "is")
  then show ?case by (cases i; cases "msc_sweep RemoveAll P is") simp_all
qed simp

lemma remove_first_append:
  "remove_first P (xs @ ys) = (if \<exists>x \<in> set xs. P x then remove_first P xs @ ys else xs @ remove_first P ys)"
  by (induction xs) auto

lemma ms_sweep_items:
  "ms_sweep st P k m = (n, m') \<Longrightarrow> map fst m' = map fst m \<and> map (length \<circ> snd) m' = map (length \<circ> snd) m \<and>
    (st = RemoveOne \<longrightarrow> (if k > 0 then n = k \<and> m' = m
       else n = (if \<exists>x \<in> set (ms_items m). P x then 1 else 0) \<and> ms_items m' = remove_first P (ms_items m))) \<and>
    (st = RemoveAll \<longrightarrow> n = k + length (filter P (ms_items m)) \<and> ms_items m' = filter (\<lambda>x. \<not> P x) (ms_items m))"
proof (induction st P k m arbitrary: n m' rule: ms_sweep.induct)
  case (2 st P k p ps)
  show ?case
  proof (cases "k > 0 \<and> st = RemoveOne")
    case True
    then show ?thesis using 2(2) by auto
  next
    case False
    obtain n1 is1 where s1: "msc_sweep st P (snd p) = (n1, is1)" by fastforce
    obtain n2 ps2 where s2: "ms_sweep st P (k + n1) ps = (n2, ps2)" by fastforce
    have out: "n = n2" "m' = (fst p, is1) # ps2" using 2(2) False s1 s2 by auto
    note b = 2(1) [OF False s1 [symmetric] refl s2]
    show ?thesis
    proof (cases st)
      case RemoveOne
      then have a: "n1 = (if \<exists>x \<in> set (msc_items (snd p)). P x then 1 else 0)" "length is1 = length (snd p)"
        "msc_items is1 = remove_first P (msc_items (snd p))" and k: "k = 0"
        using msc_sweep_one [of P "snd p"] s1 False by (simp_all split: if_splits)
      show ?thesis
      proof (cases "\<exists>x \<in> set (msc_items (snd p)). P x")
        case True
        then show ?thesis using a b out RemoveOne k by (simp add: remove_first_append Bex_def) blast
      next
        case False
        then show ?thesis using a b out RemoveOne k by (simp add: remove_first_append remove_first_none Bex_def) blast
      qed
    next
      case RemoveAll
      then have "n1 = length (filter P (msc_items (snd p)))" "length is1 = length (snd p)"
        "msc_items is1 = filter (\<lambda>x. \<not> P x) (msc_items (snd p))"
        using msc_sweep_all [of P "snd p"] s1 by simp_all
      then show ?thesis using b out RemoveAll by simp
    qed
  qed
qed simp

lemma msc_find_pure: "msc_find (\<lambda>x u. (P x, u)) st is = (List.find P (msc_items is), st)"
proof (induction "is")
  case (Cons i "is")
  then show ?case by (cases i) auto
qed simp

lemma msc_find_index:
  "msc_find (\<lambda>_ i. (i = 0, i - Suc 0)) k is =
    (if k < length (msc_items is) then (Some (msc_items is ! k), 0) else (None, k - length (msc_items is)))"
proof (induction "is" arbitrary: k)
  case (Cons i "is")
  then show ?case by (cases i) (auto simp: nth_Cons')
qed simp

lemma ms_getByIndex_items [simp]:
  "ms_getByIndex k m = (if k < length (ms_items m) then Some (ms_items m ! k) else None)"
proof -
  have "fst (ms_find (\<lambda>_ i. (i = 0, i - 1)) k m) = (if k < length (ms_items m) then Some (ms_items m ! k) else None)" for k
    by (induction m arbitrary: k) (auto simp: msc_find_index nth_append)
  then show ?thesis by (simp add: ms_getByIndex_def)
qed

lemma ms_isEmpty_items: "ms_isEmpty m \<longleftrightarrow> ms_items m = []"
proof -
  have "fst (ms_find (\<lambda>_ u. (True, u)) () m) = (case ms_items m of [] \<Rightarrow> None | x # _ \<Rightarrow> Some x)"
  proof (induction m)
    case (Cons p m)
    then show ?case
      using msc_find_pure [of "\<lambda>_. True" "()" "snd p"] by (cases "msc_items (snd p)") (simp_all add: find_None_iff)
  qed simp
  then show ?thesis by (simp add: ms_isEmpty_def split: list.splits)
qed

lemma msc_assign_items:
  "msc_items (msc_assign k v is) = (msc_items is)[k := v]" "length (msc_assign k v is) = length is"
  by (induction k v "is" rule: msc_assign.induct) (auto split: nat.splits simp: list_update_code)

lemma ms_assign_items:
  "ms_items (ms_assign k v m) = (ms_items m)[k := v]" "map fst (ms_assign k v m) = map fst m"
  "map (length \<circ> snd) (ms_assign k v m) = map (length \<circ> snd) m"
  by (induction k v m rule: ms_assign.induct) (auto simp: msc_assign_items list_update_append Let_def)

section \<open>Memory and the abstract multiset\<close>

text \<open>Chunks have distinct blocks, the right number of slots, and none of them is empty.\<close>

definition ms_inv :: "ms_type \<Rightarrow> 'a ms_chunks \<Rightarrow> bool" where
  "ms_inv T m \<longleftrightarrow> distinct (map fst m) \<and> (\<forall>p \<in> set m. length (snd p) = ms_NumItems T \<and> msc_items (snd p) \<noteq> [])"

definition ms_others :: "('s \<Rightarrow> addr set) \<Rightarrow> 's \<Rightarrow> 'a ms_chunks \<Rightarrow> addr set" where
  "ms_others live s m = live s - fst ` set m"

lemma all_lengths:
  assumes "map (length \<circ> snd) m' = map (length \<circ> snd) m"
  shows "(\<forall>p \<in> set m'. length (snd p) = n) = (\<forall>p \<in> set m. length (snd p) = n)"
proof -
  have "(\<forall>p \<in> set m'. length (snd p) = n) = (\<forall>k \<in> set (map (length \<circ> snd) m'). k = n)" by auto
  also have "\<dots> = (\<forall>p \<in> set m. length (snd p) = n)" unfolding assms by auto
  finally show ?thesis .
qed

lemma ms_fill_nonempty:
  "ms_fill x m = Some m' \<Longrightarrow> \<forall>p \<in> set m. msc_items (snd p) \<noteq> [] \<Longrightarrow> \<forall>p \<in> set m'. msc_items (snd p) \<noteq> []"
proof (induction x m arbitrary: m' rule: ms_fill.induct)
  case (2 x p ps)
  show ?case
  proof (cases "msc_fill x (snd p)")
    case None
    then obtain z where z: "ms_fill x ps = Some z" "m' = p # z" using 2(2) by auto
    then have "\<forall>p \<in> set z. msc_items (snd p) \<noteq> []" using 2(1) [OF None z(1)] 2(3) by simp
    then show ?thesis using z(2) 2(3) by simp
  next
    case (Some js)
    then have "msc_items js \<noteq> []" using msc_fill_items [OF Some] by auto
    then show ?thesis using 2(2,3) Some by auto
  qed
qed simp

context pool_allocator
begin

definition ms_ok :: "ms_type \<Rightarrow> 's \<Rightarrow> 'a ms_chunks \<Rightarrow> bool" where
  "ms_ok T s m \<longleftrightarrow> 0 < ms_NumItems T \<and> inv s \<and> ms_inv T m \<and> fst ` set m \<subseteq> live s"

lemma ms_emplace_spec:
  assumes "ms_ok T s m" and "ms_emplace A T x (s, m) = (ok, s', m')"
  shows "ms_ok T s' m' \<and> ms_others live s' m' = ms_others live s m \<and>
    mset (ms_items m') = (if ok then add_mset x (mset (ms_items m)) else mset (ms_items m))"
proof (cases "ms_fill x m")
  case (Some n)
  then have out: "ok" "s' = s" "m' = n" using assms(2) by (auto simp: ms_emplace_def)
  note f = ms_fill_items [OF Some]
  have "fst ` set n = fst ` set m" using f by (metis set_map)
  then show ?thesis
    using out f assms(1) ms_fill_nonempty [OF Some] all_lengths [of n m "ms_NumItems T"]
    by (auto simp: ms_ok_def ms_inv_def ms_others_def)
next
  case None
  obtain r s1 where al: "op_allocate A s (ms_sizeof T) = (r, s1)" by fastforce
  have i: "inv s" using assms(1) by (simp add: ms_ok_def)
  show ?thesis
  proof (cases r)
    case None
    then have out: "\<not> ok" "s' = s1" "m' = m" using assms(2) \<open>ms_fill x m = None\<close> al by (auto simp: ms_emplace_def msc_instantiate_def)
    then show ?thesis using allocate_none [OF i] al None assms(1) by (auto simp: ms_ok_def ms_others_def)
  next
    case (Some a)
    then have out: "ok" "s' = s1" "m' = (a, (replicate (ms_NumItems T) None)[0 := Some x]) # m"
      using assms(2) \<open>ms_fill x m = None\<close> al by (auto simp: ms_emplace_def msc_instantiate_def)
    have fresh: "inv s1" "a \<notin> live s" "live s1 = insert a (live s)" using allocate_some [OF i] al Some by auto
    obtain k where "ms_NumItems T = Suc k" using assms(1) by (auto simp: ms_ok_def gr0_conv_Suc)
    then have new: "msc_items ((replicate (ms_NumItems T) None)[0 := Some x]) = [x]" by simp
    then show ?thesis using out fresh assms(1) by (auto simp: ms_ok_def ms_inv_def ms_others_def)
  qed
qed

lemma ms_removeWhere_spec:
  assumes "ms_ok T s m" and "ms_removeWhere A P st (s, m) = (s', m')"
  shows "ms_ok T s' m' \<and> ms_others live s' m' = ms_others live s m \<and>
    ms_items m' = (if st = RemoveOne then remove_first P (ms_items m) else filter (\<lambda>x. \<not> P x) (ms_items m))"
proof -
  obtain n m1 where sw: "ms_sweep st P 0 m = (n, m1)" by fastforce
  note w = ms_sweep_items [OF sw]
  have m1: "distinct (map fst m1)" "\<forall>p \<in> set m1. length (snd p) = ms_NumItems T" "fst ` set m1 = fst ` set m"
  proof -
    have a: "map fst m1 = map fst m" "map (length \<circ> snd) m1 = map (length \<circ> snd) m" using w by blast+
    show "distinct (map fst m1)" using a(1) assms(1) by (simp add: ms_ok_def ms_inv_def)
    show "\<forall>p \<in> set m1. length (snd p) = ms_NumItems T"
      using all_lengths [OF a(2), of "ms_NumItems T"] assms(1) by (simp add: ms_ok_def ms_inv_def)
    show "fst ` set m1 = fst ` set m" using a(1) by (metis set_map)
  qed
  have items: "ms_items m1 = (if st = RemoveOne then remove_first P (ms_items m) else filter (\<lambda>x. \<not> P x) (ms_items m))"
    using w by (cases st) auto
  show ?thesis
  proof (cases "n > 0")
    case False
    then have "\<forall>x \<in> set (ms_items m). \<not> P x" using w by (cases st) (auto split: if_splits simp: filter_empty_conv)
    then have "ms_items m1 = ms_items m" using items by (simp add: remove_first_none)
    then have m: "m1 = m"
      using sw False
    proof -
      have "msc_sweep st P is = (0, is)" if "\<forall>x \<in> set (msc_items is). \<not> P x" for "is"
        using that
      proof (induction "is")
        case (Cons i "is")
        then show ?case by (cases i) simp_all
      qed simp
      then have "ms_sweep st P 0 m = (0, m)" if "\<forall>x \<in> set (ms_items m). \<not> P x" for m
        using that by (induction m) auto
      then show ?thesis using sw \<open>\<forall>x \<in> set (ms_items m). \<not> P x\<close> by simp
    qed
    then have "s' = s" "m' = m" using assms(2) sw False by (auto simp: ms_removeWhere_def)
    then show ?thesis using assms(1) items m by simp
  next
    case True
    let ?e = "\<lambda>p. msc_items (snd p) = []"
    have out: "s' = deallocate_all A s (map fst (filter ?e m1))" "m' = filter (\<lambda>p. \<not> ?e p) m1"
      using assms(2) sw True by (auto simp: ms_removeWhere_def ms_compact_eq)
    have sub: "distinct (map fst (filter ?e m1))" "set (map fst (filter ?e m1)) \<subseteq> live s"
      using m1 assms(1) by (auto simp: ms_ok_def distinct_map_filter)
    have l: "inv s'" "live s' = live s - fst ` set (filter ?e m1)"
      using deallocate_all_live [OF _ sub] assms(1) out(1) by (simp_all add: ms_ok_def)
    have part: "fst ` set (filter ?e m1) \<inter> fst ` set m' = {}" "fst ` set (filter ?e m1) \<union> fst ` set m' = fst ` set m"
      using m1(1) unfolding out(2) m1(3) [symmetric] by (auto simp: distinct_map inj_on_def)
    have "ms_inv T m'" using m1(1,2) unfolding out(2) ms_inv_def by (auto simp: distinct_map_filter)
    moreover have "fst ` set m' \<subseteq> live s'" "ms_others live s' m' = ms_others live s m"
    proof -
      have "fst ` set m \<subseteq> live s" using assms(1) by (simp add: ms_ok_def)
      then show "fst ` set m' \<subseteq> live s'" "ms_others live s' m' = ms_others live s m"
        using part unfolding ms_others_def l(2) by blast+
    qed
    ultimately show ?thesis using l(1) assms(1) items ms_items_filter [of m1] out(2) by (simp add: ms_ok_def)
  qed
qed

end

lemma mset_remove_first: "mset (remove_first (\<lambda>y. x = y) xs) = mset xs - {#x#}"
proof (induction xs)
  case (Cons y ys)
  then show ?case using diff_union_swap [of x y "mset ys"] by (cases "x = y") simp_all
qed simp

text \<open>
  C16.  \<^verbatim>\<open>Multiset\<close> over the memory pool implements a multiset: \<^verbatim>\<open>emplace\<close> adds the item or, without memory,
  changes nothing; \<^verbatim>\<open>removeFirst\<close> removes one occurrence, \<^verbatim>\<open>removeAll\<close> all of them, \<^verbatim>\<open>clear\<close> everything;
  the invariants survive, no chunk stays without items, and no block of another user of the pool is touched.
\<close>

theorem multiset_refines_mset:
  assumes "pool.ms_ok T p m" and "ms_emplace pool_ops T x (p, m) = (ok, p1, m1)"
    and "ms_removeFirst pool_ops x (p, m) = (p2, m2)" and "ms_removeAll pool_ops x (p, m) = (p3, m3)"
    and "ms_clear pool_ops (p, m) = (p4, m4)"
  shows "pool.ms_ok T p1 m1 \<and> mset (ms_items m1) = (if ok then add_mset x (mset (ms_items m)) else mset (ms_items m)) \<and>
    pool.ms_ok T p2 m2 \<and> mset (ms_items m2) = mset (ms_items m) - {#x#} \<and>
    pool.ms_ok T p3 m3 \<and> mset (ms_items m3) = filter_mset (\<lambda>y. y \<noteq> x) (mset (ms_items m)) \<and>
    m4 = [] \<and> ms_getSize m = size (mset (ms_items m)) \<and>
    (\<forall>(q, n) \<in> {(p1, m1), (p2, m2), (p3, m3), (p4, m4)}. ms_others pool_live q n = ms_others pool_live p m)"
proof -
  note e = pool.ms_emplace_spec [OF assms(1,2)]
    and r = pool.ms_removeWhere_spec [OF assms(1)]
  note r2 = r [OF assms(3) [unfolded ms_removeFirst_def]] and r3 = r [OF assms(4) [unfolded ms_removeAll_def]]
    and r4 = r [OF assms(5) [unfolded ms_clear_def]]
  have "m4 = []"
  proof (cases m4)
    case (Cons c cs)
    then have "msc_items (snd c) \<noteq> []" using r4 by (auto simp: pool.ms_ok_def ms_inv_def)
    then show ?thesis using r4 Cons by simp
  qed
  moreover have "filter (\<lambda>y. x \<noteq> y) xs = filter (\<lambda>y. y \<noteq> x) xs" for xs by (rule filter_cong) auto
  ultimately show ?thesis using e r2 r3 r4 by (simp add: mset_remove_first)
qed

definition example_ms_type :: ms_type where
  "example_ms_type = \<lparr>ms_NumItems = 2, ms_sizeof = 40\<rparr>"

theorem multiset_refines_mset_witness:
  "let (ok, p, m) = ms_emplace pool_ops example_ms_type (7 :: nat) (PoolAllocator 128 64, [])
   in ok \<and> mset (ms_items m) = {#7#}"
proof -
  let ?p = "PoolAllocator 128 64" and ?m = "[] :: nat ms_chunks"
  obtain ok p1 m1 where e: "ms_emplace pool_ops example_ms_type (7 :: nat) (?p, ?m) = (ok, p1, m1)" by (metis prod_cases3)
  obtain p2 m2 where r: "ms_removeFirst pool_ops 7 (?p, ?m) = (p2, m2)" by fastforce
  obtain p3 m3 where a: "ms_removeAll pool_ops 7 (?p, ?m) = (p3, m3)" by fastforce
  obtain p4 m4 where c: "ms_clear pool_ops (?p, ?m) = (p4, m4)" by fastforce
  have i: "pool.ms_ok example_ms_type ?p ?m"
    using PoolAllocator_fresh [of 128 64] by (simp add: pool.ms_ok_def ms_inv_def example_ms_type_def)
  have "ok" using e by (auto simp: ms_emplace_def msc_instantiate_def example_ms_type_def pool_allocate_def PoolAllocator_def Let_def)
  then show ?thesis using multiset_refines_mset [OF i e r a c] e by simp
qed

end
