(* ===== verification/AcceptanceFilters.thy ===== *)
theory AcceptanceFilters
  imports Multisets Dispatchers
begin

text \<open>
  \<^verbatim>\<open>CanAcceptanceFilterConfigurator\<close> (include/uavcan/transport/can_acceptance_filter_configurator.hpp,
  src/transport/uc_can_acceptance_filter_configurator.cpp).  The hardware filters of the driver are a
  parameter.
\<close>

unbundle bit_operations_syntax

section \<open>Definitions\<close>

record 'd filter_driver =
  fd_hasIface :: "'d \<Rightarrow> nat \<Rightarrow> bool"
  fd_getNumFilters :: "'d \<Rightarrow> nat \<Rightarrow> u16"
  fd_configureFilters :: "nat \<Rightarrow> can_filter_config list \<Rightarrow> 'd \<Rightarrow> int \<times> 'd"

datatype anonymous_messages = AcceptAnonymousMessages | IgnoreAnonymousMessages

definition DefaultFilterMsgMask :: u32 where
  "DefaultFilterMsgMask = 0xFFFF80"

definition DefaultFilterServiceMask :: u32 where
  "DefaultFilterServiceMask = 0x7F80"

definition DefaultFilterServiceID :: u32 where
  "DefaultFilterServiceID = 0x80"

definition DefaultAnonMsgMask :: u32 where
  "DefaultAnonMsgMask = 0xFF"

definition DefaultAnonMsgID :: u32 where
  "DefaultAnonMsgID = 0"

definition MaxCanAcceptanceFilters :: nat where
  "MaxCanAcceptanceFilters = 32"

text \<open>An item takes 16 bytes, so that three of them fit into a block next to the link of the list.\<close>

definition filter_ms_type :: ms_type where
  "filter_ms_type = \<lparr>ms_NumItems = 3, ms_sizeof = 56\<rparr>"

definition acf_mergeFilters :: "can_filter_config \<Rightarrow> can_filter_config \<Rightarrow> can_filter_config" where
  "acf_mergeFilters a b =
    (let m = fc_mask a AND fc_mask b AND NOT (fc_id a XOR fc_id b)
     in \<lparr>fc_id = fc_id a AND m, fc_mask = m\<rparr>)"

lemma word_clear_lowest: "n \<noteq> 0 \<Longrightarrow> unat (n AND (n - 1)) < unat (n :: u32)"
proof -
  assume n: "n \<noteq> 0"
  then have "0 < unat n" by (simp add: unat_gt_0)
  with n have "unat (n - 1) < unat n" by (simp add: unat_minus_one)
  moreover have "unat (n AND (n - 1)) \<le> unat (n - 1)" by (simp add: word_and_le1 flip: word_le_nat_alt)
  ultimately show ?thesis by linarith
qed

function acf_countBits_loop :: "u32 \<Rightarrow> u8 \<Rightarrow> u8" where
  "acf_countBits_loop n c = (if n \<noteq> 0 then acf_countBits_loop (n AND (n - 1)) (c + 1) else c)"
  by pat_completeness auto

termination
  by (relation "measure (\<lambda>(n, c). unat n)") (simp_all add: word_clear_lowest)

declare acf_countBits_loop.simps [simp del]

definition acf_countBits :: "u32 \<Rightarrow> u8" where
  "acf_countBits n = acf_countBits_loop n 0"

text \<open>The pairs of indices that the two nested loops visit; the inner index starts from an 8-bit value.\<close>

definition acf_pairs :: "nat \<Rightarrow> (nat \<times> nat) list" where
  "acf_pairs sz = concat (map (\<lambda>i. map (\<lambda>j. (i, j)) [(i + 1) mod 256..<sz]) [0..<sz - 1])"

definition acf_rank_step ::
  "can_filter_config ms_chunks \<Rightarrow> u8 \<times> nat \<times> nat \<Rightarrow> nat \<times> nat \<Rightarrow> u8 \<times> nat \<times> nat" where
  "acf_rank_step m best ij =
    (let (best_rank, i_rank, j_rank) = best;
         temp = acf_mergeFilters (the (ms_getByIndex (fst ij) m)) (the (ms_getByIndex (snd ij) m));
         rank = acf_countBits (fc_mask temp)
     in if rank > best_rank then (rank, fst ij, snd ij) else best)"

definition acf_best :: "can_filter_config ms_chunks \<Rightarrow> nat \<times> nat" where
  "acf_best m = snd (foldl (acf_rank_step m) (0, 0, 0) (acf_pairs (ms_getSize m mod 2 ^ 16)))"

definition acf_merge_once ::
  "'s allocator_ops \<Rightarrow> 's \<times> can_filter_config ms_chunks \<Rightarrow> 's \<times> can_filter_config ms_chunks" where
  "acf_merge_once A sm =
    (let (s, m) = sm; (i_rank, j_rank) = acf_best m;
         m = ms_assign j_rank (acf_mergeFilters (the (ms_getByIndex i_rank m)) (the (ms_getByIndex j_rank m))) m
     in ms_removeFirst A (the (ms_getByIndex i_rank m)) (s, m))"

section \<open>The merging loop ends\<close>

lemma ms_removeWhere_items:
  "ms_items (snd (ms_removeWhere A P st (s, m))) =
    (if st = RemoveOne then remove_first P (ms_items m) else filter (\<lambda>x. \<not> P x) (ms_items m))"
proof -
  obtain n m1 where sw: "ms_sweep st P 0 m = (n, m1)" by fastforce
  have "ms_items m1 = (if st = RemoveOne then remove_first P (ms_items m) else filter (\<lambda>x. \<not> P x) (ms_items m))"
    using ms_sweep_items [OF sw] by (cases st) auto
  then show ?thesis using sw by (simp add: ms_removeWhere_def ms_compact_eq ms_items_filter)
qed

lemma length_remove_first: "\<exists>x \<in> set xs. P x \<Longrightarrow> length xs = Suc (length (remove_first P xs))"
  by (induction xs) auto

lemma acf_best_range:
  assumes "0 < ms_getSize m"
  shows "fst (acf_best m) < ms_getSize m"
proof -
  let ?sz = "ms_getSize m mod 2 ^ 16"
  have "fst (snd (foldl (acf_rank_step m) b ps)) < ms_getSize m"
    if "fst (snd b) < ms_getSize m" "\<forall>p \<in> set ps. fst p < ms_getSize m" for b ps
    using that by (induction ps arbitrary: b) (auto simp: acf_rank_step_def Let_def split: prod.splits)
  moreover have "?sz \<le> ms_getSize m" by simp
  then have "\<forall>p \<in> set (acf_pairs ?sz). fst p < ms_getSize m" by (auto simp: acf_pairs_def simp del: ms_getSize_items)
  ultimately show ?thesis using assms by (simp add: acf_best_def del: ms_getSize_items)
qed

lemma acf_merge_once_items:
  assumes "0 < ms_getSize m" and "acf_best m = (i, j)"
  shows "ms_items (snd (acf_merge_once A (s, m))) =
    (let xs = (ms_items m)[j := acf_mergeFilters (ms_items m ! i) (the (ms_getByIndex j m))]
     in remove_first (\<lambda>x. xs ! i = x) xs)"
  using assms acf_best_range [OF assms(1)]
  by (simp add: acf_merge_once_def ms_removeFirst_def ms_removeWhere_items ms_assign_items Let_def)

lemma acf_merge_once_size:
  assumes "0 < ms_getSize m"
  shows "ms_getSize m = Suc (ms_getSize (snd (acf_merge_once A (s, m))))"
proof -
  obtain i j where b: "acf_best m = (i, j)" by fastforce
  let ?xs = "(ms_items m)[j := acf_mergeFilters (ms_items m ! i) (the (ms_getByIndex j m))]"
  have "i < length ?xs" using acf_best_range [OF assms] b by simp
  then have "\<exists>x \<in> set ?xs. ?xs ! i = x" by (metis nth_mem)
  from length_remove_first [OF this] show ?thesis
    using acf_merge_once_items [OF assms b, of A s] by (simp add: Let_def)
qed

function acf_merge_loop ::
  "'s allocator_ops \<Rightarrow> u16 \<Rightarrow> 's \<times> can_filter_config ms_chunks \<Rightarrow> 's \<times> can_filter_config ms_chunks" where
  "acf_merge_loop A n sm =
    (if unat n < ms_getSize (snd sm) then acf_merge_loop A n (acf_merge_once A sm) else sm)"
  by pat_completeness auto

termination
proof (relation "measure (\<lambda>(A, n, sm). ms_getSize (snd sm))", simp)
  fix A :: "'s allocator_ops" and n :: u16 and sm :: "'s \<times> can_filter_config ms_chunks"
  assume a: "unat n < ms_getSize (snd sm)"
  obtain s m where sm: "sm = (s, m)" by fastforce
  show "((A, n, acf_merge_once A sm), A, n, sm) \<in> measure (\<lambda>(A, n, sm). ms_getSize (snd sm))"
    using acf_merge_once_size [of m A s] a unfolding sm by (simp del: ms_getSize_items)
qed

declare acf_merge_loop.simps [simp del]

section \<open>The configurator\<close>

fun acf_iface_loop :: "'d filter_driver \<Rightarrow> 'd \<Rightarrow> nat list \<Rightarrow> u16 \<Rightarrow> u16" where
  "acf_iface_loop D d [] out = out"
| "acf_iface_loop D d (i # is) out =
    (if \<not> fd_hasIface D d i then 0
     else
       (let out = min out (fd_getNumFilters D d i)
        in acf_iface_loop D d is (if unat out > MaxCanAcceptanceFilters then word_of_nat MaxCanAcceptanceFilters else out)))"

definition acf_getNumFilters :: "'d filter_driver \<Rightarrow> u16 \<Rightarrow> dispatcher \<Rightarrow> 'd \<Rightarrow> u16" where
  "acf_getNumFilters D filters_number x d =
    (if filters_number = 0 then
       (let out = acf_iface_loop D d [0..<unat (cio_num_ifaces (dsp_canio x))] 0xFFFF
        in if out = 0xFFFF then 0 else out)
     else filters_number)"

definition acf_flags :: u32 where
  "acf_flags = FlagEFF OR FlagRTR OR FlagERR"

definition acf_anon_cfg :: can_filter_config where
  "acf_anon_cfg = \<lparr>fc_id = DefaultAnonMsgID OR FlagEFF, fc_mask = DefaultAnonMsgMask OR acf_flags\<rparr>"

definition acf_service_cfg :: "node_id \<Rightarrow> can_filter_config" where
  "acf_service_cfg nid =
    \<lparr>fc_id = DefaultFilterServiceID OR (push_bit 8 (ucast nid) OR FlagEFF), fc_mask = DefaultFilterServiceMask OR acf_flags\<rparr>"

definition acf_msg_cfg :: "data_type_id \<Rightarrow> can_filter_config" where
  "acf_msg_cfg dtid =
    \<lparr>fc_id = push_bit 8 (ucast (data_type_id_get dtid)) OR FlagEFF, fc_mask = DefaultFilterMsgMask OR acf_flags\<rparr>"

fun acf_load_listeners ::
  "'s allocator_ops \<Rightarrow> data_type_id list \<Rightarrow> 's \<times> can_filter_config ms_chunks \<Rightarrow>
    bool \<times> 's \<times> can_filter_config ms_chunks" where
  "acf_load_listeners A [] sm = (True, sm)"
| "acf_load_listeners A (p # ps) sm =
    (let (ok, sm) = ms_emplace A filter_ms_type (acf_msg_cfg p) sm
     in if ok then acf_load_listeners A ps sm else (False, sm))"

definition acf_loadInputConfiguration ::
  "'s allocator_ops \<Rightarrow> dispatcher \<Rightarrow> anonymous_messages \<Rightarrow> 's \<times> can_filter_config ms_chunks \<Rightarrow>
    uavcan_error option \<times> 's \<times> can_filter_config ms_chunks" where
  "acf_loadInputConfiguration A x load_mode sm =
    (let sm = ms_clear A sm;
         (ok, sm) = (if load_mode = AcceptAnonymousMessages then ms_emplace A filter_ms_type acf_anon_cfg sm else (True, sm))
     in if \<not> ok then (Some ErrMemory, sm)
        else
          (let (ok, sm) = ms_emplace A filter_ms_type (acf_service_cfg (dsp_self_node_id x)) sm
           in if \<not> ok then (Some ErrMemory, sm)
              else
                (let (ok, sm) = acf_load_listeners A (map ln_id (dsp_lmsg x)) sm
                 in if \<not> ok then (Some ErrMemory, sm)
                    else if ms_getSize (snd sm) = 0 then (Some ErrLogic, sm) else (None, sm))))"

definition acf_mergeConfigurations ::
  "'d filter_driver \<Rightarrow> 's allocator_ops \<Rightarrow> u16 \<Rightarrow> dispatcher \<Rightarrow> 'd \<Rightarrow> 's \<times> can_filter_config ms_chunks \<Rightarrow>
    uavcan_error option \<times> 's \<times> can_filter_config ms_chunks" where
  "acf_mergeConfigurations D A filters_number x d sm =
    (let acceptance_filters_number = acf_getNumFilters D filters_number x d
     in if acceptance_filters_number = 0 then (Some ErrDriver, sm)
        else (None, acf_merge_loop A acceptance_filters_number sm))"

definition acf_computeConfiguration ::
  "'d filter_driver \<Rightarrow> 's allocator_ops \<Rightarrow> u16 \<Rightarrow> dispatcher \<Rightarrow> anonymous_messages \<Rightarrow> 'd \<Rightarrow>
    's \<times> can_filter_config ms_chunks \<Rightarrow> uavcan_error option \<times> 's \<times> can_filter_config ms_chunks" where
  "acf_computeConfiguration D A filters_number x mode d sm =
    (if acf_getNumFilters D filters_number x d = 0 then (Some ErrDriver, sm)
     else
       (case acf_loadInputConfiguration A x mode sm of
          (Some e, sm) \<Rightarrow> (Some e, sm)
        | (None, sm) \<Rightarrow> acf_mergeConfigurations D A filters_number x d sm))"

definition acf_addFilterConfig ::
  "'s allocator_ops \<Rightarrow> can_filter_config \<Rightarrow> 's \<times> can_filter_config ms_chunks \<Rightarrow>
    uavcan_error option \<times> 's \<times> can_filter_config ms_chunks" where
  "acf_addFilterConfig A config sm =
    (let (ok, sm) = ms_emplace A filter_ms_type config sm in (if ok then None else Some ErrMemory, sm))"

fun acf_apply_loop :: "'d filter_driver \<Rightarrow> can_filter_config list \<Rightarrow> nat list \<Rightarrow> 'd \<Rightarrow> uavcan_error option \<times> 'd" where
  "acf_apply_loop D cfgs [] d = (None, d)"
| "acf_apply_loop D cfgs (i # is) d =
    (if \<not> fd_hasIface D d i then (Some ErrDriver, d)
     else (let (num, d) = fd_configureFilters D i cfgs d
           in if num < 0 then (Some ErrDriver, d) else acf_apply_loop D cfgs is d))"

definition acf_applyConfiguration ::
  "'d filter_driver \<Rightarrow> 's allocator_ops \<Rightarrow> u16 \<Rightarrow> dispatcher \<Rightarrow> 'd \<times> 's \<times> can_filter_config ms_chunks \<Rightarrow>
    uavcan_error option \<times> 'd \<times> 's \<times> can_filter_config ms_chunks" where
  "acf_applyConfiguration D A filters_number x dsm =
    (let (d, sm) = dsm; acceptance_filters_number = acf_getNumFilters D filters_number x d
     in if acceptance_filters_number = 0 then (Some ErrDriver, d, sm)
        else
          (let sm = (if ms_getSize (snd sm) > unat acceptance_filters_number
                     then snd (acf_mergeConfigurations D A filters_number x d sm) else sm);
               filter_array_size = ms_getSize (snd sm)
           in if filter_array_size > MaxCanAcceptanceFilters then (Some ErrLogic, d, sm)
              else
                (let (r, d) = acf_apply_loop D (map (\<lambda>i. the (ms_getByIndex i (snd sm))) [0..<filter_array_size])
                                [0..<unat (cio_num_ifaces (dsp_canio x))] d
                 in (r, d, sm))))"

definition configureCanAcceptanceFilters ::
  "'d filter_driver \<Rightarrow> 's allocator_ops \<Rightarrow> dispatcher \<Rightarrow> anonymous_messages \<Rightarrow> 'd \<times> 's \<Rightarrow>
    uavcan_error option \<times> 'd \<times> 's" where
  "configureCanAcceptanceFilters D A x mode ds =
    (let (d, s) = ds
     in case acf_computeConfiguration D A 0 x mode d (s, []) of
          (Some e, sm) \<Rightarrow> (Some e, d, fst (ms_clear A sm))
        | (None, sm) \<Rightarrow>
            (let (r, d, sm) = acf_applyConfiguration D A 0 x (d, sm) in (r, d, fst (ms_clear A sm))))"

section \<open>Merging keeps what is accepted\<close>

text \<open>A hardware filter accepts a frame when the identifiers agree on the bits of the mask.\<close>

definition acf_accepts :: "can_filter_config \<Rightarrow> u32 \<Rightarrow> bool" where
  "acf_accepts c can_id \<longleftrightarrow> can_id AND fc_mask c = fc_id c AND fc_mask c"

definition acf_accepted :: "can_filter_config list \<Rightarrow> u32 set" where
  "acf_accepted cs = {can_id. \<exists>c \<in> set cs. acf_accepts c can_id}"

text \<open>Every configuration selects extended frames.\<close>

definition acf_extended :: "can_filter_config list \<Rightarrow> bool" where
  "acf_extended cs \<longleftrightarrow> (\<forall>c \<in> set cs. bit (fc_mask c) 31 \<and> bit (fc_id c) 31)"

lemma acf_accepts_bits: "acf_accepts c x \<longleftrightarrow> (\<forall>n. bit (fc_mask c) n \<longrightarrow> bit x n = bit (fc_id c) n)"
  using bit_imp_le_length [of "fc_mask c"] unfolding acf_accepts_def bit_eq_iff bit_and_iff by auto

lemma mergeFilters_accepts: "acf_accepts a x \<or> acf_accepts b x \<Longrightarrow> acf_accepts (acf_mergeFilters a b) x"
  by (auto simp: acf_accepts_bits acf_mergeFilters_def Let_def bit_simps)

lemma mergeFilters_extended:
  "bit (fc_mask a) 31 \<Longrightarrow> bit (fc_id a) 31 \<Longrightarrow> bit (fc_mask b) 31 \<Longrightarrow> bit (fc_id b) 31 \<Longrightarrow>
    bit (fc_mask (acf_mergeFilters a b)) 31 \<and> bit (fc_id (acf_mergeFilters a b)) 31"
  by (auto simp: acf_mergeFilters_def Let_def bit_simps)

lemma card_bits_clear_lowest:
  assumes "n \<noteq> 0"
  shows "Suc (card {i. bit (n AND (n - 1)) i}) = card {i. bit (n :: u32) i}"
proof -
  obtain k where k: "bit n k" "\<And>i. i < k \<Longrightarrow> \<not> bit n i"
    using assms exists_least_iff [of "bit n"] by (metis bit_eqI bit_0_eq bot_apply bot_bool_def)
  have k32: "k < 32" using k(1) bit_imp_le_length by fastforce
  have "bit (n - 1) i \<longleftrightarrow> (if i < k then True else if i = k then False else bit n i)" if "i < 32" for i
  proof -
    have m: "n - 1 = (n XOR push_bit k 1) OR mask k"
    proof -
      have "(n XOR push_bit k 1) + push_bit k 1 = (n XOR push_bit k 1) OR push_bit k 1"
        by (rule disjunctive_add) (use k in \<open>auto simp: bit_simps\<close>)
      also have "\<dots> = n" by (rule bit_word_eqI) (use k in \<open>auto simp: bit_simps\<close>)
      finally have "n - 1 = (n XOR push_bit k 1) + mask k" by (simp add: mask_eq_exp_minus_1 algebra_simps push_bit_eq_mult)
      also have "\<dots> = (n XOR push_bit k 1) OR mask k"
        by (rule disjunctive_add) (use k in \<open>auto simp: bit_simps\<close>)
      finally show ?thesis .
    qed
    show ?thesis unfolding m using k that by (auto simp: bit_simps)
  qed
  then have "{i. bit (n AND (n - 1)) i} = {i. bit n i} - {k}"
    using k bit_imp_le_length [of n] by (auto simp: bit_and_iff)
  moreover have "finite {i. bit n i}" by (rule finite_subset [of _ "{..<32}"]) (use bit_imp_le_length [of n] in auto)
  ultimately show ?thesis using k(1) by (metis card_Suc_Diff1 mem_Collect_eq)
qed

text \<open>\<^verbatim>\<open>countBits\<close> counts the bits that are set.\<close>

lemma acf_countBits_loop_card: "acf_countBits_loop n c = c + word_of_nat (card {i. bit n i})"
proof (induction n c rule: acf_countBits_loop.induct)
  case (1 n c)
  show ?case
  proof (cases "n = 0")
    case False
    then show ?thesis using 1 card_bits_clear_lowest [OF False]
      by (subst acf_countBits_loop.simps) (metis (no_types) add.assoc add.commute of_nat_Suc)
  qed (simp add: acf_countBits_loop.simps)
qed

lemma acf_countBits_card: "unat (acf_countBits n) = card {i. bit n i}"
proof -
  have "{i. bit n i} \<subseteq> {..<32}" using bit_imp_le_length [of n] by auto
  then have "card {i. bit n i} \<le> 32" using card_mono [of "{..<32 :: nat}"] by fastforce
  then show ?thesis by (simp add: acf_countBits_def acf_countBits_loop_card unat_of_nat)
qed

lemma acf_countBits_pos: "bit n k \<Longrightarrow> 0 < acf_countBits n"
proof -
  assume b: "bit n k"
  have "finite {i. bit n i}" by (rule finite_subset [of _ "{..<32}"]) (use bit_imp_le_length [of n] in auto)
  then have "0 < card {i. bit n i}" using b by (auto simp: card_gt_0_iff)
  then show ?thesis by (simp add: word_less_nat_alt acf_countBits_card)
qed

definition acf_rank :: "can_filter_config list \<Rightarrow> nat \<times> nat \<Rightarrow> u8" where
  "acf_rank cs ij = acf_countBits (fc_mask (acf_mergeFilters (cs ! fst ij) (cs ! snd ij)))"

lemma acf_rank_fold:
  assumes "\<forall>p \<in> set ps. fst p < length (ms_items m) \<and> snd p < length (ms_items m)"
  shows "let r = foldl (acf_rank_step m) b ps
    in fst b \<le> fst r \<and> (\<forall>p \<in> set ps. acf_rank (ms_items m) p \<le> fst r) \<and>
       (r = b \<or> snd r \<in> set ps \<and> fst r = acf_rank (ms_items m) (snd r))"
  using assms
proof (induction ps arbitrary: b)
  case (Cons p ps)
  let ?b = "acf_rank_step m b p"
  have p: "fst p < length (ms_items m)" "snd p < length (ms_items m)" using Cons.prems by auto
  have step: "?b = (if fst b < acf_rank (ms_items m) p then (acf_rank (ms_items m) p, p) else b)"
    using p by (cases b) (simp add: acf_rank_step_def acf_rank_def Let_def)
  have "let r = foldl (acf_rank_step m) ?b ps
    in fst ?b \<le> fst r \<and> (\<forall>p \<in> set ps. acf_rank (ms_items m) p \<le> fst r) \<and>
       (r = ?b \<or> snd r \<in> set ps \<and> fst r = acf_rank (ms_items m) (snd r))"
    by (rule Cons.IH) (use Cons.prems in simp)
  then show ?case by (auto simp: step Let_def split: if_splits)
qed simp

lemma acf_pairs_set:
  assumes "sz \<le> 256"
  shows "set (acf_pairs sz) = {(i, j). i < j \<and> j < sz}"
proof -
  have "(i + 1) mod 256 = i + 1" if "i < sz - 1" for i using that assms by (intro mod_less) linarith
  then show ?thesis by (auto simp: acf_pairs_def image_iff intro!: bexI)
qed

text \<open>The pair that is merged is a proper one, and no other keeps more bits of the masks.\<close>

lemma acf_best_pair:
  assumes "2 \<le> length (ms_items m)" "length (ms_items m) \<le> 256" and "acf_extended (ms_items m)"
    and "acf_best m = (i, j)"
  shows "i < j \<and> j < length (ms_items m) \<and>
    (\<forall>k l. k < l \<longrightarrow> l < length (ms_items m) \<longrightarrow> acf_rank (ms_items m) (k, l) \<le> acf_rank (ms_items m) (i, j))"
proof -
  let ?n = "length (ms_items m)" and ?ps = "acf_pairs (length (ms_items m))"
  let ?r = "foldl (acf_rank_step m) (0, 0, 0) ?ps"
  have sz: "?n mod 2 ^ 16 = ?n" using assms(2) by simp
  have ps: "set ?ps = {(i, j). i < j \<and> j < ?n}" by (rule acf_pairs_set [OF assms(2)])
  have r: "\<forall>p \<in> set ?ps. acf_rank (ms_items m) p \<le> fst ?r"
      "?r = (0, 0, 0) \<or> snd ?r \<in> set ?ps \<and> fst ?r = acf_rank (ms_items m) (snd ?r)"
    using acf_rank_fold [of ?ps m "(0, 0, 0)"] by (auto simp: ps Let_def)
  have ij: "snd ?r = (i, j)" using assms(4) sz by (simp add: acf_best_def)
  have "(0, 1) \<in> set ?ps" using assms(1) by (simp add: ps)
  moreover have "0 < acf_rank (ms_items m) (0, 1)"
  proof -
    have "ms_items m ! 0 \<in> set (ms_items m)" "ms_items m ! 1 \<in> set (ms_items m)" using assms(1) by (auto intro: nth_mem)
    then have "bit (fc_mask (acf_mergeFilters (ms_items m ! 0) (ms_items m ! 1))) 31"
      using assms(3) mergeFilters_extended [of "ms_items m ! 0" "ms_items m ! 1"] by (auto simp: acf_extended_def)
    then show ?thesis by (auto simp: acf_rank_def dest: acf_countBits_pos)
  qed
  ultimately have "?r \<noteq> (0, 0, 0)" using r(1) by fastforce
  then show ?thesis using r ij by (auto simp: ps)
qed

lemma in_remove_first_nth:
  assumes "i < length xs" "k < length xs" "k \<noteq> i"
  shows "xs ! k \<in> set (remove_first (\<lambda>x. xs ! i = x) xs)"
proof -
  have "mset xs = add_mset (xs ! i) (mset (take i xs @ drop (Suc i) xs))"
    by (subst id_take_nth_drop [OF assms(1)]) simp
  then have m: "mset (remove_first (\<lambda>x. xs ! i = x) xs) = mset (take i xs @ drop (Suc i) xs)"
    by (simp add: mset_remove_first)
  have "xs ! k \<in> set (take i xs @ drop (Suc i) xs)"
  proof (cases "k < i")
    case True
    then have "take i xs ! k \<in> set (take i xs)" using assms by (intro nth_mem) simp
    then show ?thesis using True by simp
  next
    case False
    then have "drop (Suc i) xs ! (k - Suc i) \<in> set (drop (Suc i) xs)" using assms by (intro nth_mem) simp
    then show ?thesis using False assms by simp
  qed
  then show ?thesis using mset_eq_setD [OF m] by simp
qed

lemma set_remove_first: "set (remove_first P xs) \<subseteq> set xs"
  by (induction xs) auto

lemma acf_merge_once_keeps:
  assumes "2 \<le> length (ms_items m)" "length (ms_items m) \<le> 256" and ext: "acf_extended (ms_items m)"
  shows "acf_accepted (ms_items m) \<subseteq> acf_accepted (ms_items (snd (acf_merge_once A (s, m)))) \<and>
    acf_extended (ms_items (snd (acf_merge_once A (s, m))))"
proof -
  let ?cs = "ms_items m"
  obtain i j where b: "acf_best m = (i, j)" by fastforce
  have ij: "i < j" "j < length ?cs" using acf_best_pair [OF assms b] by auto
  let ?g = "acf_mergeFilters (?cs ! i) (?cs ! j)"
  let ?xs = "?cs[j := ?g]"
  have new: "ms_items (snd (acf_merge_once A (s, m))) = remove_first (\<lambda>x. ?xs ! i = x) ?xs"
  proof -
    have "0 < ms_getSize m" using ij by (simp add: length_greater_0_conv [symmetric] del: length_greater_0_conv)
    from acf_merge_once_items [OF this b, of A s] show ?thesis using ij by (simp add: Let_def)
  qed
  have g: "?g \<in> set (remove_first (\<lambda>x. ?xs ! i = x) ?xs)"
    using in_remove_first_nth [of i ?xs j] ij by simp
  have "acf_accepts c x \<Longrightarrow> \<exists>c \<in> set (remove_first (\<lambda>x. ?xs ! i = x) ?xs). acf_accepts c x"
    if "c \<in> set ?cs" for c x
  proof -
    assume a: "acf_accepts c x"
    obtain k where k: "k < length ?cs" "c = ?cs ! k" using \<open>c \<in> set ?cs\<close> by (auto simp: in_set_conv_nth)
    show ?thesis
    proof (cases "k = i \<or> k = j")
      case True
      then show ?thesis using a k mergeFilters_accepts [of "?cs ! i" x "?cs ! j"] g by blast
    next
      case False
      then show ?thesis using a k in_remove_first_nth [of i ?xs k] ij by auto
    qed
  qed
  moreover have "acf_extended (remove_first (\<lambda>x. ?xs ! i = x) ?xs)"
  proof -
    have "bit (fc_mask ?g) 31 \<and> bit (fc_id ?g) 31"
      using ext ij by (intro mergeFilters_extended) (auto simp: acf_extended_def)
    then have "acf_extended ?xs" using ext set_update_subset_insert [of ?cs j ?g] by (auto simp: acf_extended_def)
    then show ?thesis using set_remove_first by (fastforce simp: acf_extended_def)
  qed
  ultimately show ?thesis unfolding new by (auto simp: acf_accepted_def)
qed

lemma acf_merge_loop_keeps:
  assumes "0 < n" "length (ms_items (snd sm)) \<le> 256" and "acf_extended (ms_items (snd sm))"
  shows "acf_accepted (ms_items (snd sm)) \<subseteq> acf_accepted (ms_items (snd (acf_merge_loop A n sm))) \<and>
    length (ms_items (snd (acf_merge_loop A n sm))) \<le> unat n"
  using assms
proof (induction A n sm rule: acf_merge_loop.induct)
  case (1 A n sm)
  obtain s m where sm: "sm = (s, m)" by fastforce
  show ?case
  proof (cases "unat n < length (ms_items m)")
    case True
    have "0 < unat n" using 1(2) by (simp add: unat_gt_0)
    then have two: "2 \<le> length (ms_items m)" using True by linarith
    note k = acf_merge_once_keeps [OF two, of A s]
    have "Suc (length (ms_items (snd (acf_merge_once A (s, m))))) = length (ms_items m)"
      using acf_merge_once_size [of m A s] two by (cases "ms_items m = []") auto
    then show ?thesis using 1 True k unfolding sm
      by (subst (1 2) acf_merge_loop.simps) (auto simp: subset_iff)
  next
    case False
    then show ?thesis by (subst (1 2) acf_merge_loop.simps) (simp add: sm)
  qed
qed

section \<open>Loading the configurations of a node\<close>

definition acf_input :: "dispatcher \<Rightarrow> anonymous_messages \<Rightarrow> can_filter_config multiset" where
  "acf_input x mode =
    (if mode = AcceptAnonymousMessages then {#acf_anon_cfg#} else {#}) +
    {#acf_service_cfg (dsp_self_node_id x)#} + mset (map (acf_msg_cfg \<circ> ln_id) (dsp_lmsg x))"

context pool_allocator begin

lemma acf_load_listeners_spec:
  "ms_ok filter_ms_type s m \<Longrightarrow> acf_load_listeners A ps (s, m) = (ok, s', m') \<Longrightarrow>
    ms_ok filter_ms_type s' m' \<and> ms_others live s' m' = ms_others live s m \<and>
    (ok \<longrightarrow> mset (ms_items m') = mset (ms_items m) + mset (map acf_msg_cfg ps))"
proof (induction ps arbitrary: s m)
  case (Cons p ps)
  obtain ok1 s1 m1 where e: "ms_emplace A filter_ms_type (acf_msg_cfg p) (s, m) = (ok1, s1, m1)" by (metis prod_cases3)
  note sp = ms_emplace_spec [OF Cons.prems(1) e]
  show ?case
  proof (cases ok1)
    case True
    then show ?thesis using Cons.IH [of s1 m1] Cons.prems(2) sp e by simp
  next
    case False
    then show ?thesis using Cons.prems(2) sp e by simp
  qed
qed simp

lemma acf_loadInputConfiguration_spec:
  assumes "ms_ok filter_ms_type s m" and "acf_loadInputConfiguration A x mode (s, m) = (r, s', m')"
  shows "ms_ok filter_ms_type s' m' \<and> ms_others live s' m' = ms_others live s m \<and>
    (r = None \<longrightarrow> mset (ms_items m') = acf_input x mode)"
proof -
  obtain s0 m0 where c: "ms_clear A (s, m) = (s0, m0)" by fastforce
  have c0: "ms_ok filter_ms_type s0 m0" "ms_others live s0 m0 = ms_others live s m" "ms_items m0 = []"
    using ms_removeWhere_spec [OF assms(1) c [unfolded ms_clear_def]] by auto
  obtain ok1 s1 m1 where a: "(if mode = AcceptAnonymousMessages then ms_emplace A filter_ms_type acf_anon_cfg (s0, m0)
      else (True, s0, m0)) = (ok1, s1, m1)" by (metis prod_cases3)
  have a1: "ms_ok filter_ms_type s1 m1" "ms_others live s1 m1 = ms_others live s m"
    "ok1 \<Longrightarrow> mset (ms_items m1) = (if mode = AcceptAnonymousMessages then {#acf_anon_cfg#} else {#})"
    using ms_emplace_spec [OF c0(1), of acf_anon_cfg ok1 s1 m1] a c0 by (auto split: if_splits)
  show ?thesis
  proof (cases ok1)
    case False
    then show ?thesis using assms(2) c a a1 by (auto simp: acf_loadInputConfiguration_def)
  next
    case True
    obtain ok2 s2 m2 where b: "ms_emplace A filter_ms_type (acf_service_cfg (dsp_self_node_id x)) (s1, m1) = (ok2, s2, m2)"
      by (metis prod_cases3)
    note b2 = ms_emplace_spec [OF a1(1) b]
    then have ok2: "ms_ok filter_ms_type s2 m2" by blast
    obtain ok3 s3 m3 where l: "acf_load_listeners A (map ln_id (dsp_lmsg x)) (s2, m2) = (ok3, s3, m3)"
      by (metis prod_cases3)
    note l3 = acf_load_listeners_spec [OF ok2 l]
    show ?thesis
    proof (cases "ok2 \<and> ok3")
      case True
      then show ?thesis using assms(2) c a a1 b b2 l l3 \<open>ok1\<close>
        by (auto simp: acf_loadInputConfiguration_def acf_input_def split: if_splits)
    next
      case False
      then show ?thesis using assms(2) c a a1 b b2 l l3 \<open>ok1\<close>
        by (cases ok2) (auto simp: acf_loadInputConfiguration_def)
    qed
  qed
qed

end

section \<open>The frames of a node pass its filters\<close>

text \<open>
  The frames that the dispatcher of a node passes on to its listeners, without the anonymous ones where the
  configurator is told to ignore them.
\<close>

definition acf_wanted :: "dispatcher \<Rightarrow> anonymous_messages \<Rightarrow> frame \<Rightarrow> bool" where
  "acf_wanted x mode f \<longleftrightarrow> frame_isValid f \<and>
    (if fr_transfer_type f = TransferTypeMessageBroadcast
     then (if node_id_isBroadcast (fr_src_node_id f) then mode = AcceptAnonymousMessages
           else lr_exists (fr_data_type_id f) (dsp_lmsg x))
     else fr_dst_node_id f = dsp_self_node_id x)"

lemma acf_masks:
  "DefaultFilterMsgMask = bitpack 7 17 (mask 17)" "DefaultFilterServiceMask = bitpack 7 8 (mask 8)"
  "DefaultFilterServiceID = bitpack 7 1 1" "DefaultAnonMsgMask = bitpack 0 8 (mask 8)"
  "FlagRTR = bitpack 30 1 1" "FlagERR = bitpack 29 1 1"
  by (simp_all add: DefaultFilterMsgMask_def DefaultFilterServiceMask_def DefaultFilterServiceID_def
      DefaultAnonMsgMask_def FlagRTR_def FlagERR_def bitpack_def mask_eq_exp_minus_1)

lemmas acf_cfg_bits = acf_accepts_bits acf_masks DefaultAnonMsgID_def acf_flags_def FlagEFF_bitpack
  bit_or_iff bit_bitpack compiled_id_def frame_can_id_def node_id_isBroadcast_def node_id_Broadcast_def

lemma anon_cfg_accepts:
  "frame_isValid f \<Longrightarrow> fr_src_node_id f = 0 \<Longrightarrow> acf_accepts acf_anon_cfg (compiled_id f)"
  by (auto simp: acf_cfg_bits acf_anon_cfg_def frame_isValid_iff bit_simps split: if_splits)

lemma service_cfg_accepts:
  "frame_isValid f \<Longrightarrow> fr_transfer_type f \<noteq> TransferTypeMessageBroadcast \<Longrightarrow>
    acf_accepts (acf_service_cfg (fr_dst_node_id f)) (compiled_id f)"
  by (auto simp: acf_cfg_bits acf_service_cfg_def frame_isValid_iff bit_simps split: if_splits)

lemma msg_cfg_accepts:
  "fr_src_node_id f \<noteq> 0 \<Longrightarrow> fr_transfer_type f = TransferTypeMessageBroadcast \<Longrightarrow>
    acf_accepts (acf_msg_cfg (fr_data_type_id f)) (compiled_id f)"
  by (auto simp: acf_cfg_bits acf_msg_cfg_def bit_simps split: if_splits dest: bit_imp_le_length)

lemma acf_input_wanted:
  assumes "acf_wanted x mode f"
  shows "\<exists>c \<in># acf_input x mode. acf_accepts c (compiled_id f)"
proof (cases "fr_transfer_type f = TransferTypeMessageBroadcast")
  case True
  show ?thesis
  proof (cases "fr_src_node_id f = 0")
    case True
    then show ?thesis using assms \<open>fr_transfer_type f = _\<close> anon_cfg_accepts [of f]
      by (auto simp: acf_wanted_def acf_input_def node_id_isBroadcast_def node_id_Broadcast_def)
  next
    case False
    then obtain p where "p \<in> set (dsp_lmsg x)" "ln_id p = fr_data_type_id f"
      using assms True
      by (auto simp: acf_wanted_def lr_exists_def list_ex_iff node_id_isBroadcast_def node_id_Broadcast_def)
    then have "acf_msg_cfg (fr_data_type_id f) \<in># acf_input x mode" by (auto simp: acf_input_def image_iff intro!: bexI)
    then show ?thesis using msg_cfg_accepts [OF False True] by blast
  qed
next
  case False
  then show ?thesis using assms service_cfg_accepts [of f] by (auto simp: acf_wanted_def acf_input_def)
qed

lemma acf_input_extended: "\<forall>c \<in># acf_input x mode. bit (fc_mask c) 31 \<and> bit (fc_id c) 31"
  by (auto simp: acf_input_def acf_anon_cfg_def acf_service_cfg_def acf_msg_cfg_def acf_flags_def FlagEFF_bitpack
      bit_or_iff bit_bitpack)

text \<open>
  C8.  Whenever the configurator computes a configuration, it fits the number of hardware filters
  and accepts the CAN ID of every frame that the dispatcher of the node would hand to a listener:
  messages of the subscribed types, service transfers to the node, and anonymous messages where
  these are asked for.  Up to 254 subscribers are covered, the number of configurations that the
  8-bit cast of the merging loop can enumerate.
\<close>

theorem filters_accept_wanted_frames:
  assumes "pool.ms_ok filter_ms_type s m" and "length (dsp_lmsg x) \<le> 254"
    and "acf_computeConfiguration D pool_ops filters_number x mode d (s, m) = (None, s', m')"
  shows "length (ms_items m') \<le> unat (acf_getNumFilters D filters_number x d) \<and>
    (\<forall>f. acf_wanted x mode f \<longrightarrow> (\<exists>c \<in> set (ms_items m'). acf_accepts c (compiled_id f)))"
proof -
  let ?n = "acf_getNumFilters D filters_number x d"
  obtain r s1 m1 where l: "acf_loadInputConfiguration pool_ops x mode (s, m) = (r, s1, m1)" by (metis prod_cases3)
  have n: "0 < ?n" "r = None" "(s', m') = acf_merge_loop pool_ops ?n (s1, m1)"
    using assms(3) l by (auto simp: acf_computeConfiguration_def acf_mergeConfigurations_def word_gt_0
        split: if_splits option.splits)
  have i: "mset (ms_items m1) = acf_input x mode"
    using pool.acf_loadInputConfiguration_spec [OF assms(1) l] n by blast
  then have "size (mset (ms_items m1)) \<le> 256" using assms(2) by (simp add: acf_input_def)
  then have len: "length (ms_items m1) \<le> 256" by simp
  have st: "set (ms_items m1) = set_mset (acf_input x mode)" using i by (metis set_mset_mset)
  have ext: "acf_extended (ms_items m1)" using acf_input_extended st by (simp add: acf_extended_def)
  have k: "acf_accepted (ms_items m1) \<subseteq> acf_accepted (ms_items m')" "length (ms_items m') \<le> unat ?n"
    using acf_merge_loop_keeps [OF n(1), of "(s1, m1)" pool_ops] len ext n(3) by (metis snd_conv)+
  have "\<exists>c \<in> set (ms_items m'). acf_accepts c (compiled_id f)" if "acf_wanted x mode f" for f
    using acf_input_wanted [OF that] k(1) st by (auto simp: acf_accepted_def)
  then show ?thesis using k(2) by blast
qed

definition example_filter_driver :: "unit filter_driver" where
  "example_filter_driver =
    \<lparr>fd_hasIface = \<lambda>_ _. True, fd_getNumFilters = \<lambda>_ _. 14, fd_configureFilters = \<lambda>_ _ d. (0, d)\<rparr>"

definition example_filter_node :: dispatcher where
  "example_filter_node =
    \<lparr>dsp_canio = \<lparr>cio_tx_queues = [], cio_counters = [], cio_num_ifaces = 1\<rparr>, dsp_outgoing_transfer_reg = [],
     dsp_perf = TransferPerfCounter, dsp_lmsg = [], dsp_lsrv_req = [], dsp_lsrv_resp = [], dsp_loopback_listeners = [],
     dsp_rx_listener = None, dsp_self_node_id = 43, dsp_self_node_id_is_set = True\<rparr>"

theorem filters_accept_wanted_frames_witness:
  "\<exists>s m. acf_computeConfiguration example_filter_driver pool_ops 1 example_filter_node AcceptAnonymousMessages ()
      (PoolAllocator 128 64, []) = (None, s, m) \<and>
    length (ms_items m) \<le> 1 \<and> (\<exists>c \<in> set (ms_items m). acf_accepts c (compiled_id example_frame))"
proof -
  let ?c = "acf_computeConfiguration example_filter_driver pool_ops 1 example_filter_node AcceptAnonymousMessages ()
      (PoolAllocator 128 64, [])"
  obtain r s m where e: "?c = (r, s, m)" by (metis prod_cases3)
  have r: "r = None"
    using e by (auto simp: acf_computeConfiguration_def acf_mergeConfigurations_def acf_getNumFilters_def
        acf_loadInputConfiguration_def ms_clear_def ms_removeWhere_def ms_emplace_def msc_instantiate_def
        filter_ms_type_def example_filter_node_def pool_allocate_def PoolAllocator_def Let_def numeral_3_eq_3)
  have i: "pool.ms_ok filter_ms_type (PoolAllocator 128 64) []"
    using PoolAllocator_fresh [of 128 64] by (simp add: pool.ms_ok_def ms_inv_def filter_ms_type_def)
  have w: "acf_wanted example_filter_node AcceptAnonymousMessages example_frame"
    by (simp add: acf_wanted_def example_frame_valid) (simp add: example_frame_def example_filter_node_def)
  have l: "length (dsp_lmsg example_filter_node) \<le> 254" by (simp add: example_filter_node_def)
  note filters_accept_wanted_frames [OF i l e [unfolded r]]
  then show ?thesis using w e r by (simp add: acf_getNumFilters_def)
qed

text \<open>
  Where no two configurations share a selected bit, the search leaves both indices at zero, and the
  first configuration is merged with itself and removed: the frames that only it accepted are lost.
\<close>

lemma acf_rank_fold_zero:
  assumes "\<forall>p \<in> set ps. fst p < length (ms_items m) \<and> snd p < length (ms_items m) \<and> acf_rank (ms_items m) p = 0"
  shows "foldl (acf_rank_step m) (0, 0, 0) ps = (0, 0, 0)"
  using assms by (induction ps) (simp_all add: acf_rank_step_def acf_rank_def Let_def)

lemma disjoint_filters_drop_first:
  assumes "2 \<le> length (ms_items m)" "length (ms_items m) \<le> 256"
    and "\<forall>i j. i < j \<longrightarrow> j < length (ms_items m) \<longrightarrow> acf_rank (ms_items m) (i, j) = 0"
  shows "ms_items (snd (acf_merge_once A (s, m))) = tl (ms_items m)"
proof -
  have "acf_best m = (0, 0)"
    using assms acf_rank_fold_zero [of "acf_pairs (length (ms_items m))" m] acf_pairs_set [OF assms(2)]
    by (simp add: acf_best_def)
  then show ?thesis using acf_merge_once_items [of m 0 0 A s] assms(1) by (cases "ms_items m") auto
qed

lemma disjoint_filters_lose_frames:
  assumes "ms_items m = [\<lparr>fc_id = 1, fc_mask = 1\<rparr>, \<lparr>fc_id = 2, fc_mask = 2\<rparr>]"
  shows "1 \<in> acf_accepted (ms_items m) \<and> 1 \<notin> acf_accepted (ms_items (snd (acf_merge_loop A 1 (s, m))))"
proof -
  have c: "acf_countBits 0 = 0" by (simp add: acf_countBits_def acf_countBits_loop.simps)
  have t: "ms_items (snd (acf_merge_once A (s, m))) = [\<lparr>fc_id = 2, fc_mask = 2\<rparr>]"
    using disjoint_filters_drop_first [of m A s] assms c
    by (simp add: acf_rank_def acf_mergeFilters_def less_Suc_eq)
  then have "ms_items (snd (acf_merge_loop A 1 (s, m))) = [\<lparr>fc_id = 2, fc_mask = 2\<rparr>]"
    using assms by (simp add: acf_merge_loop.simps)
  then show ?thesis using assms by (simp add: acf_accepted_def acf_accepts_def)
qed

end
