(* ===== verification/StorageMarshallers.thy ===== *)
theory StorageMarshallers
  imports UavPrelude TransferTypes
begin

text \<open>
  \<^verbatim>\<open>StorageMarshaller\<close> (include/uavcan/protocol/dynamic_node_id_server/storage_marshaller.hpp): numbers and
  unique IDs as strings in a key-value storage, and \<^verbatim>\<open>NodeIDSelector\<close> (node_id_selector.hpp).  The storage
  backend is a parameter.
\<close>

unbundle bit_operations_syntax

section \<open>Definitions\<close>

type_synonym unique_id = "u8 list"

text \<open>The occupation mask of the centralized storage has 128 bits and is stored as a unique ID: 16 bytes.\<close>

definition UniqueID_MaxSize :: nat where
  "UniqueID_MaxSize = 16"

record 'b storage_backend =
  st_get :: "'b \<Rightarrow> string \<Rightarrow> string"
  st_set :: "string \<Rightarrow> string \<Rightarrow> 'b \<Rightarrow> 'b"

text \<open>The formats \<^verbatim>\<open>%llu\<close>, \<^verbatim>\<open>%d\<close> (of a number that is not negative) and \<^verbatim>\<open>%02x\<close>.\<close>

definition dec_digit :: "nat \<Rightarrow> char" where
  "dec_digit n = char_of (48 + n)"

fun format_dec :: "nat \<Rightarrow> string" where
  "format_dec n = (if n < 10 then [dec_digit n] else format_dec (n div 10) @ [dec_digit (n mod 10)])"

declare format_dec.simps [simp del]

definition hex_digit :: "nat \<Rightarrow> char" where
  "hex_digit n = (if n < 10 then char_of (48 + n) else char_of (87 + n))"

definition format_hex2 :: "u8 \<Rightarrow> string" where
  "format_hex2 b = [hex_digit (unat b div 16), hex_digit (unat b mod 16)]"

definition sm_convertLowerCaseHexCharToNibble :: "char \<Rightarrow> u8" where
  "sm_convertLowerCaseHexCharToNibble ch =
    (if of_char ch > (57 :: nat) then word_of_nat (of_char ch) - 97 + 10 else word_of_nat (of_char ch) - 48)"

definition sm_convertUniqueIDToHex :: "unique_id \<Rightarrow> string" where
  "sm_convertUniqueIDToHex key = concat (map format_hex2 (take UniqueID_MaxSize key))"

definition convertToLowerCaseASCII :: "string \<Rightarrow> string" where
  "convertToLowerCaseASCII =
    map (\<lambda>c. if of_char c \<le> (90 :: nat) \<and> of_char c \<ge> (65 :: nat) then char_of (of_char c + (32 :: nat)) else c)"

definition is_dec_char :: "char \<Rightarrow> bool" where
  "is_dec_char c \<longleftrightarrow> \<not> (of_char c < (48 :: nat) \<or> of_char c > (57 :: nat))"

definition is_hex_char :: "char \<Rightarrow> bool" where
  "is_hex_char c \<longleftrightarrow>
    \<not> ((of_char c < (48 :: nat) \<or> of_char c > (57 :: nat)) \<and> (of_char c < (97 :: nat) \<or> of_char c > (102 :: nat)))"

text \<open>\<^verbatim>\<open>strtoull\<close> on a string of decimal digits; ten digits cannot overflow it.\<close>

definition strtoull :: "string \<Rightarrow> u64" where
  "strtoull = foldl (\<lambda>x c. x * 10 + word_of_nat (of_char c - 48)) 0"

text \<open>The getters: \<open>None\<close> for an error, which leaves the output argument alone.\<close>

definition sm_get :: "'b storage_backend \<Rightarrow> 'b \<Rightarrow> string \<Rightarrow> u32 option" where
  "sm_get B b key =
    (let val = st_get B b key
     in if val = [] then None
        else if \<not> list_all is_dec_char val then None
        else if length val > 10 then None
        else Some (ucast (strtoull val)))"

fun sm_hex_bytes :: "string \<Rightarrow> u8 list" where
  "sm_hex_bytes (h # l # cs) =
    (sm_convertLowerCaseHexCharToNibble l OR push_bit 4 (sm_convertLowerCaseHexCharToNibble h)) # sm_hex_bytes cs"
| "sm_hex_bytes _ = []"

definition sm_get_uid :: "'b storage_backend \<Rightarrow> 'b \<Rightarrow> string \<Rightarrow> unique_id option" where
  "sm_get_uid B b key =
    (let val = st_get B b key
     in if length val \<noteq> UniqueID_MaxSize * 2 then None
        else
          (let val = convertToLowerCaseASCII val
           in if \<not> list_all is_hex_char val then None else Some (sm_hex_bytes val)))"

definition sm_setAndGetBack :: "'b storage_backend \<Rightarrow> string \<Rightarrow> u32 \<Rightarrow> 'b \<Rightarrow> u32 option \<times> 'b" where
  "sm_setAndGetBack B key inout_value b =
    (let b = st_set B key (format_dec (unat inout_value)) b in (sm_get B b key, b))"

definition sm_setAndGetBack_uid :: "'b storage_backend \<Rightarrow> string \<Rightarrow> unique_id \<Rightarrow> 'b \<Rightarrow> unique_id option \<times> 'b" where
  "sm_setAndGetBack_uid B key inout_value b =
    (let b = st_set B key (sm_convertUniqueIDToHex inout_value) b in (sm_get_uid B b key, b))"

subsection \<open>NodeIDSelector\<close>

function nis_up :: "(node_id \<Rightarrow> bool) \<Rightarrow> u8 \<Rightarrow> node_id option" where
  "nis_up taken candidate =
    (if candidate \<le> node_id_MaxRecommended
     then (if \<not> taken candidate then Some candidate else nis_up taken (candidate + 1)) else None)"
  by pat_completeness auto

termination
proof (relation "measure (\<lambda>(t, c). 256 - unat c)", simp)
  fix t :: "node_id \<Rightarrow> bool" and c :: u8
  assume "c \<le> node_id_MaxRecommended"
  then have "unat c \<le> 125" by (simp add: node_id_MaxRecommended_def word_le_nat_alt)
  then show "((t, c + 1), t, c) \<in> measure (\<lambda>(t, c). 256 - unat c)" by (simp add: unat_word_ariths)
qed

function nis_down :: "(node_id \<Rightarrow> bool) \<Rightarrow> u8 \<Rightarrow> node_id option" where
  "nis_down taken candidate =
    (if candidate > 0 then (if \<not> taken candidate then Some candidate else nis_down taken (candidate - 1)) else None)"
  by pat_completeness auto

termination
proof (relation "measure (\<lambda>(t, c). unat c)", simp)
  fix t :: "node_id \<Rightarrow> bool" and c :: u8
  assume "0 < c"
  then show "((t, c - 1), t, c) \<in> measure (\<lambda>(t, c). unat c)"
    by (simp add: unat_minus_one word_gt_0 unat_gt_0)
qed

declare nis_up.simps [simp del] nis_down.simps [simp del]

definition nis_findFreeNodeID :: "(node_id \<Rightarrow> bool) \<Rightarrow> node_id \<Rightarrow> node_id" where
  "nis_findFreeNodeID taken preferred =
    (let start = (if node_id_isUnicast preferred then preferred else node_id_MaxRecommended)
     in case nis_up taken start of
          Some c \<Rightarrow> c
        | None \<Rightarrow> (case nis_down taken start of Some c \<Rightarrow> c | None \<Rightarrow> node_id_invalid))"

section \<open>Numbers and unique IDs survive the storage\<close>

lemma of_char_char_of_nat [simp]: "n < 256 \<Longrightarrow> of_char (char_of n :: char) = (n :: nat)"
  by simp

lemma dec_digit_char [simp]: "n < 10 \<Longrightarrow> is_dec_char (dec_digit n)"
  by (simp add: is_dec_char_def dec_digit_def)

lemma format_dec_chars: "list_all is_dec_char (format_dec n) \<and> format_dec n \<noteq> []"
proof (induction n rule: format_dec.induct)
  case (1 n)
  show ?case
  proof (cases "n < 10")
    case True
    then show ?thesis by (simp add: format_dec.simps [of n])
  next
    case False
    then show ?thesis using 1 by (subst (1 2) format_dec.simps) simp
  qed
qed

lemma length_format_dec: "n < 10 ^ Suc k \<Longrightarrow> length (format_dec n) \<le> Suc k"
proof (induction k arbitrary: n)
  case 0
  then show ?case by (subst format_dec.simps) simp
next
  case (Suc k)
  then have "n div 10 < 10 ^ Suc k" by (simp add: less_mult_imp_div_less)
  then show ?case using Suc.IH [of "n div 10"] by (subst format_dec.simps) simp
qed

lemma strtoull_format_dec: "strtoull (format_dec n) = word_of_nat n"
proof (induction n rule: format_dec.induct)
  case (1 n)
  show ?case
  proof (cases "n < 10")
    case True
    then show ?thesis by (simp add: format_dec.simps [of n] strtoull_def dec_digit_def)
  next
    case False
    have "n mod 10 < 10" by simp
    then have "strtoull (format_dec n) = strtoull (format_dec (n div 10)) * 10 + word_of_nat (n mod 10)"
      using False by (subst format_dec.simps) (simp add: strtoull_def dec_digit_def)
    also have "\<dots> = word_of_nat (n div 10) * word_of_nat 10 + word_of_nat (n mod 10)" using 1 False by simp
    finally show ?thesis by (simp only: flip: of_nat_mult of_nat_add) (simp only: div_mult_mod_eq)
  qed
qed

lemma hex_digits_evaluated:
  "list_all (\<lambda>n. is_hex_char (hex_digit n) \<and> sm_convertLowerCaseHexCharToNibble (hex_digit n) = word_of_nat n \<and>
     convertToLowerCaseASCII [hex_digit n] = [hex_digit n]) [0..<16]"
  by (simp add: upt_conv_Cons is_hex_char_def hex_digit_def sm_convertLowerCaseHexCharToNibble_def
      convertToLowerCaseASCII_def)

lemma hex_digit_props:
  assumes "n < 16"
  shows "is_hex_char (hex_digit n)" "sm_convertLowerCaseHexCharToNibble (hex_digit n) = word_of_nat n"
    "convertToLowerCaseASCII [hex_digit n] = [hex_digit n]"
  using hex_digits_evaluated assms unfolding list_all_iff set_upt by auto

lemma nibbles: "(word_of_nat (unat b mod 16) OR push_bit 4 (word_of_nat (unat b div 16)) :: u8) = b"
proof -
  have lt: "unat b div 16 < 256" "unat b mod 16 < 256" using unat_u8_lt [of b] by auto
  have l: "word_of_nat (unat b mod 16) = take_bit 4 b"
  proof (rule unsigned_word_eqI)
    show "unat (word_of_nat (unat b mod 16) :: u8) = unat (take_bit 4 b)"
      using lt by (simp add: unat_of_nat unsigned_take_bit_eq) (simp add: take_bit_eq_mod)
  qed
  have h: "word_of_nat (unat b div 16) = drop_bit 4 b"
  proof (rule unsigned_word_eqI)
    show "unat (word_of_nat (unat b div 16) :: u8) = unat (drop_bit 4 b)"
      using lt by (simp add: unat_of_nat unsigned_drop_bit_eq) (simp add: drop_bit_eq_div take_bit_nat_eq_self unat_u8_lt)
  qed
  show ?thesis unfolding l h
  proof (rule bit_word_eqI)
    fix n
    assume "n < LENGTH(8)"
    then show "bit (take_bit 4 b OR push_bit 4 (drop_bit 4 b)) n = bit b n" by (cases "n < 4") (auto simp: bit_simps)
  qed
qed

lemma hex_bytes_roundtrip:
  "let val = concat (map format_hex2 xs)
   in length val = 2 * length xs \<and> convertToLowerCaseASCII val = val \<and> list_all is_hex_char val \<and> sm_hex_bytes val = xs"
proof (induction xs)
  case (Cons x xs)
  have "unat x < 256" using unat_u8_lt [of x] .
  then have d: "unat x div 16 < 16" "unat x mod 16 < 16" by auto
  show ?case
    using Cons hex_digit_props [OF d(1)] hex_digit_props [OF d(2)]
    by (simp add: format_hex2_def Let_def convertToLowerCaseASCII_def nibbles)
qed (simp add: convertToLowerCaseASCII_def)

text \<open>What the interface asks of a backend: a value that was set can be read, and other keys keep theirs.\<close>

definition storage_reliable :: "'b storage_backend \<Rightarrow> bool" where
  "storage_reliable B \<longleftrightarrow>
    (\<forall>b k v. v \<noteq> [] \<longrightarrow> length k \<le> 32 \<longrightarrow> length v \<le> 32 \<longrightarrow>
      st_get B (st_set B k v b) k = v \<and> (\<forall>k'. k' \<noteq> k \<longrightarrow> st_get B (st_set B k v b) k' = st_get B b k'))"

lemma sm_get_other: "st_get B b k = st_get B b' k \<Longrightarrow> sm_get B b k = sm_get B b' k"
  by (simp add: sm_get_def)

lemma sm_get_uid_other: "st_get B b k = st_get B b' k \<Longrightarrow> sm_get_uid B b k = sm_get_uid B b' k"
  by (simp add: sm_get_uid_def)

lemma setAndGetBack_reliable:
  assumes "storage_reliable B" and "length key \<le> 32" and e: "sm_setAndGetBack B key v b = (r, b')"
  shows "r = Some v \<and> sm_get B b' key = Some v \<and> st_get B b' key \<noteq> [] \<and> (\<forall>k. k \<noteq> key \<longrightarrow> st_get B b' k = st_get B b k)"
proof -
  have "unat v < 2 ^ LENGTH(32)" by (rule unsigned_less)
  then have "unat v < 10 ^ Suc 9" by simp
  then have l: "length (format_dec (unat v)) \<le> 10" using length_format_dec [of "unat v" 9] by simp
  have c: "list_all is_dec_char (format_dec (unat v))" "format_dec (unat v) \<noteq> []" using format_dec_chars by auto
  have g: "st_get B (st_set B key (format_dec (unat v)) b) key = format_dec (unat v)"
    "\<forall>k. k \<noteq> key \<longrightarrow> st_get B (st_set B key (format_dec (unat v)) b) k = st_get B b k"
    using assms l c by (auto simp: storage_reliable_def)
  have "(ucast (strtoull (format_dec (unat v))) :: u32) = v"
    by (rule bit_word_eqI) (simp add: strtoull_format_dec bit_simps)
  then have "sm_get B (st_set B key (format_dec (unat v)) b) key = Some v" using g(1) c l by (simp add: sm_get_def)
  then show ?thesis using e g c by (auto simp: sm_setAndGetBack_def Let_def)
qed

lemma setAndGetBack_uid_reliable:
  assumes "storage_reliable B" and "length key \<le> 32" and "length u = UniqueID_MaxSize"
    and e: "sm_setAndGetBack_uid B key u b = (r, b')"
  shows "r = Some u \<and> sm_get_uid B b' key = Some u \<and> (\<forall>k. k \<noteq> key \<longrightarrow> st_get B b' k = st_get B b k)"
proof -
  let ?v = "sm_convertUniqueIDToHex u"
  have v: "length ?v = 32" "convertToLowerCaseASCII ?v = ?v" "list_all is_hex_char ?v" "sm_hex_bytes ?v = u"
    using hex_bytes_roundtrip [of u] assms(3) by (simp_all add: sm_convertUniqueIDToHex_def UniqueID_MaxSize_def Let_def)
  then have "?v \<noteq> []" by auto
  then have g: "st_get B (st_set B key ?v b) key = ?v" "\<forall>k. k \<noteq> key \<longrightarrow> st_get B (st_set B key ?v b) k = st_get B b k"
    using assms v by (auto simp: storage_reliable_def)
  then have "sm_get_uid B (st_set B key ?v b) key = Some u" using v by (simp add: sm_get_uid_def UniqueID_MaxSize_def)
  then show ?thesis using e g by (auto simp: sm_setAndGetBack_uid_def Let_def)
qed

text \<open>
  C26.  On a storage backend that keeps what is written, every 32-bit number and every unique ID that the
  marshaller stores is read back unchanged, at once and from the storage as it is then, and no other key
  is touched.
\<close>

theorem storage_roundtrip:
  assumes "storage_reliable B" and "length key \<le> 32" and "length u = UniqueID_MaxSize"
    and "sm_setAndGetBack B key v b = (r1, b1)" and "sm_setAndGetBack_uid B key u b = (r2, b2)"
  shows "r1 = Some v \<and> sm_get B b1 key = Some v \<and> r2 = Some u \<and> sm_get_uid B b2 key = Some u \<and>
    (\<forall>k. k \<noteq> key \<longrightarrow> sm_get B b1 k = sm_get B b k \<and> sm_get B b2 k = sm_get B b k \<and>
      sm_get_uid B b1 k = sm_get_uid B b k \<and> sm_get_uid B b2 k = sm_get_uid B b k)"
  using setAndGetBack_reliable [OF assms(1,2,4)] setAndGetBack_uid_reliable [OF assms(1,2,3,5)]
    sm_get_other [of B _ _ b] sm_get_uid_other [of B _ _ b] by blast

definition example_backend :: "(string \<Rightarrow> string) storage_backend" where
  "example_backend = \<lparr>st_get = (\<lambda>b k. b k), st_set = (\<lambda>k v b. b(k := v))\<rparr>"

lemma example_backend_reliable: "storage_reliable example_backend"
  by (simp add: storage_reliable_def example_backend_def)

theorem storage_roundtrip_witness:
  "fst (sm_setAndGetBack example_backend ''current_term'' 4294967295 (\<lambda>_. [])) = Some 4294967295"
proof -
  obtain r1 b1 where e1: "sm_setAndGetBack example_backend ''current_term'' 4294967295 (\<lambda>_. []) = (r1, b1)" by fastforce
  obtain r2 b2 where e2: "sm_setAndGetBack_uid example_backend ''current_term'' (replicate 16 0xAB) (\<lambda>_. []) = (r2, b2)"
    by fastforce
  show ?thesis using storage_roundtrip [OF example_backend_reliable _ _ e1 e2] e1 by (simp add: UniqueID_MaxSize_def)
qed

text \<open>Ten digits are accepted whatever their value, and a value beyond 32 bits is cut without an error.\<close>

lemma sm_get_truncates: "st_get B b key = ''4294967297'' \<Longrightarrow> sm_get B b key = Some 1"
  by (simp add: sm_get_def is_dec_char_def strtoull_def)

section \<open>Selection of a node ID\<close>

lemma nis_up_spec:
  "case nis_up taken c of
     Some r \<Rightarrow> c \<le> r \<and> r \<le> 125 \<and> \<not> taken r \<and> (\<forall>x. c \<le> x \<longrightarrow> x < r \<longrightarrow> taken x)
   | None \<Rightarrow> (\<forall>x. c \<le> x \<longrightarrow> x \<le> 125 \<longrightarrow> taken x)"
proof (induction taken c rule: nis_up.induct)
  case (1 taken c)
  show ?case
  proof (cases "c \<le> 125 \<and> taken c")
    case True
    have suc: "c \<le> x \<longleftrightarrow> x = c \<or> c + 1 \<le> x" for x
      using True by (auto simp: word_le_nat_alt unat_word_ariths word_unat_eq_iff)
    then have "c + 1 \<le> x \<Longrightarrow> c \<le> x" "c \<le> x \<Longrightarrow> x \<noteq> c \<Longrightarrow> c + 1 \<le> x" for x by auto
    then show ?thesis using 1 True
      by (subst nis_up.simps) (auto simp: node_id_MaxRecommended_def split: option.splits)
  next
    case False
    then show ?thesis
      by (subst nis_up.simps) (auto simp: node_id_MaxRecommended_def)
  qed
qed

lemma nis_down_spec:
  "case nis_down taken c of
     Some r \<Rightarrow> 0 < r \<and> r \<le> c \<and> \<not> taken r \<and> (\<forall>x. r < x \<longrightarrow> x \<le> c \<longrightarrow> taken x)
   | None \<Rightarrow> (\<forall>x. 0 < x \<longrightarrow> x \<le> c \<longrightarrow> taken x)"
proof (induction taken c rule: nis_down.induct)
  case (1 taken c)
  show ?case
  proof (cases "0 < c \<and> taken c")
    case True
    then have "unat (c - 1) = unat c - 1" "0 < unat c" by (simp_all add: unat_minus_one word_gt_0 unat_gt_0)
    then have suc: "x \<le> c \<longleftrightarrow> x = c \<or> x \<le> c - 1" for x
      by (auto simp: word_le_nat_alt word_unat_eq_iff)
    then have "x \<le> c - 1 \<Longrightarrow> x \<le> c" "x \<le> c \<Longrightarrow> x \<noteq> c \<Longrightarrow> x \<le> c - 1" for x by auto
    then show ?thesis using 1 True by (subst nis_down.simps) (auto split: option.splits)
  next
    case False
    then show ?thesis by (subst nis_down.simps) auto
  qed
qed

lemma nis_search:
  assumes "r = (case nis_up taken start of
      Some c \<Rightarrow> c | None \<Rightarrow> (case nis_down taken start of Some c \<Rightarrow> c | None \<Rightarrow> node_id_invalid))"
  shows "if \<exists>c. start \<le> c \<and> c \<le> 125 \<and> \<not> taken c
    then start \<le> r \<and> r \<le> 125 \<and> \<not> taken r \<and> (\<forall>c. start \<le> c \<and> c < r \<longrightarrow> taken c)
    else if \<exists>c. 0 < c \<and> c \<le> start \<and> \<not> taken c
    then 0 < r \<and> r \<le> start \<and> \<not> taken r \<and> (\<forall>c. r < c \<and> c \<le> start \<longrightarrow> taken c)
    else r = node_id_invalid"
proof (cases "nis_up taken start")
  case (Some c)
  then show ?thesis using nis_up_spec [where taken = taken and c = start] assms by auto
next
  case None
  then have "\<nexists>c. start \<le> c \<and> c \<le> 125 \<and> \<not> taken c" using nis_up_spec [where taken = taken and c = start] by auto
  then show ?thesis using nis_down_spec [where taken = taken and c = start] assms None by (cases "nis_down taken start") auto
qed

text \<open>
  C33.  \<^verbatim>\<open>findFreeNodeID\<close> returns the smallest free node ID that is not below the preferred one and is
  recommended for regular nodes; if there is none, the largest free one that is not above it; and the invalid
  ID only if every node ID up to the larger of the preferred and the recommended maximum is taken.
\<close>

theorem findFreeNodeID_correct:
  "let start = (if node_id_isUnicast preferred then preferred else node_id_MaxRecommended);
       r = nis_findFreeNodeID taken preferred
   in if \<exists>c. start \<le> c \<and> c \<le> node_id_MaxRecommended \<and> \<not> taken c
      then start \<le> r \<and> r \<le> node_id_MaxRecommended \<and> \<not> taken r \<and> (\<forall>c. start \<le> c \<and> c < r \<longrightarrow> taken c)
      else if \<exists>c. 0 < c \<and> c \<le> start \<and> \<not> taken c
      then 0 < r \<and> r \<le> start \<and> \<not> taken r \<and> (\<forall>c. r < c \<and> c \<le> start \<longrightarrow> taken c)
      else r = node_id_invalid"
proof -
  have m: "node_id_MaxRecommended = 125" by (simp add: node_id_MaxRecommended_def)
  show ?thesis unfolding Let_def m by (rule nis_search) (simp add: nis_findFreeNodeID_def m)
qed

theorem findFreeNodeID_correct_witness:
  "nis_findFreeNodeID (\<lambda>c. c \<noteq> 100) 50 = 100"
proof -
  have e: "\<exists>c :: u8. 50 \<le> c \<and> c \<le> node_id_MaxRecommended \<and> \<not> c \<noteq> 100"
    by (rule exI [of _ 100]) (simp add: node_id_MaxRecommended_def)
  have s: "(if node_id_isUnicast 50 then 50 else node_id_MaxRecommended) = 50"
    by (simp add: node_id_isUnicast_def node_id_Broadcast_def)
  have "\<not> nis_findFreeNodeID (\<lambda>c. c \<noteq> 100) 50 \<noteq> 100"
    using findFreeNodeID_correct [where preferred = 50 and taken = "\<lambda>c. c \<noteq> 100", unfolded Let_def s if_P [OF e]]
    by (elim conjE)
  then show ?thesis by simp
qed

end
