(* ===== verification/RaftLogs.thy ===== *)
theory RaftLogs
  imports StorageMarshallers
begin

text \<open>
  The persistent state of a Raft server: \<^verbatim>\<open>Log\<close> and \<^verbatim>\<open>PersistentState\<close>
  (include/uavcan/protocol/dynamic_node_id_server/distributed/log.hpp, persistent_state.hpp).  Both keep their
  state in memory and in the storage; the storage is passed along.
\<close>

section \<open>Log\<close>

type_synonym raft_term = u32

record raft_entry =
  en_term :: raft_term
  en_unique_id :: unique_id
  en_node_id :: u8

definition Entry :: raft_entry where
  "Entry = \<lparr>en_term = 0, en_unique_id = replicate UniqueID_MaxSize 0, en_node_id = 0\<rparr>"

definition lg_Capacity :: nat where
  "lg_Capacity = unat node_id_Max + 1"

record raft_log =
  lg_entries :: "raft_entry list"
  lg_last_index :: u8

definition Log :: raft_log where
  "Log = \<lparr>lg_entries = replicate lg_Capacity Entry, lg_last_index = 0\<rparr>"

definition lg_getLastIndexKey :: string where
  "lg_getLastIndexKey = ''log_last_index''"

definition lg_makeEntryKey :: "nat \<Rightarrow> string \<Rightarrow> string" where
  "lg_makeEntryKey index postfix = ''log'' @ format_dec index @ ''_'' @ postfix"

text \<open>The output argument keeps the fields that were read before an error.\<close>

definition lg_readEntryFromStorage :: "'b storage_backend \<Rightarrow> 'b \<Rightarrow> nat \<Rightarrow> raft_entry \<Rightarrow> uavcan_error option \<times> raft_entry" where
  "lg_readEntryFromStorage B b index out_entry =
    (case sm_get B b (lg_makeEntryKey index ''term'') of
       None \<Rightarrow> (Some ErrFailure, out_entry)
     | Some t \<Rightarrow>
         (let out_entry = out_entry\<lparr>en_term := t\<rparr>
          in case sm_get_uid B b (lg_makeEntryKey index ''unique_id'') of
               None \<Rightarrow> (Some ErrFailure, out_entry)
             | Some u \<Rightarrow>
                 (let out_entry = out_entry\<lparr>en_unique_id := u\<rparr>
                  in case sm_get B b (lg_makeEntryKey index ''node_id'') of
                       None \<Rightarrow> (Some ErrFailure, out_entry)
                     | Some node_id \<Rightarrow>
                         if node_id > ucast node_id_Max then (Some ErrFailure, out_entry)
                         else (None, out_entry\<lparr>en_node_id := ucast node_id\<rparr>))))"

definition lg_writeEntryToStorage :: "'b storage_backend \<Rightarrow> nat \<Rightarrow> raft_entry \<Rightarrow> 'b \<Rightarrow> uavcan_error option \<times> 'b" where
  "lg_writeEntryToStorage B index entry b =
    (case sm_setAndGetBack B (lg_makeEntryKey index ''term'') (en_term entry) b of
       (None, b) \<Rightarrow> (Some ErrFailure, b)
     | (Some t, b) \<Rightarrow>
         (case sm_setAndGetBack_uid B (lg_makeEntryKey index ''unique_id'') (en_unique_id entry) b of
            (None, b) \<Rightarrow> (Some ErrFailure, b)
          | (Some u, b) \<Rightarrow>
              (case sm_setAndGetBack B (lg_makeEntryKey index ''node_id'') (ucast (en_node_id entry)) b of
                 (None, b) \<Rightarrow> (Some ErrFailure, b)
               | (Some node_id, b) \<Rightarrow>
                   (if \<lparr>en_term = t, en_unique_id = u, en_node_id = ucast node_id\<rparr> = entry then None
                    else Some ErrFailure, b))))"

definition lg_initEmptyLogStorage :: "'b storage_backend \<Rightarrow> raft_log \<times> 'b \<Rightarrow> uavcan_error option \<times> raft_log \<times> 'b" where
  "lg_initEmptyLogStorage B lb =
    (let (l, b) = lb; l = l\<lparr>lg_entries := (lg_entries l)[0 := Entry]\<rparr>
     in case lg_writeEntryToStorage B 0 (lg_entries l ! 0) b of
          (Some e, b) \<Rightarrow> (Some e, l, b)
        | (None, b) \<Rightarrow>
            (let l = l\<lparr>lg_last_index := 0\<rparr>
             in case sm_setAndGetBack B lg_getLastIndexKey 0 b of
                  (None, b) \<Rightarrow> (Some ErrFailure, l, b)
                | (Some stored_index, b) \<Rightarrow> (if stored_index \<noteq> 0 then Some ErrFailure else None, l, b)))"

fun lg_restore_loop :: "'b storage_backend \<Rightarrow> 'b \<Rightarrow> nat list \<Rightarrow> raft_log \<Rightarrow> uavcan_error option \<times> raft_log" where
  "lg_restore_loop B b [] l = (None, l)"
| "lg_restore_loop B b (index # is) l =
    (let (r, e) = lg_readEntryFromStorage B b index (lg_entries l ! index);
         l = l\<lparr>lg_entries := (lg_entries l)[index := e]\<rparr>
     in if r \<noteq> None then (r, l) else lg_restore_loop B b is l)"

definition lg_init :: "'b storage_backend \<Rightarrow> raft_log \<times> 'b \<Rightarrow> uavcan_error option \<times> raft_log \<times> 'b" where
  "lg_init B lb =
    (let (l, b) = lb
     in case sm_get B b lg_getLastIndexKey of
          None \<Rightarrow>
            if st_get B b lg_getLastIndexKey = [] then lg_initEmptyLogStorage B (l, b)
            else (Some ErrFailure, l, b)
        | Some v \<Rightarrow>
            if unat v \<ge> lg_Capacity then (Some ErrFailure, l, b)
            else
              (let (r, l) = lg_restore_loop B b [0..<Suc (unat v)] (l\<lparr>lg_last_index := ucast v\<rparr>) in (r, l, b)))"

definition lg_append :: "'b storage_backend \<Rightarrow> raft_entry \<Rightarrow> raft_log \<times> 'b \<Rightarrow> uavcan_error option \<times> raft_log \<times> 'b" where
  "lg_append B entry lb =
    (let (l, b) = lb; next = unat (lg_last_index l) + 1
     in if next \<ge> lg_Capacity then (Some ErrLogic, l, b)
        else
          (case lg_writeEntryToStorage B next entry b of
             (Some e, b) \<Rightarrow> (Some e, l, b)
           | (None, b) \<Rightarrow>
               (case sm_setAndGetBack B lg_getLastIndexKey (word_of_nat next) b of
                  (None, b) \<Rightarrow> (Some ErrFailure, l, b)
                | (Some new_last_index, b) \<Rightarrow>
                    if new_last_index \<noteq> word_of_nat next then (Some ErrFailure, l, b)
                    else (None, \<lparr>lg_entries = (lg_entries l)[unat new_last_index := entry],
                                 lg_last_index = ucast new_last_index\<rparr>, b))))"

definition lg_removeEntriesWhereIndexGreaterOrEqual ::
  "'b storage_backend \<Rightarrow> u8 \<Rightarrow> raft_log \<times> 'b \<Rightarrow> uavcan_error option \<times> raft_log \<times> 'b" where
  "lg_removeEntriesWhereIndexGreaterOrEqual B index lb =
    (let (l, b) = lb
     in if unat index \<ge> lg_Capacity \<or> index \<le> 0 then (Some ErrLogic, l, b)
        else
          (let new_last_index = ucast index - 1 :: u32
           in if new_last_index \<noteq> ucast (lg_last_index l) then
                (case sm_setAndGetBack B lg_getLastIndexKey new_last_index b of
                   (None, b) \<Rightarrow> (Some ErrFailure, l, b)
                 | (Some v, b) \<Rightarrow>
                     if v \<noteq> ucast index - 1 then (Some ErrFailure, l, b)
                     else (None, l\<lparr>lg_last_index := ucast v\<rparr>, b))
              else (None, l, b)))"

definition lg_removeEntriesWhereIndexGreater ::
  "'b storage_backend \<Rightarrow> u8 \<Rightarrow> raft_log \<times> 'b \<Rightarrow> uavcan_error option \<times> raft_log \<times> 'b" where
  "lg_removeEntriesWhereIndexGreater B index lb = lg_removeEntriesWhereIndexGreaterOrEqual B (index + 1) lb"

definition lg_getEntryAtIndex :: "u8 \<Rightarrow> raft_log \<Rightarrow> raft_entry option" where
  "lg_getEntryAtIndex index l = (if index \<le> lg_last_index l then Some (lg_entries l ! unat index) else None)"

definition lg_isOtherLogUpToDate :: "u8 \<Rightarrow> raft_term \<Rightarrow> raft_log \<Rightarrow> bool" where
  "lg_isOtherLogUpToDate other_last_index other_last_term l =
    (let my_last_term = en_term (lg_entries l ! unat (lg_last_index l))
     in if other_last_term \<noteq> my_last_term then other_last_term > my_last_term
        else other_last_index \<ge> lg_last_index l)"

section \<open>PersistentState\<close>

record persistent_state =
  ps_current_term :: raft_term
  ps_voted_for :: node_id
  ps_log :: raft_log

definition PersistentState :: persistent_state where
  "PersistentState = \<lparr>ps_current_term = 0, ps_voted_for = node_id_invalid, ps_log = Log\<rparr>"

definition ps_getCurrentTermKey :: string where
  "ps_getCurrentTermKey = ''current_term''"

definition ps_getVotedForKey :: string where
  "ps_getVotedForKey = ''voted_for''"

definition ps_init_term ::
  "'b storage_backend \<Rightarrow> bool \<Rightarrow> persistent_state \<times> 'b \<Rightarrow> uavcan_error option \<times> persistent_state \<times> 'b" where
  "ps_init_term B log_is_empty pb =
    (let (p, b) = pb
     in if st_get B b ps_getCurrentTermKey = [] \<and> log_is_empty then
          (case sm_setAndGetBack B ps_getCurrentTermKey 0 b of
             (None, b) \<Rightarrow> (Some ErrFailure, p\<lparr>ps_current_term := 0\<rparr>, b)
           | (Some t, b) \<Rightarrow> (if t \<noteq> 0 then Some ErrFailure else None, p\<lparr>ps_current_term := t\<rparr>, b))
        else
          (case sm_get B b ps_getCurrentTermKey of
             None \<Rightarrow> (Some ErrFailure, p, b)
           | Some t \<Rightarrow> (None, p\<lparr>ps_current_term := t\<rparr>, b)))"

definition ps_init_voted_for ::
  "'b storage_backend \<Rightarrow> bool \<Rightarrow> persistent_state \<times> 'b \<Rightarrow> uavcan_error option \<times> persistent_state \<times> 'b" where
  "ps_init_voted_for B log_is_empty pb =
    (let (p, b) = pb
     in if st_get B b ps_getVotedForKey = [] \<and> log_is_empty \<and> ps_current_term p = 0 then
          (let p = p\<lparr>ps_voted_for := 0\<rparr>
           in case sm_setAndGetBack B ps_getVotedForKey 0 b of
                (None, b) \<Rightarrow> (Some ErrFailure, p, b)
              | (Some stored, b) \<Rightarrow> (if stored \<noteq> 0 then Some ErrFailure else None, p, b))
        else
          (case sm_get B b ps_getVotedForKey of
             None \<Rightarrow> (Some ErrFailure, p, b)
           | Some stored \<Rightarrow>
               if stored > ucast node_id_Max then (Some ErrInvalidConfiguration, p, b)
               else (None, p\<lparr>ps_voted_for := ucast stored\<rparr>, b)))"

definition ps_init ::
  "'b storage_backend \<Rightarrow> persistent_state \<times> 'b \<Rightarrow> uavcan_error option \<times> persistent_state \<times> 'b" where
  "ps_init B pb =
    (let (p, b) = pb; (r, l, b) = lg_init B (ps_log p, b); p = p\<lparr>ps_log := l\<rparr>
     in if r \<noteq> None then (r, p, b)
        else
          (case lg_getEntryAtIndex (lg_last_index l) l of
             None \<Rightarrow> (Some ErrLogic, p, b)
           | Some last_entry \<Rightarrow>
               (let log_is_empty = (lg_last_index l = 0 \<and> en_term last_entry = 0);
                    (r, p, b) = ps_init_term B log_is_empty (p, b)
                in if r \<noteq> None then (r, p, b)
                   else if ps_current_term p < en_term last_entry then (Some ErrLogic, p, b)
                   else ps_init_voted_for B log_is_empty (p, b))))"

definition ps_isVotedForSet :: "persistent_state \<Rightarrow> bool" where
  "ps_isVotedForSet p \<longleftrightarrow> node_id_isUnicast (ps_voted_for p)"

definition ps_setCurrentTerm ::
  "'b storage_backend \<Rightarrow> raft_term \<Rightarrow> persistent_state \<times> 'b \<Rightarrow> uavcan_error option \<times> persistent_state \<times> 'b" where
  "ps_setCurrentTerm B t pb =
    (let (p, b) = pb
     in if t < ps_current_term p then (Some ErrInvalidParam, p, b)
        else
          (case sm_setAndGetBack B ps_getCurrentTermKey t b of
             (None, b) \<Rightarrow> (Some ErrFailure, p, b)
           | (Some tmp, b) \<Rightarrow>
               if tmp \<noteq> t then (Some ErrFailure, p, b) else (None, p\<lparr>ps_current_term := t\<rparr>, b)))"

definition ps_setVotedFor ::
  "'b storage_backend \<Rightarrow> node_id \<Rightarrow> persistent_state \<times> 'b \<Rightarrow> uavcan_error option \<times> persistent_state \<times> 'b" where
  "ps_setVotedFor B nid pb =
    (let (p, b) = pb
     in if \<not> node_id_isValid nid then (Some ErrInvalidParam, p, b)
        else
          (case sm_setAndGetBack B ps_getVotedForKey (ucast nid) b of
             (None, b) \<Rightarrow> (Some ErrFailure, p, b)
           | (Some tmp, b) \<Rightarrow>
               if ucast nid \<noteq> tmp then (Some ErrFailure, p, b) else (None, p\<lparr>ps_voted_for := nid\<rparr>, b)))"

definition ps_resetVotedFor ::
  "'b storage_backend \<Rightarrow> persistent_state \<times> 'b \<Rightarrow> uavcan_error option \<times> persistent_state \<times> 'b" where
  "ps_resetVotedFor B pb = ps_setVotedFor B 0 pb"

section \<open>The storage holds the state\<close>

lemma format_dec_digits: "c \<in> set (format_dec n) \<Longrightarrow> is_dec_char c"
  using format_dec_chars [of n] by (simp add: list_all_iff)

lemma format_dec_inj: "format_dec m = format_dec n \<Longrightarrow> m = n"
proof (induction m arbitrary: n rule: format_dec.induct)
  case (1 m)
  have d: "dec_digit x = dec_digit y \<Longrightarrow> x < 10 \<Longrightarrow> y < 10 \<Longrightarrow> x = y" for x y
    using arg_cong [of "dec_digit x" "dec_digit y" of_char] by (simp add: dec_digit_def)
  show ?case
  proof (cases "m < 10")
    case True
    then have "n < 10" using 1(2) format_dec_chars [of "n div 10"]
      by (cases "n < 10") (auto simp: format_dec.simps [of m] format_dec.simps [of n])
    then show ?thesis using True 1(2) d [of m n] by (simp add: format_dec.simps [of m] format_dec.simps [of n])
  next
    case False
    then have n: "\<not> n < 10" using 1(2) format_dec_chars [of "m div 10"]
      by (cases "n < 10") (auto simp: format_dec.simps [of m] format_dec.simps [of n])
    then have "format_dec (m div 10) = format_dec (n div 10)" "dec_digit (m mod 10) = dec_digit (n mod 10)"
      using 1(2) False by (simp_all add: format_dec.simps [of m] format_dec.simps [of n])
    then have "m div 10 = n div 10" "m mod 10 = n mod 10" using 1(1) [OF False] d [of "m mod 10" "n mod 10"] by auto
    then show ?thesis by (metis div_mult_mod_eq)
  qed
qed

lemma entry_key_inj: "lg_makeEntryKey i p = lg_makeEntryKey j q \<longleftrightarrow> i = j \<and> p = q"
proof
  assume a: "lg_makeEntryKey i p = lg_makeEntryKey j q"
  have t: "takeWhile is_dec_char (format_dec n @ CHR ''_'' # r) = format_dec n" for n r
    by (subst takeWhile_append2) (auto simp: format_dec_digits, simp add: is_dec_char_def)
  have e: "format_dec i @ CHR ''_'' # p = format_dec j @ CHR ''_'' # q" using a by (simp add: lg_makeEntryKey_def)
  then have "format_dec i = format_dec j" by (metis t)
  then show "i = j \<and> p = q" using e format_dec_inj by simp
qed simp

lemma last_key_entry: "lg_getLastIndexKey \<noteq> lg_makeEntryKey i p"
proof
  assume "lg_getLastIndexKey = lg_makeEntryKey i p"
  then have "CHR ''_'' # ''last_index'' = format_dec i @ CHR ''_'' # p" by (simp add: lg_getLastIndexKey_def lg_makeEntryKey_def)
  then have "hd (format_dec i) = CHR ''_''" using format_dec_chars [of i] by (cases "format_dec i") auto
  then have "is_dec_char (CHR ''_'')" using format_dec_chars [of i] format_dec_digits [of "hd (format_dec i)" i] hd_in_set [of "format_dec i"] by simp
  then show False by (simp add: is_dec_char_def)
qed

definition is_log_key :: "string \<Rightarrow> bool" where
  "is_log_key k \<longleftrightarrow> take 3 k = ''log''"

lemma log_keys [simp]:
  "is_log_key (lg_makeEntryKey i p)" "is_log_key lg_getLastIndexKey"
  "\<not> is_log_key ps_getCurrentTermKey" "\<not> is_log_key ps_getVotedForKey"
  by (simp_all add: is_log_key_def lg_makeEntryKey_def lg_getLastIndexKey_def ps_getCurrentTermKey_def ps_getVotedForKey_def)

lemma key_lengths:
  "i < 128 \<Longrightarrow> length p \<le> 9 \<Longrightarrow> length (lg_makeEntryKey i p) \<le> 32" "length lg_getLastIndexKey \<le> 32"
  "length ps_getCurrentTermKey \<le> 32" "length ps_getVotedForKey \<le> 32"
  using length_format_dec [of i 2]
  by (auto simp: lg_makeEntryKey_def lg_getLastIndexKey_def ps_getCurrentTermKey_def ps_getVotedForKey_def)

definition lg_list :: "raft_log \<Rightarrow> raft_entry list" where
  "lg_list l = take (Suc (unat (lg_last_index l))) (lg_entries l)"

definition entry_valid :: "raft_entry \<Rightarrow> bool" where
  "entry_valid e \<longleftrightarrow> length (en_unique_id e) = UniqueID_MaxSize \<and> node_id_isValid (en_node_id e)"

definition entry_stored :: "'b storage_backend \<Rightarrow> 'b \<Rightarrow> nat \<Rightarrow> raft_entry \<Rightarrow> bool" where
  "entry_stored B b i e \<longleftrightarrow> (\<forall>e0. lg_readEntryFromStorage B b i e0 = (None, e))"

definition log_stored :: "'b storage_backend \<Rightarrow> 'b \<Rightarrow> raft_log \<Rightarrow> bool" where
  "log_stored B b l \<longleftrightarrow> length (lg_entries l) = lg_Capacity \<and> unat (lg_last_index l) < lg_Capacity \<and>
    sm_get B b lg_getLastIndexKey = Some (ucast (lg_last_index l)) \<and>
    (\<forall>i \<le> unat (lg_last_index l). entry_stored B b i (lg_entries l ! i))"

lemma lg_Capacity_eq [simp]: "lg_Capacity = 128"
  by (simp add: lg_Capacity_def)

lemma read_entry_eq:
  assumes "lg_readEntryFromStorage B b i e0 = (None, e)"
  shows "entry_stored B b i e"
proof -
  obtain t u n where g: "sm_get B b (lg_makeEntryKey i ''term'') = Some t" "sm_get_uid B b (lg_makeEntryKey i ''unique_id'') = Some u"
    "sm_get B b (lg_makeEntryKey i ''node_id'') = Some n" "n \<le> ucast node_id_Max"
    using assms by (auto simp: lg_readEntryFromStorage_def Let_def split: option.splits if_splits)
  then have "lg_readEntryFromStorage B b i e1 = (None, \<lparr>en_term = t, en_unique_id = u, en_node_id = ucast n\<rparr>)" for e1
    by (simp add: lg_readEntryFromStorage_def Let_def not_less)
  then show ?thesis using assms by (simp add: entry_stored_def)
qed

lemma entry_stored_other:
  assumes "\<forall>p. st_get B b' (lg_makeEntryKey i p) = st_get B b (lg_makeEntryKey i p)"
  shows "entry_stored B b' i e = entry_stored B b i e"
proof -
  have eqs: "sm_get B b' (lg_makeEntryKey i p) = sm_get B b (lg_makeEntryKey i p)"
    "sm_get_uid B b' (lg_makeEntryKey i p) = sm_get_uid B b (lg_makeEntryKey i p)" for p
    using assms sm_get_other [of B b' _ b] sm_get_uid_other [of B b' _ b] by blast+
  show ?thesis unfolding entry_stored_def lg_readEntryFromStorage_def eqs ..
qed

lemma write_entry:
  assumes "storage_reliable B" and "entry_valid e" and "i < 128"
  obtains b' where "lg_writeEntryToStorage B i e b = (None, b')" "entry_stored B b' i e"
    "\<forall>k. (\<forall>p. k \<noteq> lg_makeEntryKey i p) \<longrightarrow> st_get B b' k = st_get B b k"
proof -
  let ?t = "lg_makeEntryKey i ''term''" and ?u = "lg_makeEntryKey i ''unique_id''" and ?n = "lg_makeEntryKey i ''node_id''"
  have len: "length ?t \<le> 32" "length ?u \<le> 32" "length ?n \<le> 32" using key_lengths(1) [OF assms(3)] by simp_all
  have ne: "?t \<noteq> ?u" "?t \<noteq> ?n" "?u \<noteq> ?n" by (simp_all add: entry_key_inj)
  have v: "length (en_unique_id e) = UniqueID_MaxSize" "en_node_id e \<le> 127"
    using assms(2) by (auto simp: entry_valid_def node_id_isValid_def)
  obtain r1 b1 where s1: "sm_setAndGetBack B ?t (en_term e) b = (r1, b1)" by fastforce
  obtain r2 b2 where s2: "sm_setAndGetBack_uid B ?u (en_unique_id e) b1 = (r2, b2)" by fastforce
  obtain r3 b3 where s3: "sm_setAndGetBack B ?n (ucast (en_node_id e)) b2 = (r3, b3)" by fastforce
  note g1 = setAndGetBack_reliable [OF assms(1) len(1) s1]
  note g2 = setAndGetBack_uid_reliable [OF assms(1) len(2) v(1) s2]
  note g3 = setAndGetBack_reliable [OF assms(1) len(3) s3]
  have u: "ucast (ucast (en_node_id e) :: u32) = en_node_id e" by (rule bit_word_eqI) (simp add: bit_simps)
  have w: "lg_writeEntryToStorage B i e b = (None, b3)"
    using g1 g2 g3 s1 s2 s3 u by (simp add: lg_writeEntryToStorage_def)
  have "sm_get B b3 ?t = Some (en_term e)" "sm_get_uid B b3 ?u = Some (en_unique_id e)"
    using g1 g2 g3 ne sm_get_other [of B b3 ?t b1] sm_get_uid_other [of B b3 ?u b2] by (metis, metis)
  moreover have "(ucast (en_node_id e) :: u32) \<le> ucast (127 :: u8)"
    using v(2) order_trans [OF take_bit_nat_less_eq_self] by (simp add: word_le_nat_alt unsigned_ucast_eq)
  ultimately have "lg_readEntryFromStorage B b3 i e0 = (None, e)" for e0
    using g3 u by (simp add: lg_readEntryFromStorage_def Let_def not_less)
  then have "entry_stored B b3 i e" by (simp add: entry_stored_def)
  moreover have "\<forall>k. (\<forall>p. k \<noteq> lg_makeEntryKey i p) \<longrightarrow> st_get B b3 k = st_get B b k" using g1 g2 g3 by metis
  ultimately show ?thesis using w that by blast
qed

lemma log_stored_bounds:
  assumes "log_stored B b l"
  shows "unat (lg_last_index l) < 128" "length (lg_entries l) = 128" "length (lg_list l) = Suc (unat (lg_last_index l))"
    "lg_getEntryAtIndex i l = (if unat i < length (lg_list l) then Some (lg_list l ! unat i) else None)"
  using assms by (auto simp: log_stored_def lg_list_def lg_getEntryAtIndex_def word_le_nat_alt)

text \<open>A log is not affected by what is written for indices beyond its end, or for other keys.\<close>

lemma log_stored_other:
  assumes "log_stored B b l" and "st_get B b' lg_getLastIndexKey = st_get B b lg_getLastIndexKey"
    and "\<And>i p. i \<le> unat (lg_last_index l) \<Longrightarrow> st_get B b' (lg_makeEntryKey i p) = st_get B b (lg_makeEntryKey i p)"
  shows "log_stored B b' l"
  using assms sm_get_other [OF assms(2)] entry_stored_other [of B b' _ b] by (simp add: log_stored_def)

lemma small_index:
  assumes "n < 128"
  shows "unat (word_of_nat n :: u32) = n" "unat (ucast (word_of_nat n :: u32) :: u8) = n"
    "ucast (ucast (word_of_nat n :: u32) :: u8) = (word_of_nat n :: u32)"
proof -
  show n: "unat (word_of_nat n :: u32) = n" "unat (ucast (word_of_nat n :: u32) :: u8) = n"
    using assms by (simp_all add: unat_of_nat unsigned_ucast_eq take_bit_nat_eq_self)
  show "ucast (ucast (word_of_nat n :: u32) :: u8) = (word_of_nat n :: u32)"
  proof (rule unsigned_word_eqI)
    have "unat (ucast (x :: u8) :: u32) = unat x" for x
      using unat_u8_lt [of x] by (simp add: unsigned_ucast_eq take_bit_nat_eq_self)
    then show "unat (ucast (ucast (word_of_nat n :: u32) :: u8) :: u32) = unat (word_of_nat n :: u32)" using n by simp
  qed
qed

lemma lg_append_stored:
  assumes "storage_reliable B" and "log_stored B b l" and "entry_valid e" and "lg_append B e (l, b) = (r, l', b')"
  shows "if unat (lg_last_index l) + 1 \<ge> 128 then r = Some ErrLogic \<and> l' = l \<and> b' = b
    else r = None \<and> lg_list l' = lg_list l @ [e] \<and> log_stored B b' l' \<and>
      (\<forall>k. \<not> is_log_key k \<longrightarrow> st_get B b' k = st_get B b k)"
proof (cases "unat (lg_last_index l) + 1 \<ge> 128")
  case True
  then show ?thesis using assms(4) by (simp add: lg_append_def)
next
  case False
  define n where "n = unat (lg_last_index l) + 1"
  have n: "n < 128" using False by (simp add: n_def)
  note l = log_stored_bounds [OF assms(2)]
  obtain b1 where w: "lg_writeEntryToStorage B n e b = (None, b1)" "entry_stored B b1 n e"
    "\<forall>k. (\<forall>p. k \<noteq> lg_makeEntryKey n p) \<longrightarrow> st_get B b1 k = st_get B b k"
    by (rule write_entry [OF assms(1,3) n]) blast
  obtain r2 b2 where s: "sm_setAndGetBack B lg_getLastIndexKey (word_of_nat n) b1 = (r2, b2)" by fastforce
  note g = setAndGetBack_reliable [OF assms(1) key_lengths(2) s]
  note u = small_index [OF n]
  have out: "r = None" "b' = b2" "l' = \<lparr>lg_entries = (lg_entries l)[n := e], lg_last_index = ucast (word_of_nat n :: u32)\<rparr>"
    using assms(4) w(1) s g n u unfolding lg_append_def Let_def prod.case n_def [symmetric] by auto
  have ek: "st_get B b2 (lg_makeEntryKey i p) = st_get B b1 (lg_makeEntryKey i p)" for i p
    using g last_key_entry [of i p] by metis
  have "entry_stored B b2 i ((lg_entries l)[n := e] ! i)" if i: "i \<le> n" for i
  proof (cases "i = n")
    case True
    then show ?thesis using w(2) entry_stored_other [of B b2 n b1] ek l n by simp
  next
    case False
    have "st_get B b1 (lg_makeEntryKey i p) = st_get B b (lg_makeEntryKey i p)" for p using w(3) False by (simp add: entry_key_inj)
    then show ?thesis using False i assms(2) entry_stored_other [of B b2 i b] ek by (simp add: log_stored_def n_def)
  qed
  then have "log_stored B b2 l'" using out u l n g
    by (simp add: log_stored_def)
  moreover have "lg_list l' = lg_list l @ [e]"
  proof -
    have "take (Suc n) ((lg_entries l)[n := e]) = take n (lg_entries l) @ [e]"
      using n l(2) by (simp add: take_Suc_conv_app_nth)
    moreover have "lg_list l = take n (lg_entries l)" by (simp add: lg_list_def n_def)
    ultimately show ?thesis using out u by (simp add: lg_list_def)
  qed
  moreover have "\<forall>k. \<not> is_log_key k \<longrightarrow> st_get B b2 k = st_get B b k" using g w(3) log_keys by metis
  ultimately show ?thesis using False out by simp
qed

lemma lg_remove_stored:
  assumes "storage_reliable B" and "log_stored B b l" and "0 < i" and "unat i \<le> length (lg_list l)" and "unat i < 128"
    and "lg_removeEntriesWhereIndexGreaterOrEqual B i (l, b) = (r, l', b')"
  shows "r = None \<and> lg_list l' = take (unat i) (lg_list l) \<and> log_stored B b' l' \<and>
    (\<forall>k. \<not> is_log_key k \<longrightarrow> st_get B b' k = st_get B b k)"
proof -
  note l = log_stored_bounds [OF assms(2)]
  define n where "n = unat i - 1"
  have i: "unat i = Suc n" using assms(3) by (simp add: n_def word_gt_0 unat_gt_0)
  then have n: "n < 128" "n \<le> unat (lg_last_index l)" using assms(4,5) l(3) by simp_all
  note u = small_index [OF n(1)]
  have "ucast i = (word_of_nat (unat i) :: u32)" by (rule bit_word_eqI) (simp add: bit_simps)
  then have c: "(ucast i - 1 :: u32) = word_of_nat n" by (simp add: i)
  have z: "\<not> i \<le> 0" "\<not> unat i \<ge> lg_Capacity" using assms(3,5) by auto
  have nl: "word_of_nat n = (ucast (lg_last_index l) :: u32) \<longleftrightarrow> n = unat (lg_last_index l)"
    using u(1) l(1) by (auto simp: unsigned_ucast_eq take_bit_nat_eq_self word_unat_eq_iff)
  have tk: "take (Suc n) (take (Suc (unat (lg_last_index l))) (lg_entries l)) = take (Suc n) (lg_entries l)"
    using n(2) by (simp add: min_def)
  show ?thesis
  proof (cases "n = unat (lg_last_index l)")
    case True
    then have "r = None" "l' = l" "b' = b"
      using assms(6) z nl unfolding lg_removeEntriesWhereIndexGreaterOrEqual_def Let_def c by auto
    then show ?thesis using assms(2) True i by (simp add: lg_list_def)
  next
    case False
    obtain r2 b2 where s: "sm_setAndGetBack B lg_getLastIndexKey (word_of_nat n) b = (r2, b2)" by fastforce
    note g = setAndGetBack_reliable [OF assms(1) key_lengths(2) s]
    have out: "r = None" "b' = b2" "l' = l\<lparr>lg_last_index := ucast (word_of_nat n :: u32)\<rparr>"
      using assms(6) z nl False s g unfolding lg_removeEntriesWhereIndexGreaterOrEqual_def Let_def c by auto
    have "st_get B b2 (lg_makeEntryKey j p) = st_get B b (lg_makeEntryKey j p)" for j p
      using g last_key_entry [of j p] by metis
    then have "log_stored B b2 l'"
      using assms(2) out u g n entry_stored_other [of B b2 _ b] by (simp add: log_stored_def)
    moreover have "lg_list l' = take (unat i) (lg_list l)" using out u i tk by (simp add: lg_list_def)
    moreover have "\<forall>k. \<not> is_log_key k \<longrightarrow> st_get B b2 k = st_get B b k" using g log_keys by metis
    ultimately show ?thesis using out by simp
  qed
qed

lemma lg_restore_loop_spec:
  assumes "distinct is" and "\<forall>i \<in> set is. i < length (lg_entries l)" and "lg_restore_loop B b is l = (None, l')"
  shows "lg_last_index l' = lg_last_index l \<and> length (lg_entries l') = length (lg_entries l) \<and>
    (\<forall>i. i \<notin> set is \<longrightarrow> lg_entries l' ! i = lg_entries l ! i) \<and> (\<forall>i \<in> set is. entry_stored B b i (lg_entries l' ! i))"
  using assms
proof (induction "is" arbitrary: l)
  case (Cons i "is")
  obtain r e where e: "lg_readEntryFromStorage B b i (lg_entries l ! i) = (r, e)" by fastforce
  have r: "r = None" "lg_restore_loop B b is (l\<lparr>lg_entries := (lg_entries l)[i := e]\<rparr>) = (None, l')"
    using Cons.prems(3) e by (auto simp: Let_def split: if_splits)
  have "entry_stored B b i e" using read_entry_eq e r by simp
  then show ?case using Cons.IH [OF _ _ r(2)] Cons.prems(1,2) by auto
qed simp

lemma lg_restore_loop_succeeds:
  "\<forall>i \<in> set is. \<exists>e. entry_stored B b i e \<Longrightarrow> \<exists>l'. lg_restore_loop B b is l = (None, l')"
  by (induction "is" arbitrary: l) (auto simp: entry_stored_def)

lemma entry_stored_unique: "entry_stored B b i e \<Longrightarrow> entry_stored B b i e' \<Longrightarrow> e = e'"
  by (simp add: entry_stored_def)

lemma lg_init_restores:
  assumes "log_stored B b l" and "length (lg_entries l0) = 128"
  shows "\<exists>l'. lg_init B (l0, b) = (None, l', b) \<and> lg_list l' = lg_list l \<and> lg_last_index l' = lg_last_index l \<and> log_stored B b l'"
proof -
  note l = log_stored_bounds [OF assms(1)]
  let ?v = "ucast (lg_last_index l) :: u32" and ?is = "[0..<Suc (unat (lg_last_index l))]"
  have u: "unat ?v = unat (lg_last_index l)" using l(1) by (simp add: unsigned_ucast_eq take_bit_nat_eq_self)
  have ucid: "ucast ?v = lg_last_index l" by (rule bit_word_eqI) (simp add: bit_simps)
  have "\<forall>i \<in> set ?is. \<exists>e. entry_stored B b i e" using assms(1) unfolding log_stored_def
    by (metis atLeastLessThan_iff less_Suc_eq_le set_upt)
  from lg_restore_loop_succeeds [OF this, of "l0\<lparr>lg_last_index := lg_last_index l\<rparr>"]
  obtain l' where r: "lg_restore_loop B b ?is (l0\<lparr>lg_last_index := lg_last_index l\<rparr>) = (None, l')" by blast
  have sp: "lg_last_index l' = lg_last_index l" "length (lg_entries l') = 128"
    "\<forall>i \<in> set ?is. entry_stored B b i (lg_entries l' ! i)"
    using lg_restore_loop_spec [OF _ _ r] l assms(2) by auto
  have "lg_entries l' ! i = lg_entries l ! i" if "i \<le> unat (lg_last_index l)" for i
  proof (rule entry_stored_unique [of B b i])
    have "i \<in> set ?is" using that by auto
    then show "entry_stored B b i (lg_entries l' ! i)" using sp(3) by blast
    show "entry_stored B b i (lg_entries l ! i)" using that assms(1) by (simp add: log_stored_def)
  qed
  then have "lg_list l' = lg_list l" using sp(1,2) l by (intro nth_equalityI) (auto simp: lg_list_def)
  moreover have "lg_init B (l0, b) = (None, l', b)"
    using assms(1) l r u ucid by (simp add: lg_init_def log_stored_def)
  moreover have "log_stored B b l'" using sp assms(1) by (auto simp: log_stored_def)
  ultimately show ?thesis using sp(1) by blast
qed

lemma lg_init_stored:
  assumes "storage_reliable B" and "length (lg_entries l0) = 128" and "lg_init B (l0, b) = (None, l', b')"
  shows "log_stored B b' l' \<and> (\<forall>k. \<not> is_log_key k \<longrightarrow> st_get B b' k = st_get B b k)"
proof (cases "sm_get B b lg_getLastIndexKey")
  case None
  then have e: "lg_initEmptyLogStorage B (l0, b) = (None, l', b')"
    using assms(3) by (auto simp: lg_init_def split: if_splits)
  have ev: "entry_valid Entry" by (simp add: entry_valid_def Entry_def node_id_isValid_def)
  obtain b1 where w: "lg_writeEntryToStorage B 0 Entry b = (None, b1)" "entry_stored B b1 0 Entry"
    "\<forall>k. (\<forall>p. k \<noteq> lg_makeEntryKey 0 p) \<longrightarrow> st_get B b1 k = st_get B b k"
    by (rule write_entry [OF assms(1) ev, of 0 b]) auto
  obtain r2 b2 where s: "sm_setAndGetBack B lg_getLastIndexKey 0 b1 = (r2, b2)" by fastforce
  note g = setAndGetBack_reliable [OF assms(1) key_lengths(2) s]
  have z: "(lg_entries l0)[0 := Entry] ! 0 = Entry" using assms(2) by simp
  have out: "b' = b2" "l' = \<lparr>lg_entries = (lg_entries l0)[0 := Entry], lg_last_index = 0\<rparr>"
    using e w(1) s g z by (auto simp: lg_initEmptyLogStorage_def Let_def)
  have "st_get B b2 (lg_makeEntryKey 0 p) = st_get B b1 (lg_makeEntryKey 0 p)" for p
    using g last_key_entry [of 0 p] by metis
  then have "log_stored B b' l'" using out assms(2) g w(2) entry_stored_other [of B b2 0 b1] z by (simp add: log_stored_def)
  moreover have "\<forall>k. \<not> is_log_key k \<longrightarrow> st_get B b' k = st_get B b k" using g w(3) log_keys out by metis
  ultimately show ?thesis by blast
next
  case (Some v)
  then have v: "unat v < 128" "b' = b" "lg_restore_loop B b [0..<Suc (unat v)] (l0\<lparr>lg_last_index := ucast v\<rparr>) = (None, l')"
    using assms(3) by (auto simp: lg_init_def split: if_splits prod.splits)
  have "v = word_of_nat (unat v)" by simp
  then have u: "unat (ucast v :: u8) = unat v" "ucast (ucast v :: u8) = v" using small_index [OF v(1)] by metis+
  show ?thesis using lg_restore_loop_spec [OF _ _ v(3)] Some v u assms(2) by (auto simp: log_stored_def)
qed

definition ps_same :: "persistent_state \<Rightarrow> persistent_state \<Rightarrow> bool" where
  "ps_same p q \<longleftrightarrow> ps_current_term p = ps_current_term q \<and> ps_voted_for p = ps_voted_for q \<and>
    lg_last_index (ps_log p) = lg_last_index (ps_log q) \<and> lg_list (ps_log p) = lg_list (ps_log q)"

definition ps_stored :: "'b storage_backend \<Rightarrow> 'b \<Rightarrow> persistent_state \<Rightarrow> bool" where
  "ps_stored B b p \<longleftrightarrow> log_stored B b (ps_log p) \<and>
    sm_get B b ps_getCurrentTermKey = Some (ps_current_term p) \<and>
    sm_get B b ps_getVotedForKey = Some (ucast (ps_voted_for p)) \<and> node_id_isValid (ps_voted_for p) \<and>
    (\<forall>e \<in> set (lg_list (ps_log p)). en_term e \<le> ps_current_term p)"

inductive ps_reachable :: "'b storage_backend \<Rightarrow> persistent_state \<times> 'b \<Rightarrow> bool" for B where
  ps_start: "(\<forall>k. st_get B b k = []) \<Longrightarrow> ps_init B (PersistentState, b) = (None, p, b') \<Longrightarrow> ps_reachable B (p, b')"
| ps_step_term: "ps_reachable B (p, b) \<Longrightarrow> ps_setCurrentTerm B t (p, b) = (r, p', b') \<Longrightarrow> ps_reachable B (p', b')"
| ps_step_vote: "ps_reachable B (p, b) \<Longrightarrow> ps_setVotedFor B nid (p, b) = (r, p', b') \<Longrightarrow> ps_reachable B (p', b')"
| ps_step_append: "ps_reachable B (p, b) \<Longrightarrow> entry_valid e \<Longrightarrow> en_term e \<le> ps_current_term p \<Longrightarrow>
    lg_append B e (ps_log p, b) = (r, l', b') \<Longrightarrow> ps_reachable B (p\<lparr>ps_log := l'\<rparr>, b')"
| ps_step_remove: "ps_reachable B (p, b) \<Longrightarrow> 0 < i \<Longrightarrow> unat i \<le> length (lg_list (ps_log p)) \<Longrightarrow> unat i < 128 \<Longrightarrow>
    lg_removeEntriesWhereIndexGreaterOrEqual B i (ps_log p, b) = (r, l', b') \<Longrightarrow> ps_reachable B (p\<lparr>ps_log := l'\<rparr>, b')"
| ps_restart: "ps_reachable B (p, b) \<Longrightarrow> ps_init B (PersistentState, b) = (r, p', b') \<Longrightarrow> ps_reachable B (p', b')"

lemma lg_last_entry:
  assumes "log_stored B b l"
  shows "lg_getEntryAtIndex (lg_last_index l) l = Some (last (lg_list l))" "lg_list l \<noteq> []"
proof -
  note l = log_stored_bounds [OF assms]
  show ne: "lg_list l \<noteq> []" using l(3) by auto
  show "lg_getEntryAtIndex (lg_last_index l) l = Some (last (lg_list l))" using l ne by (simp add: last_conv_nth)
qed

lemma sm_get_nonempty: "sm_get B b k = Some v \<Longrightarrow> st_get B b k \<noteq> []"
  by (auto simp: sm_get_def Let_def)

lemma voted_for_key_term: "ps_getVotedForKey \<noteq> ps_getCurrentTermKey"
  by (simp add: ps_getVotedForKey_def ps_getCurrentTermKey_def)

lemma ucast_node_id: "ucast (ucast (n :: u8) :: u32) = n"
  by (rule bit_word_eqI) (simp add: bit_simps)

lemma ucast_valid: "node_id_isValid n \<Longrightarrow> \<not> (ucast node_id_Max :: u32) < ucast n"
  using order_trans [OF take_bit_nat_less_eq_self, of "unat n" 127 32]
  by (simp add: node_id_isValid_def not_less word_le_nat_alt unsigned_ucast_eq)

lemma ps_init_restores:
  assumes "ps_stored B b p" and "length (lg_entries (ps_log p0)) = 128"
  shows "\<exists>p'. ps_init B (p0, b) = (None, p', b) \<and> ps_same p' p \<and> ps_stored B b p'"
proof -
  have s: "log_stored B b (ps_log p)" "sm_get B b ps_getCurrentTermKey = Some (ps_current_term p)"
    "sm_get B b ps_getVotedForKey = Some (ucast (ps_voted_for p))" "node_id_isValid (ps_voted_for p)"
    "\<forall>e \<in> set (lg_list (ps_log p)). en_term e \<le> ps_current_term p"
    using assms(1) by (auto simp: ps_stored_def)
  obtain l' where i: "lg_init B (ps_log p0, b) = (None, l', b)" "lg_list l' = lg_list (ps_log p)"
    "lg_last_index l' = lg_last_index (ps_log p)" "log_stored B b l'"
    using lg_init_restores [OF s(1) assms(2)] by blast
  note le = lg_last_entry [OF i(4)]
  have "en_term (last (lg_list l')) \<le> ps_current_term p" using s(5) i(2) le(2) by simp
  then have "ps_init B (p0, b) = (None, \<lparr>ps_current_term = ps_current_term p, ps_voted_for = ps_voted_for p, ps_log = l'\<rparr>, b)"
    using i(1) le(1) s sm_get_nonempty [OF s(2)] sm_get_nonempty [OF s(3)] ucast_valid [OF s(4)]
    by (simp add: ps_init_def ps_init_term_def ps_init_voted_for_def ucast_node_id Let_def not_less)
  then show ?thesis using s i by (auto simp: ps_same_def ps_stored_def)
qed

lemma ps_setCurrentTerm_stored:
  assumes "storage_reliable B" and "ps_stored B b p" and "ps_setCurrentTerm B t (p, b) = (r, p', b')"
  shows "if t < ps_current_term p then r = Some ErrInvalidParam \<and> p' = p \<and> b' = b
    else r = None \<and> p' = p\<lparr>ps_current_term := t\<rparr> \<and> ps_stored B b' p'"
proof (cases "t < ps_current_term p")
  case True
  then show ?thesis using assms(3) by (simp add: ps_setCurrentTerm_def)
next
  case False
  obtain r2 b2 where s: "sm_setAndGetBack B ps_getCurrentTermKey t b = (r2, b2)" by fastforce
  note g = setAndGetBack_reliable [OF assms(1) key_lengths(3) s]
  have out: "r = None" "p' = p\<lparr>ps_current_term := t\<rparr>" "b' = b2"
    using assms(3) s g False by (auto simp: ps_setCurrentTerm_def)
  have k: "st_get B b2 lg_getLastIndexKey = st_get B b lg_getLastIndexKey"
    "st_get B b2 (lg_makeEntryKey i q) = st_get B b (lg_makeEntryKey i q)"
    "st_get B b2 ps_getVotedForKey = st_get B b ps_getVotedForKey" for i q
    using g log_keys voted_for_key_term by metis+
  have "log_stored B b2 (ps_log p)" using assms(2) k(1,2) log_stored_other [of B b "ps_log p" b2] by (simp add: ps_stored_def)
  then show ?thesis using out g False assms(2) sm_get_other [OF k(3)]
    by (auto simp: ps_stored_def not_less intro: order_trans)
qed

lemma ps_setVotedFor_stored:
  assumes "storage_reliable B" and "ps_stored B b p" and "ps_setVotedFor B nid (p, b) = (r, p', b')"
  shows "if node_id_isValid nid then r = None \<and> p' = p\<lparr>ps_voted_for := nid\<rparr> \<and> ps_stored B b' p'
    else r = Some ErrInvalidParam \<and> p' = p \<and> b' = b"
proof (cases "node_id_isValid nid")
  case False
  then show ?thesis using assms(3) by (simp add: ps_setVotedFor_def)
next
  case True
  obtain r2 b2 where s: "sm_setAndGetBack B ps_getVotedForKey (ucast nid) b = (r2, b2)" by fastforce
  note g = setAndGetBack_reliable [OF assms(1) key_lengths(4) s]
  have out: "r = None" "p' = p\<lparr>ps_voted_for := nid\<rparr>" "b' = b2"
    using assms(3) s g True by (auto simp: ps_setVotedFor_def)
  have k: "st_get B b2 lg_getLastIndexKey = st_get B b lg_getLastIndexKey"
    "st_get B b2 (lg_makeEntryKey i q) = st_get B b (lg_makeEntryKey i q)"
    "st_get B b2 ps_getCurrentTermKey = st_get B b ps_getCurrentTermKey" for i q
    using g log_keys voted_for_key_term by metis+
  have "log_stored B b2 (ps_log p)" using assms(2) k(1,2) log_stored_other [of B b "ps_log p" b2] by (simp add: ps_stored_def)
  then show ?thesis using out g True assms(2) sm_get_other [OF k(3)] by (simp add: ps_stored_def)
qed

lemma lg_init_blank:
  assumes "sm_get B b lg_getLastIndexKey = None" and "length (lg_entries l0) = 128" and "lg_init B (l0, b) = (None, l', b')"
  shows "lg_list l' = [Entry]" "lg_last_index l' = 0"
  using assms
  by (cases "lg_entries l0"; auto simp: lg_init_def lg_initEmptyLogStorage_def lg_list_def Let_def
      split: if_splits option.splits prod.splits)+

lemma ps_start_stored:
  assumes "storage_reliable B" and "\<forall>k. st_get B b k = []" and "ps_init B (PersistentState, b) = (None, p, b')"
  shows "ps_stored B b' p"
proof -
  have len: "length (lg_entries (ps_log PersistentState)) = 128" by (simp add: PersistentState_def Log_def)
  obtain l b1 where i: "lg_init B (ps_log PersistentState, b) = (None, l, b1)"
    using assms(3) by (auto simp: ps_init_def Let_def split: if_splits prod.splits)
  have blank: "sm_get B b lg_getLastIndexKey = None" using assms(2) by (simp add: sm_get_def)
  note l = lg_init_blank [OF blank len i]
  note st = lg_init_stored [OF assms(1) len i]
  have le: "lg_getEntryAtIndex 0 l = Some Entry" using lg_last_entry(1) [of B b1 l] st l by simp
  have e1: "st_get B b1 ps_getCurrentTermKey = []" "st_get B b1 ps_getVotedForKey = []" using st assms(2) log_keys by metis+
  obtain r2 b2 where s2: "sm_setAndGetBack B ps_getCurrentTermKey 0 b1 = (r2, b2)" by fastforce
  note g2 = setAndGetBack_reliable [OF assms(1) key_lengths(3) s2]
  obtain r3 b3 where s3: "sm_setAndGetBack B ps_getVotedForKey 0 b2 = (r3, b3)" by fastforce
  note g3 = setAndGetBack_reliable [OF assms(1) key_lengths(4) s3]
  have e2: "st_get B b2 ps_getVotedForKey = []" using g2 e1 voted_for_key_term by metis
  have out: "p = \<lparr>ps_current_term = 0, ps_voted_for = 0, ps_log = l\<rparr>" "b' = b3"
    using assms(3) i l le e1 e2 s2 g2 s3 g3
    by (auto simp: ps_init_def ps_init_term_def ps_init_voted_for_def Let_def Entry_def PersistentState_def)
  have k: "st_get B b3 lg_getLastIndexKey = st_get B b1 lg_getLastIndexKey"
    "st_get B b3 (lg_makeEntryKey j q) = st_get B b1 (lg_makeEntryKey j q)"
    "st_get B b3 ps_getCurrentTermKey = st_get B b2 ps_getCurrentTermKey" for j q
    using g2 g3 log_keys voted_for_key_term by metis+
  have "log_stored B b3 l" using st k(1,2) log_stored_other [of B b1 l b3] by simp
  then show ?thesis using out g2 g3 l sm_get_other [OF k(3)] by (simp add: ps_stored_def node_id_isValid_def Entry_def)
qed

lemma ps_log_stored:
  assumes "ps_stored B b p" and "log_stored B b' l'" and "\<forall>k. \<not> is_log_key k \<longrightarrow> st_get B b' k = st_get B b k"
    and "set (lg_list l') \<subseteq> set (lg_list (ps_log p)) \<union> {e. en_term e \<le> ps_current_term p}"
  shows "ps_stored B b' (p\<lparr>ps_log := l'\<rparr>)"
proof -
  have "st_get B b' ps_getCurrentTermKey = st_get B b ps_getCurrentTermKey" "st_get B b' ps_getVotedForKey = st_get B b ps_getVotedForKey"
    using assms(3) log_keys by metis+
  note k = this [THEN sm_get_other]
  show ?thesis using assms k by (auto simp: ps_stored_def)
qed

lemma ps_reachable_stored:
  assumes "storage_reliable B" and "ps_reachable B pb"
  shows "ps_stored B (snd pb) (fst pb)"
  using assms(2)
proof (induction rule: ps_reachable.induct)
  case (ps_start b p b')
  then show ?case using ps_start_stored [OF assms(1)] by simp
next
  case (ps_step_term p b t r p' b')
  then show ?case using ps_setCurrentTerm_stored [OF assms(1), of b p t r p' b'] by (auto split: if_splits)
next
  case (ps_step_vote p b nid r p' b')
  then show ?case using ps_setVotedFor_stored [OF assms(1), of b p nid r p' b'] by (auto split: if_splits)
next
  case (ps_step_append p b e r l' b')
  then have s: "ps_stored B b p" "log_stored B b (ps_log p)" by (auto simp: ps_stored_def)
  from lg_append_stored [OF assms(1) s(2) ps_step_append(2,4)] show ?case
    using s ps_log_stored [OF s(1), of b' l'] ps_step_append(3) by (auto split: if_splits)
next
  case (ps_step_remove p b i r l' b')
  then have s: "ps_stored B b p" "log_stored B b (ps_log p)" by (auto simp: ps_stored_def)
  from lg_remove_stored [OF assms(1) s(2) ps_step_remove(2-5)] show ?case
    using s ps_log_stored [OF s(1), of b' l'] set_take_subset [of "unat i" "lg_list (ps_log p)"] by auto
next
  case (ps_restart p b r p' b')
  then show ?case
    using ps_init_restores [of B b p PersistentState] by (auto simp: PersistentState_def Log_def)
qed

text \<open>
  C5.  The persistent state of a Raft server survives restarts.  On a storage backend that keeps what is
  written, after any history of term and vote updates, appended and removed log entries and restarts that
  began with an empty storage, \<^verbatim>\<open>init\<close> on a fresh object succeeds and restores the term, the vote
  and the whole log, also when power is lost after an entry was written and before the last index was.  The
  operations have the effect of the list operations on the log, and the term never decreases.
\<close>

theorem persistent_state_durable:
  assumes "storage_reliable B" and "ps_reachable B (p, b)" and "entry_valid e"
  shows "(\<exists>q. ps_init B (PersistentState, b) = (None, q, b) \<and> ps_same q p) \<and>
    (\<forall>r l' b'. lg_append B e (ps_log p, b) = (r, l', b') \<longrightarrow>
      (if length (lg_list (ps_log p)) < lg_Capacity then r = None \<and> lg_list l' = lg_list (ps_log p) @ [e] else r = Some ErrLogic \<and> l' = ps_log p)) \<and>
    (\<forall>r b'. lg_writeEntryToStorage B (length (lg_list (ps_log p))) e b = (r, b') \<longrightarrow>
      length (lg_list (ps_log p)) < lg_Capacity \<longrightarrow>
      (\<exists>q. ps_init B (PersistentState, b') = (None, q, b') \<and> ps_same q p)) \<and>
    (\<forall>i r l' b'. lg_removeEntriesWhereIndexGreaterOrEqual B i (ps_log p, b) = (r, l', b') \<longrightarrow>
      0 < i \<longrightarrow> unat i < length (lg_list (ps_log p)) \<longrightarrow> r = None \<and> lg_list l' = take (unat i) (lg_list (ps_log p))) \<and>
    (\<forall>t r p' b'. ps_setCurrentTerm B t (p, b) = (r, p', b') \<longrightarrow> ps_current_term p' = max t (ps_current_term p))"
proof (intro conjI allI impI)
  have len: "length (lg_entries (ps_log PersistentState)) = 128" by (simp add: PersistentState_def Log_def)
  have st: "ps_stored B b p" using ps_reachable_stored [OF assms(1,2)] by simp
  then have ls: "log_stored B b (ps_log p)" by (simp add: ps_stored_def)
  note bd = log_stored_bounds [OF ls]
  show "\<exists>q. ps_init B (PersistentState, b) = (None, q, b) \<and> ps_same q p" using ps_init_restores [OF st len] by blast
  show "if length (lg_list (ps_log p)) < lg_Capacity then r = None \<and> lg_list l' = lg_list (ps_log p) @ [e] else r = Some ErrLogic \<and> l' = ps_log p"
    if "lg_append B e (ps_log p, b) = (r, l', b')" for r l' b'
    using lg_append_stored [OF assms(1) ls assms(3) that] bd(3) by (auto split: if_splits)
  show "\<exists>q. ps_init B (PersistentState, b') = (None, q, b') \<and> ps_same q p"
    if "lg_writeEntryToStorage B (length (lg_list (ps_log p))) e b = (r, b')" "length (lg_list (ps_log p)) < lg_Capacity" for r b'
  proof -
    let ?n = "length (lg_list (ps_log p))"
    have o: "\<forall>k. (\<forall>q. k \<noteq> lg_makeEntryKey ?n q) \<longrightarrow> st_get B b' k = st_get B b k"
      using write_entry [OF assms(1,3), of ?n b] that by auto
    have "log_stored B b' (ps_log p)"
      by (rule log_stored_other [OF ls]) (use o last_key_entry bd(3) entry_key_inj in auto)
    moreover have "\<forall>k. \<not> is_log_key k \<longrightarrow> st_get B b' k = st_get B b k" using o log_keys by metis
    ultimately have "ps_stored B b' (p\<lparr>ps_log := ps_log p\<rparr>)" using ps_log_stored [OF st, of b' "ps_log p"] by blast
    then show ?thesis using ps_init_restores [of B b' p, OF _ len] by auto
  qed
  show "r = None" "lg_list l' = take (unat i) (lg_list (ps_log p))"
    if "lg_removeEntriesWhereIndexGreaterOrEqual B i (ps_log p, b) = (r, l', b')" "0 < i" "unat i < length (lg_list (ps_log p))" for i r l' b'
    using lg_remove_stored [OF assms(1) ls that(2) _ _ that(1)] that(3) bd by auto
  show "ps_current_term p' = max t (ps_current_term p)"
    if "ps_setCurrentTerm B t (p, b) = (r, p', b')" for t r p' b'
    using ps_setCurrentTerm_stored [OF assms(1) st that] by (auto simp: max_def split: if_splits)
qed

lemma lg_init_blank_succeeds:
  assumes "storage_reliable B" and "\<forall>k. st_get B b k = []"
  shows "\<exists>l b'. lg_init B (Log, b) = (None, l, b')"
proof -
  have ev: "entry_valid Entry" by (simp add: entry_valid_def Entry_def node_id_isValid_def)
  obtain b1 where w: "lg_writeEntryToStorage B 0 Entry b = (None, b1)"
    by (rule write_entry [OF assms(1) ev, of 0 b]) auto
  obtain r2 b2 where s: "sm_setAndGetBack B lg_getLastIndexKey 0 b1 = (r2, b2)" by fastforce
  have "r2 = Some 0" using setAndGetBack_reliable [OF assms(1) key_lengths(2) s] by simp
  moreover have "sm_get B b lg_getLastIndexKey = None" using assms(2) by (simp add: sm_get_def)
  moreover have "(lg_entries Log)[0 := Entry] ! 0 = Entry" by (simp add: Log_def)
  ultimately show ?thesis using w s assms(2) by (simp add: lg_init_def lg_initEmptyLogStorage_def Let_def)
qed

theorem persistent_state_durable_witness:
  "\<exists>p b. ps_reachable example_backend (p, b) \<and> (\<exists>q. ps_init example_backend (PersistentState, b) = (None, q, b) \<and> ps_same q p)"
proof -
  let ?B = example_backend and ?b = "\<lambda>_ :: string. [] :: string"
  note R = example_backend_reliable
  have blank: "\<forall>k. st_get ?B ?b k = []" by (simp add: example_backend_def)
  obtain l b1 where i: "lg_init ?B (Log, ?b) = (None, l, b1)" using lg_init_blank_succeeds [OF R blank] by blast
  have len: "length (lg_entries Log) = 128" by (simp add: Log_def)
  note l = lg_init_blank [OF _ len i]
  have bl: "sm_get ?B ?b lg_getLastIndexKey = None" using blank by (simp add: sm_get_def)
  have st: "log_stored ?B b1 l" "\<forall>k. \<not> is_log_key k \<longrightarrow> st_get ?B b1 k = st_get ?B ?b k" using lg_init_stored [OF R len i] by auto
  have le: "lg_getEntryAtIndex (lg_last_index l) l = Some Entry" using lg_last_entry(1) [OF st(1)] l bl by simp
  have e1: "st_get ?B b1 ps_getCurrentTermKey = []" "st_get ?B b1 ps_getVotedForKey = []" using st blank log_keys by metis+
  obtain r2 b2 where s2: "sm_setAndGetBack ?B ps_getCurrentTermKey 0 b1 = (r2, b2)" by fastforce
  note g2 = setAndGetBack_reliable [OF R key_lengths(3) s2]
  obtain r3 b3 where s3: "sm_setAndGetBack ?B ps_getVotedForKey 0 b2 = (r3, b3)" by fastforce
  note g3 = setAndGetBack_reliable [OF R key_lengths(4) s3]
  have e2: "st_get ?B b2 ps_getVotedForKey = []" using g2 e1 voted_for_key_term by metis
  have "ps_init ?B (PersistentState, ?b) = (None, \<lparr>ps_current_term = 0, ps_voted_for = 0, ps_log = l\<rparr>, b3)"
    using i l bl le e1 e2 s2 g2 s3 g3
    by (simp add: ps_init_def ps_init_term_def ps_init_voted_for_def Let_def Entry_def PersistentState_def)
  then have r: "ps_reachable ?B (\<lparr>ps_current_term = 0, ps_voted_for = 0, ps_log = l\<rparr>, b3)" using ps_start [OF blank] by blast
  have "entry_valid Entry" by (simp add: entry_valid_def Entry_def node_id_isValid_def)
  from persistent_state_durable [OF R r this] show ?thesis using r by blast
qed

end
