(* ===== verification/RaftClusters.thy ===== *)
theory RaftClusters
  imports RaftLogs UavTime
begin

text \<open>
  \<^verbatim>\<open>ClusterManager\<close> (include/uavcan/protocol/dynamic_node_id_server/distributed/cluster_manager.hpp): the
  servers that a Raft server knows, with the indices of the log entries that it has replicated to them.
\<close>

section \<open>Definitions\<close>

text \<open>
  The constants that come from the generated data types, and the node ID of the local node.
\<close>

record raft_config =
  rf_self :: node_id
  rf_MaxClusterSize :: nat
  rf_entries_capacity :: nat
  rf_min_election_timeout_ms :: int
  rf_max_election_timeout_ms :: int

record raft_server =
  sv_node_id :: node_id
  sv_next_index :: u8
  sv_match_index :: u8

definition sv_resetIndices :: "raft_log \<Rightarrow> raft_server \<Rightarrow> raft_server" where
  "sv_resetIndices l s = s\<lparr>sv_next_index := lg_last_index l + 1, sv_match_index := 0\<rparr>"

text \<open>
  The first \<^verbatim>\<open>num_known_servers_\<close> elements of the array \<^verbatim>\<open>servers_\<close>; the others are never read.  That the
  array is large enough is shown with the invariants.
\<close>

record cluster =
  cm_servers :: "raft_server list"
  cm_cluster_size :: u8
  cm_timer_running :: bool

definition ClusterManager :: cluster where
  "ClusterManager = \<lparr>cm_servers = [], cm_cluster_size = 0, cm_timer_running = False\<rparr>"

record discovery =
  dc_configured_cluster_size :: u8
  dc_known_nodes :: "node_id list"

definition cm_getStorageKeyForClusterSize :: string where
  "cm_getStorageKeyForClusterSize = ''cluster_size''"

definition cm_getNumKnownServers :: "cluster \<Rightarrow> u8" where
  "cm_getNumKnownServers c = word_of_nat (length (cm_servers c))"

definition cm_getQuorumSize :: "cluster \<Rightarrow> u8" where
  "cm_getQuorumSize c = cm_cluster_size c div 2 + 1"

definition cm_isClusterDiscovered :: "cluster \<Rightarrow> bool" where
  "cm_isClusterDiscovered c \<longleftrightarrow> int (unat (cm_getNumKnownServers c)) = int (unat (cm_cluster_size c)) - 1"

fun cm_findServer :: "node_id \<Rightarrow> raft_server list \<Rightarrow> raft_server option" where
  "cm_findServer nid [] = None"
| "cm_findServer nid (s # ss) = (if sv_node_id s = nid then Some s else cm_findServer nid ss)"

text \<open>Changes the server that \<^verbatim>\<open>findServer\<close> returns a pointer to.\<close>

fun cm_modifyServer :: "(raft_server \<Rightarrow> raft_server) \<Rightarrow> node_id \<Rightarrow> raft_server list \<Rightarrow> raft_server list" where
  "cm_modifyServer f nid [] = []"
| "cm_modifyServer f nid (s # ss) = (if sv_node_id s = nid then f s # ss else s # cm_modifyServer f nid ss)"

definition cm_isKnownServer :: "raft_config \<Rightarrow> node_id \<Rightarrow> cluster \<Rightarrow> bool" where
  "cm_isKnownServer F nid c \<longleftrightarrow> nid = rf_self F \<or> list_ex (\<lambda>s. sv_node_id s = nid) (cm_servers c)"

definition cm_addServer :: "raft_config \<Rightarrow> raft_log \<Rightarrow> node_id \<Rightarrow> cluster \<Rightarrow> cluster" where
  "cm_addServer F l nid c =
    (if \<not> cm_isKnownServer F nid c \<and> node_id_isUnicast nid
     then c\<lparr>cm_servers := cm_servers c @ [sv_resetIndices l \<lparr>sv_node_id = nid, sv_next_index = 0, sv_match_index = 0\<rparr>]\<rparr>
     else c)"

definition cm_getRemoteServerNodeIDAtIndex :: "u8 \<Rightarrow> cluster \<Rightarrow> node_id" where
  "cm_getRemoteServerNodeIDAtIndex index c =
    (if unat index < length (cm_servers c) then sv_node_id (cm_servers c ! unat index) else node_id_invalid)"

definition cm_getServerNextIndex :: "node_id \<Rightarrow> cluster \<Rightarrow> u8" where
  "cm_getServerNextIndex nid c = (case cm_findServer nid (cm_servers c) of Some s \<Rightarrow> sv_next_index s | None \<Rightarrow> 0)"

definition cm_incrementServerNextIndexBy :: "node_id \<Rightarrow> u8 \<Rightarrow> cluster \<Rightarrow> cluster" where
  "cm_incrementServerNextIndexBy nid increment c =
    c\<lparr>cm_servers := cm_modifyServer (\<lambda>s. s\<lparr>sv_next_index := sv_next_index s + increment\<rparr>) nid (cm_servers c)\<rparr>"

definition cm_decrementServerNextIndex :: "node_id \<Rightarrow> cluster \<Rightarrow> cluster" where
  "cm_decrementServerNextIndex nid c =
    c\<lparr>cm_servers := cm_modifyServer (\<lambda>s. s\<lparr>sv_next_index := sv_next_index s - 1\<rparr>) nid (cm_servers c)\<rparr>"

definition cm_getServerMatchIndex :: "node_id \<Rightarrow> cluster \<Rightarrow> u8" where
  "cm_getServerMatchIndex nid c = (case cm_findServer nid (cm_servers c) of Some s \<Rightarrow> sv_match_index s | None \<Rightarrow> 0)"

definition cm_setServerMatchIndex :: "node_id \<Rightarrow> u8 \<Rightarrow> cluster \<Rightarrow> cluster" where
  "cm_setServerMatchIndex nid match_index c =
    c\<lparr>cm_servers := cm_modifyServer (\<lambda>s. s\<lparr>sv_match_index := match_index\<rparr>) nid (cm_servers c)\<rparr>"

definition cm_resetAllServerIndices :: "raft_log \<Rightarrow> cluster \<Rightarrow> cluster" where
  "cm_resetAllServerIndices l c = c\<lparr>cm_servers := map (sv_resetIndices l) (cm_servers c)\<rparr>"

definition cm_startDiscoveryPublishingTimerIfNotRunning :: "cluster \<Rightarrow> cluster" where
  "cm_startDiscoveryPublishingTimerIfNotRunning c = (if \<not> cm_timer_running c then c\<lparr>cm_timer_running := True\<rparr> else c)"

text \<open>The message that is broadcast; its list of nodes is at most as long as the cluster is large.\<close>

definition cm_handleTimerEvent :: "raft_config \<Rightarrow> cluster \<Rightarrow> discovery \<times> cluster" where
  "cm_handleTimerEvent F c =
    (\<lparr>dc_configured_cluster_size = cm_cluster_size c, dc_known_nodes = rf_self F # map sv_node_id (cm_servers c)\<rparr>,
     if cm_isClusterDiscovered c then c\<lparr>cm_timer_running := False\<rparr> else c)"

fun cm_discover_loop :: "raft_config \<Rightarrow> raft_log \<Rightarrow> node_id list \<Rightarrow> cluster \<Rightarrow> cluster" where
  "cm_discover_loop F l [] c = c"
| "cm_discover_loop F l (nid # ns) c =
    (if cm_isClusterDiscovered c then c
     else cm_discover_loop F l ns
            (if node_id_isUnicast nid \<and> \<not> cm_isKnownServer F nid c then cm_addServer F l nid c else c))"

definition cm_handleDiscovery :: "raft_config \<Rightarrow> raft_log \<Rightarrow> discovery \<Rightarrow> cluster \<Rightarrow> cluster" where
  "cm_handleDiscovery F l msg c =
    (if dc_configured_cluster_size msg \<noteq> cm_cluster_size c then c
     else
       (let c = cm_discover_loop F l (dc_known_nodes msg) c
        in if unat (dc_configured_cluster_size msg) > length (dc_known_nodes msg)
           then cm_startDiscoveryPublishingTimerIfNotRunning c else c))"

text \<open>
  The results of initializing the publisher and of starting the subscriber are arguments: \<open>None\<close> for success.
\<close>

definition cm_init ::
  "raft_config \<Rightarrow> 'b storage_backend \<Rightarrow> raft_log \<Rightarrow> u8 \<Rightarrow> uavcan_error option \<Rightarrow> uavcan_error option \<Rightarrow>
    cluster \<times> 'b \<Rightarrow> uavcan_error option \<times> cluster \<times> 'b" where
  "cm_init F B l init_cluster_size pub_res sub_res cb =
    (let (c, b) = cb;
         (r, c, b) =
           (if init_cluster_size = 0 then
              (case sm_get B b cm_getStorageKeyForClusterSize of
                 None \<Rightarrow> (Some ErrFailure, c, b)
               | Some value \<Rightarrow>
                   if value = 0 \<or> unat value > rf_MaxClusterSize F then (Some ErrInvalidConfiguration, c, b)
                   else (None, c\<lparr>cm_cluster_size := ucast value\<rparr>, b))
            else if unat init_cluster_size > rf_MaxClusterSize F then (Some ErrInvalidParam, c, b)
            else
              (let c = c\<lparr>cm_cluster_size := init_cluster_size\<rparr>;
                   (v, b) = sm_setAndGetBack B cm_getStorageKeyForClusterSize (ucast init_cluster_size) b
               in (if v \<noteq> Some (ucast init_cluster_size) then Some ErrFailure else None, c, b)))
     in if r \<noteq> None then (r, c, b)
        else if pub_res \<noteq> None then (pub_res, c, b)
        else if sub_res \<noteq> None then (sub_res, c, b)
        else (None, cm_resetAllServerIndices l (cm_startDiscoveryPublishingTimerIfNotRunning c), b))"

section \<open>Invariant\<close>

text \<open>The known servers are distinct unicast nodes other than the local one.\<close>

definition cm_inv :: "raft_config \<Rightarrow> cluster \<Rightarrow> bool" where
  "cm_inv F c \<longleftrightarrow> distinct (map sv_node_id (cm_servers c)) \<and>
    list_all (\<lambda>n. node_id_isUnicast n \<and> n \<noteq> rf_self F) (map sv_node_id (cm_servers c))"

lemma cm_modifyServer_ids:
  "(\<And>s. sv_node_id (f s) = sv_node_id s) \<Longrightarrow> map sv_node_id (cm_modifyServer f nid ss) = map sv_node_id ss"
  by (induction ss) auto

lemma cm_inv_ids: "map sv_node_id (cm_servers c') = map sv_node_id (cm_servers c) \<Longrightarrow> cm_inv F c' = cm_inv F c"
  unfolding cm_inv_def by (simp only:)

lemma cm_inv_add: "cm_inv F c \<Longrightarrow> cm_inv F (cm_addServer F l nid c)"
  by (auto simp: cm_inv_def cm_addServer_def cm_isKnownServer_def list_ex_iff list_all_iff sv_resetIndices_def)

lemma cm_addServer_size [simp]: "cm_cluster_size (cm_addServer F l nid c) = cm_cluster_size c"
  by (simp add: cm_addServer_def)

lemma cm_discover_loop_inv:
  "cm_inv F c \<Longrightarrow> cm_inv F (cm_discover_loop F l ns c) \<and> cm_cluster_size (cm_discover_loop F l ns c) = cm_cluster_size c \<and>
    length (cm_servers c) \<le> length (cm_servers (cm_discover_loop F l ns c))"
proof (induction ns arbitrary: c)
  case (Cons n ns)
  have "length (cm_servers c) \<le> length (cm_servers (cm_addServer F l n c))" by (simp add: cm_addServer_def)
  then show ?case using Cons.IH [of c] Cons.IH [OF cm_inv_add [OF Cons.prems], of l n] Cons.prems by (auto intro: order_trans)
qed simp

text \<open>
  The assertion in \<^verbatim>\<open>addServer\<close>: the known servers fit into the array, whose size is one less than the maximum
  size of a cluster.  The counters are eight bits wide.
\<close>

definition cm_bounded :: "raft_config \<Rightarrow> cluster \<Rightarrow> bool" where
  "cm_bounded F c \<longleftrightarrow> (rf_MaxClusterSize F \<le> 255 \<longrightarrow>
    length (cm_servers c) < unat (cm_cluster_size c) \<and> unat (cm_cluster_size c) \<le> rf_MaxClusterSize F)"

lemma cm_bounded_same:
  "length (cm_servers c') = length (cm_servers c) \<Longrightarrow> cm_cluster_size c' = cm_cluster_size c \<Longrightarrow> cm_bounded F c' = cm_bounded F c"
  by (simp add: cm_bounded_def)

lemma cm_bounded_add:
  assumes "cm_bounded F c" and "\<not> cm_isClusterDiscovered c"
  shows "cm_bounded F (cm_addServer F l nid c)"
proof (cases "rf_MaxClusterSize F \<le> 255")
  case True
  then have b: "length (cm_servers c) < unat (cm_cluster_size c)" "unat (cm_cluster_size c) \<le> rf_MaxClusterSize F"
    using assms(1) by (auto simp: cm_bounded_def)
  then have "unat (cm_getNumKnownServers c) = length (cm_servers c)" using True by (simp add: cm_getNumKnownServers_def unat_of_nat)
  then have "length (cm_servers c) + 1 < unat (cm_cluster_size c)"
    using assms(2) b(1) unfolding cm_isClusterDiscovered_def by linarith
  then show ?thesis using b by (auto simp: cm_bounded_def cm_addServer_def)
qed (simp add: cm_bounded_def)

lemma cm_discover_loop_bounded: "cm_bounded F c \<Longrightarrow> cm_bounded F (cm_discover_loop F l ns c)"
  by (induction ns arbitrary: c) (auto simp: cm_bounded_add)

lemma cm_init_bounded:
  assumes "cm_init F B l k pub_res sub_res (ClusterManager, b) = (None, c, b')"
  shows "cm_bounded F c"
proof -
  have fit: "ucast v \<noteq> (0 :: u8)" "unat (ucast v :: u8) \<le> rf_MaxClusterSize F"
    if "v \<noteq> 0" "\<not> rf_MaxClusterSize F < unat v" "rf_MaxClusterSize F \<le> 255" for v :: u32
  proof -
    have u: "unat (ucast v :: u8) = unat v" using that by (simp add: unsigned_ucast_eq take_bit_nat_eq_self)
    then show "unat (ucast v :: u8) \<le> rf_MaxClusterSize F" using that by simp
    show "ucast v \<noteq> (0 :: u8)" using u that(1) by (metis unat_eq_zero)
  qed
  show ?thesis using assms
    by (auto simp: cm_init_def cm_bounded_def ClusterManager_def cm_resetAllServerIndices_def unat_gt_0 fit
        cm_startDiscoveryPublishingTimerIfNotRunning_def Let_def split: if_splits option.splits prod.splits)
qed

lemma quorum_unat: "unat (cm_getQuorumSize c) = unat (cm_cluster_size c) div 2 + 1"
proof -
  have "unat (cm_cluster_size c) < 256" by (rule unat_u8_lt)
  then have "unat (cm_cluster_size c) div 2 + 1 < 256" by simp
  then show ?thesis unfolding cm_getQuorumSize_def by (simp add: unat_word_ariths unat_div)
qed

end
