(* ===== verification/RaftCores.thy ===== *)
theory RaftCores
  imports RaftClusters
begin

text \<open>
  \<^verbatim>\<open>RaftCore\<close> (include/uavcan/protocol/dynamic_node_id_server/distributed/raft_core.hpp): elections and
  replication of the log.  A handler takes and returns the object and the storage, and lists what it sends and
  what it tells the leader monitor.  A service client is the list of its pending calls, each with the server
  and the request.
\<close>

section \<open>Definitions\<close>

datatype server_state = ServerStateFollower | ServerStateCandidate | ServerStateLeader

record ae_request =
  aq_term :: raft_term
  aq_prev_log_term :: raft_term
  aq_prev_log_index :: u8
  aq_leader_commit :: u8
  aq_entries :: "raft_entry list"

record ae_response =
  ar_term :: raft_term
  ar_success :: bool

record rv_request =
  vq_term :: raft_term
  vq_last_log_term :: raft_term
  vq_last_log_index :: u8

record rv_response =
  vr_term :: raft_term
  vr_vote_granted :: bool

text \<open>
  What a handler reads from the node while it runs: the time, the next random number, and which calls the
  transport accepts.
\<close>

record raft_env =
  re_now :: time
  re_rand :: int
  re_call :: "node_id \<Rightarrow> bool"

datatype raft_output =
    SendAppendEntries node_id ae_request
  | SendRequestVote node_id rv_request
  | LocalLeadershipChange bool
  | LogCommitOnLeader raft_entry

record raft_core =
  rc_persistent_state :: persistent_state
  rc_cluster :: cluster
  rc_commit_index :: u8
  rc_last_activity_timestamp :: time
  rc_randomized_activity_timeout :: duration
  rc_server_state :: server_state
  rc_next_server_index :: u8
  rc_num_votes :: u8
  rc_pending_prev_log_index :: u8
  rc_pending_num_entries :: u8
  rc_append_entries_calls :: "(node_id \<times> ae_request) list"
  rc_request_vote_calls :: "(node_id \<times> rv_request) list"
  rc_update_interval :: duration

abbreviation rc_term :: "raft_core \<Rightarrow> raft_term" where
  "rc_term x \<equiv> ps_current_term (rc_persistent_state x)"

abbreviation rc_voted_for :: "raft_core \<Rightarrow> node_id" where
  "rc_voted_for x \<equiv> ps_voted_for (rc_persistent_state x)"

abbreviation rc_log :: "raft_core \<Rightarrow> raft_log" where
  "rc_log x \<equiv> ps_log (rc_persistent_state x)"

definition RaftCore :: "raft_config \<Rightarrow> time \<Rightarrow> raft_core" where
  "RaftCore F now =
    \<lparr>rc_persistent_state = PersistentState, rc_cluster = ClusterManager, rc_commit_index = 0,
     rc_last_activity_timestamp = now, rc_randomized_activity_timeout = dur_fromMSec (rf_max_election_timeout_ms F),
     rc_server_state = ServerStateFollower, rc_next_server_index = 0, rc_num_votes = 0,
     rc_pending_prev_log_index = 0, rc_pending_num_entries = 0, rc_append_entries_calls = [],
     rc_request_vote_calls = [], rc_update_interval = 0\<rparr>"

text \<open>The assertions of \<^verbatim>\<open>checkInvariants\<close>.\<close>

definition rc_checkLogInvariants :: "raft_core \<Rightarrow> bool" where
  "rc_checkLogInvariants x \<longleftrightarrow> rc_commit_index x \<le> lg_last_index (rc_log x) \<and>
    (case lg_getEntryAtIndex (lg_last_index (rc_log x)) (rc_log x) of None \<Rightarrow> False | Some e \<Rightarrow> en_term e \<le> rc_term x)"

definition rc_checkElectionInvariants :: "raft_config \<Rightarrow> raft_core \<Rightarrow> bool" where
  "rc_checkElectionInvariants F x \<longleftrightarrow>
    (rc_server_state x \<noteq> ServerStateCandidate \<or> rc_request_vote_calls x = [] \<or> rc_voted_for x = rf_self F) \<and>
    rc_num_votes x \<le> cm_cluster_size (rc_cluster x)"

definition rc_checkTransportInvariants :: "raft_core \<Rightarrow> bool" where
  "rc_checkTransportInvariants x \<longleftrightarrow>
    length (rc_append_entries_calls x) \<le> 1 \<and>
    length (rc_request_vote_calls x) \<le> length (cm_servers (rc_cluster x)) \<and>
    (rc_server_state x \<noteq> ServerStateCandidate \<or> rc_append_entries_calls x = []) \<and>
    (rc_server_state x \<noteq> ServerStateLeader \<or> rc_request_vote_calls x = []) \<and>
    (rc_server_state x \<noteq> ServerStateFollower \<or> rc_append_entries_calls x = [] \<and> rc_request_vote_calls x = [])"

definition rc_registerActivity :: "raft_config \<Rightarrow> raft_env \<Rightarrow> raft_core \<Rightarrow> raft_core" where
  "rc_registerActivity F E x =
    (let randomization_range_msec = rf_max_election_timeout_ms F - rf_min_election_timeout_ms F;
         random_msec = re_rand E mod randomization_range_msec + 1
     in x\<lparr>rc_last_activity_timestamp := re_now E,
          rc_randomized_activity_timeout := dur_fromMSec (rf_min_election_timeout_ms F + random_msec)\<rparr>)"

definition rc_isActivityTimedOut :: "raft_env \<Rightarrow> raft_core \<Rightarrow> bool" where
  "rc_isActivityTimedOut E x \<longleftrightarrow>
    re_now E > time_add (rc_last_activity_timestamp x) (rc_randomized_activity_timeout x)"

definition rc_switchState :: "server_state \<Rightarrow> raft_core \<Rightarrow> raft_output list \<times> raft_core" where
  "rc_switchState new_state x =
    (if rc_server_state x = new_state then ([], x)
     else
       (if rc_server_state x = ServerStateLeader \<or> new_state = ServerStateLeader
        then [LocalLeadershipChange (new_state = ServerStateLeader)] else [],
        x\<lparr>rc_server_state := new_state, rc_cluster := cm_resetAllServerIndices (rc_log x) (rc_cluster x),
          rc_next_server_index := 0, rc_num_votes := 0, rc_request_vote_calls := [], rc_append_entries_calls := []\<rparr>))"

definition rc_handlePersistentStateUpdateError :: "raft_config \<Rightarrow> raft_env \<Rightarrow> raft_core \<Rightarrow> raft_output list \<times> raft_core" where
  "rc_handlePersistentStateUpdateError F E x =
    (let (os, x) = rc_switchState ServerStateFollower x in (os, rc_registerActivity F E x))"

definition rc_updateFollower :: "raft_config \<Rightarrow> raft_env \<Rightarrow> raft_core \<Rightarrow> raft_output list \<times> raft_core" where
  "rc_updateFollower F E x =
    (if rc_isActivityTimedOut E x
     then (let (os, x) = rc_switchState ServerStateCandidate x in (os, rc_registerActivity F E x))
     else ([], x))"

definition rc_call_ok :: "raft_config \<Rightarrow> raft_env \<Rightarrow> node_id \<Rightarrow> bool" where
  "rc_call_ok F E nid \<longleftrightarrow> node_id_isUnicast nid \<and> nid \<noteq> rf_self F \<and> re_call E nid"

fun rc_request_votes ::
  "raft_config \<Rightarrow> raft_env \<Rightarrow> rv_request \<Rightarrow> nat list \<Rightarrow> raft_core \<Rightarrow> raft_output list \<times> raft_core" where
  "rc_request_votes F E req [] x = ([], x)"
| "rc_request_votes F E req (i # is) x =
    (let nid = cm_getRemoteServerNodeIDAtIndex (word_of_nat i) (rc_cluster x)
     in if \<not> node_id_isUnicast nid then ([], x)
        else
          (let (o1, x) = (if rc_call_ok F E nid
                          then ([SendRequestVote nid req],
                                x\<lparr>rc_request_vote_calls := rc_request_vote_calls x @ [(nid, req)]\<rparr>)
                          else ([], x));
               (o2, x) = rc_request_votes F E req is x
           in (o1 @ o2, x)))"

definition rc_updateCandidate ::
  "raft_config \<Rightarrow> raft_env \<Rightarrow> 'b storage_backend \<Rightarrow> raft_core \<times> 'b \<Rightarrow> raft_output list \<times> raft_core \<times> 'b" where
  "rc_updateCandidate F E B xb =
    (let (x, b) = xb
     in if rc_num_votes x > 0 then
          (let won = rc_num_votes x \<ge> cm_getQuorumSize (rc_cluster x);
               (os, x) = rc_switchState (if won then ServerStateLeader else ServerStateFollower) x
           in (os, x, b))
        else
          (case ps_setVotedFor B (rf_self F) (rc_persistent_state x, b) of
             (Some e, p, b) \<Rightarrow>
               (let (os, x) = rc_handlePersistentStateUpdateError F E (x\<lparr>rc_persistent_state := p\<rparr>) in (os, x, b))
           | (None, p, b) \<Rightarrow>
               (case ps_setCurrentTerm B (ps_current_term p + 1) (p, b) of
                  (Some e, p, b) \<Rightarrow>
                    (let (os, x) = rc_handlePersistentStateUpdateError F E (x\<lparr>rc_persistent_state := p\<rparr>) in (os, x, b))
                | (None, p, b) \<Rightarrow>
                    (let x = x\<lparr>rc_persistent_state := p, rc_num_votes := 1\<rparr>;
                         req = \<lparr>vq_term = ps_current_term p,
                                vq_last_log_term = en_term (lg_entries (ps_log p) ! unat (lg_last_index (ps_log p))),
                                vq_last_log_index = lg_last_index (ps_log p)\<rparr>;
                         (os, x) = rc_request_votes F E req [0..<rf_MaxClusterSize F - 1] x
                     in (os, x, b)))))"

text \<open>How many servers, the local one included, are known to have the entry after the commit index.\<close>

definition rc_num_nodes_with_next_entry :: "raft_core \<Rightarrow> u8" where
  "rc_num_nodes_with_next_entry x =
    word_of_nat (length (filter (\<lambda>i. cm_getServerMatchIndex (cm_getRemoteServerNodeIDAtIndex (word_of_nat i) (rc_cluster x))
                                       (rc_cluster x) > rc_commit_index x)
                         [0..<unat (cm_getNumKnownServers (rc_cluster x))])) + 1"

definition rc_propagateCommitIndex :: "raft_core \<Rightarrow> raft_output list \<times> raft_core" where
  "rc_propagateCommitIndex x =
    (if rc_commit_index x < lg_last_index (rc_log x) then
       (if rc_num_nodes_with_next_entry x \<ge> cm_getQuorumSize (rc_cluster x) then
          (let x = x\<lparr>rc_commit_index := rc_commit_index x + 1\<rparr>
           in ([LogCommitOnLeader (lg_entries (rc_log x) ! unat (rc_commit_index x))], x))
        else ([], x))
     else ([], x))"

definition rc_make_ae_request :: "raft_config \<Rightarrow> node_id \<Rightarrow> raft_entry \<Rightarrow> raft_core \<Rightarrow> ae_request" where
  "rc_make_ae_request F nid prev_entry x =
    (let next_index = cm_getServerNextIndex nid (rc_cluster x)
     in \<lparr>aq_term = rc_term x, aq_prev_log_term = en_term prev_entry, aq_prev_log_index = next_index - 1,
         aq_leader_commit = rc_commit_index x,
         aq_entries = take (rf_entries_capacity F)
           (map (\<lambda>i. lg_entries (rc_log x) ! i) [unat next_index..<Suc (unat (lg_last_index (rc_log x)))])\<rparr>)"

definition rc_updateLeader :: "raft_config \<Rightarrow> raft_env \<Rightarrow> raft_core \<Rightarrow> raft_output list \<times> raft_core" where
  "rc_updateLeader F E x =
    (let x = x\<lparr>rc_append_entries_calls := []\<rparr>
     in if cm_cluster_size (rc_cluster x) > 1 then
          (let nid = cm_getRemoteServerNodeIDAtIndex (rc_next_server_index x) (rc_cluster x);
               next = rc_next_server_index x + 1;
               x = x\<lparr>rc_next_server_index := if next \<ge> cm_getNumKnownServers (rc_cluster x) then 0 else next\<rparr>
           in case lg_getEntryAtIndex (cm_getServerNextIndex nid (rc_cluster x) - 1) (rc_log x) of
                None \<Rightarrow> rc_handlePersistentStateUpdateError F E x
              | Some entry \<Rightarrow>
                  (let req = rc_make_ae_request F nid entry x;
                       x = x\<lparr>rc_pending_num_entries := word_of_nat (length (aq_entries req)),
                             rc_pending_prev_log_index := aq_prev_log_index req\<rparr>;
                       (o1, x) = (if rc_call_ok F E nid
                                  then ([SendAppendEntries nid req], x\<lparr>rc_append_entries_calls := [(nid, req)]\<rparr>)
                                  else ([], x));
                       (o2, x) = rc_propagateCommitIndex x
                   in (o1 @ o2, x)))
        else rc_propagateCommitIndex x)"

definition rc_handleTimerEvent ::
  "raft_config \<Rightarrow> raft_env \<Rightarrow> 'b storage_backend \<Rightarrow> raft_core \<times> 'b \<Rightarrow> raft_output list \<times> raft_core \<times> 'b" where
  "rc_handleTimerEvent F E B xb =
    (let (x, b) = xb
     in case rc_server_state x of
          ServerStateFollower \<Rightarrow> (let (os, x) = rc_updateFollower F E x in (os, x, b))
        | ServerStateCandidate \<Rightarrow> rc_updateCandidate F E B (x, b)
        | ServerStateLeader \<Rightarrow> (let (os, x) = rc_updateLeader F E x in (os, x, b)))"

text \<open>The result of setting a new term does not matter.\<close>

definition rc_tryIncrementCurrentTermFromResponse ::
  "raft_config \<Rightarrow> raft_env \<Rightarrow> 'b storage_backend \<Rightarrow> raft_term \<Rightarrow> raft_core \<times> 'b \<Rightarrow> raft_output list \<times> raft_core \<times> 'b" where
  "rc_tryIncrementCurrentTermFromResponse F E B new_term xb =
    (let (x, b) = xb; (r, p, b) = ps_setCurrentTerm B new_term (rc_persistent_state x, b);
         (os, x) = rc_switchState ServerStateFollower (rc_registerActivity F E (x\<lparr>rc_persistent_state := p\<rparr>))
     in (os, x, b))"

text \<open>The update of term and vote with which both request handlers begin, when the term of the request is newer.\<close>

definition rc_adopt_term ::
  "'b storage_backend \<Rightarrow> raft_term \<Rightarrow> persistent_state \<times> 'b \<Rightarrow> uavcan_error option \<times> persistent_state \<times> 'b" where
  "rc_adopt_term B t pb =
    (case ps_setCurrentTerm B t pb of
       (Some e, p, b) \<Rightarrow> (Some e, p, b)
     | (None, p, b) \<Rightarrow> ps_resetVotedFor B (p, b))"

fun rc_append_loop ::
  "'b storage_backend \<Rightarrow> raft_entry list \<Rightarrow> raft_log \<times> 'b \<Rightarrow> uavcan_error option \<times> raft_log \<times> 'b" where
  "rc_append_loop B [] lb = (None, lb)"
| "rc_append_loop B (e # es) lb =
    (let (r, lb) = lg_append B e lb in if r \<noteq> None then (r, lb) else rc_append_loop B es lb)"

text \<open>
  Steps 2 to 5 of the handler of requests to append entries: the value of \<^verbatim>\<open>success\<close>, or no response.
\<close>

definition rc_appendEntries ::
  "'b storage_backend \<Rightarrow> ae_request \<Rightarrow> raft_core \<times> 'b \<Rightarrow> bool option \<times> raft_core \<times> 'b" where
  "rc_appendEntries B q xb =
    (let (x, b) = xb; set_log = (\<lambda>l. x\<lparr>rc_persistent_state := (rc_persistent_state x)\<lparr>ps_log := l\<rparr>\<rparr>)
     in case lg_getEntryAtIndex (aq_prev_log_index q) (rc_log x) of
          None \<Rightarrow> (Some False, x, b)
        | Some prev_entry \<Rightarrow>
            if en_term prev_entry \<noteq> aq_prev_log_term q then
              (let (r, l, b) = lg_removeEntriesWhereIndexGreaterOrEqual B (aq_prev_log_index q) (rc_log x, b)
               in (if r = None then Some False else None, set_log l, b))
            else
              (let (r, l, b) = (if aq_prev_log_index q \<noteq> lg_last_index (rc_log x)
                                then lg_removeEntriesWhereIndexGreater B (aq_prev_log_index q) (rc_log x, b)
                                else (None, rc_log x, b))
               in if r \<noteq> None then (None, set_log l, b)
                  else
                    (let (r, l, b) = rc_append_loop B (aq_entries q) (l, b); x = set_log l
                     in if r \<noteq> None then (None, x, b)
                        else if aq_leader_commit q > rc_commit_index x
                        then (Some True, x\<lparr>rc_commit_index := min (aq_leader_commit q) (lg_last_index l)\<rparr>, b)
                        else (Some True, x, b))))"

definition rc_handleAppendEntriesRequest ::
  "raft_config \<Rightarrow> raft_env \<Rightarrow> 'b storage_backend \<Rightarrow> node_id \<Rightarrow> ae_request \<Rightarrow> raft_core \<times> 'b \<Rightarrow>
    ae_response option \<times> raft_output list \<times> raft_core \<times> 'b" where
  "rc_handleAppendEntriesRequest F E B src q xb =
    (let (x, b) = xb
     in if \<not> cm_isKnownServer F src (rc_cluster x) \<and> cm_isClusterDiscovered (rc_cluster x) then (None, [], x, b)
        else
          (let x = (if \<not> cm_isKnownServer F src (rc_cluster x)
                    then x\<lparr>rc_cluster := cm_addServer F (rc_log x) src (rc_cluster x)\<rparr> else x);
               (r, p, b) = (if aq_term q > rc_term x then rc_adopt_term B (aq_term q) (rc_persistent_state x, b)
                            else (None, rc_persistent_state x, b));
               x = x\<lparr>rc_persistent_state := p\<rparr>
           in if r \<noteq> None then
                (let (os, x) = rc_handlePersistentStateUpdateError F E x in (None, os, x, b))
              else if aq_term q < rc_term x then (Some \<lparr>ar_term = rc_term x, ar_success = False\<rparr>, [], x, b)
              else
                (let t = rc_term x; (os, x) = rc_switchState ServerStateFollower (rc_registerActivity F E x);
                     (s, x, b) = rc_appendEntries B q (x, b)
                 in (map_option (\<lambda>s. \<lparr>ar_term = t, ar_success = s\<rparr>) s, os, x, b))))"

text \<open>The response of a server to a pending call, which is then no longer pending; \<open>None\<close> for a timeout.\<close>

definition rc_handleAppendEntriesResponse ::
  "raft_config \<Rightarrow> raft_env \<Rightarrow> 'b storage_backend \<Rightarrow> node_id \<Rightarrow> ae_response option \<Rightarrow> raft_core \<times> 'b \<Rightarrow>
    raft_output list \<times> raft_core \<times> 'b" where
  "rc_handleAppendEntriesResponse F E B server result xb =
    (let (x, b) = xb
     in case result of
          None \<Rightarrow> ([], x, b)
        | Some r \<Rightarrow>
            (let (os, x, b) =
               (if ar_term r > rc_term x then rc_tryIncrementCurrentTermFromResponse F E B (ar_term r) (x, b)
                else if ar_success r then
                  ([], x\<lparr>rc_cluster := cm_setServerMatchIndex server (rc_pending_prev_log_index x + rc_pending_num_entries x)
                           (cm_incrementServerNextIndexBy server (rc_pending_num_entries x) (rc_cluster x))\<rparr>, b)
                else ([], x\<lparr>rc_cluster := cm_decrementServerNextIndex server (rc_cluster x)\<rparr>, b))
             in (os, x\<lparr>rc_pending_prev_log_index := 0, rc_pending_num_entries := 0\<rparr>, b)))"

definition rc_handleRequestVoteRequest ::
  "raft_config \<Rightarrow> raft_env \<Rightarrow> 'b storage_backend \<Rightarrow> node_id \<Rightarrow> rv_request \<Rightarrow> raft_core \<times> 'b \<Rightarrow>
    rv_response option \<times> raft_output list \<times> raft_core \<times> 'b" where
  "rc_handleRequestVoteRequest F E B src q xb =
    (let (x, b) = xb
     in if \<not> cm_isKnownServer F src (rc_cluster x) then (None, [], x, b)
        else
          (let (o1, x) = (if vq_term q > rc_term x then rc_switchState ServerStateFollower x else ([], x));
               (r, p, b) = (if vq_term q > rc_term x then rc_adopt_term B (vq_term q) (rc_persistent_state x, b)
                            else (None, rc_persistent_state x, b));
               x = x\<lparr>rc_persistent_state := p\<rparr>
           in if r \<noteq> None then
                (let (o2, x) = rc_handlePersistentStateUpdateError F E x in (None, o1 @ o2, x, b))
              else if vq_term q < rc_term x then (Some \<lparr>vr_term = rc_term x, vr_vote_granted = False\<rparr>, o1, x, b)
              else
                (let can_vote = (\<not> ps_isVotedForSet p \<or> ps_voted_for p = src);
                     log_is_up_to_date = lg_isOtherLogUpToDate (vq_last_log_index q) (vq_last_log_term q) (ps_log p);
                     t = rc_term x
                 in if can_vote \<and> log_is_up_to_date then
                      (let (o2, x) = rc_switchState ServerStateFollower x; x = rc_registerActivity F E x;
                           (r, p, b) = ps_setVotedFor B src (rc_persistent_state x, b)
                       in (if r = None then Some \<lparr>vr_term = t, vr_vote_granted = True\<rparr> else None, o1 @ o2,
                           x\<lparr>rc_persistent_state := p\<rparr>, b))
                    else (Some \<lparr>vr_term = t, vr_vote_granted = False\<rparr>, o1, x, b))))"

definition rc_handleRequestVoteResponse ::
  "raft_config \<Rightarrow> raft_env \<Rightarrow> 'b storage_backend \<Rightarrow> node_id \<Rightarrow> rv_response option \<Rightarrow> raft_core \<times> 'b \<Rightarrow>
    raft_output list \<times> raft_core \<times> 'b" where
  "rc_handleRequestVoteResponse F E B server result xb =
    (let (x, b) = xb
     in case result of
          None \<Rightarrow> ([], x, b)
        | Some r \<Rightarrow>
            if vr_term r > rc_term x then rc_tryIncrementCurrentTermFromResponse F E B (vr_term r) (x, b)
            else if vr_vote_granted r then ([], x\<lparr>rc_num_votes := rc_num_votes x + 1\<rparr>, b)
            else ([], x, b))"

text \<open>
  \<^verbatim>\<open>init\<close>; the results of starting the publisher, the subscriber and the four services are arguments.
\<close>

definition rc_init ::
  "raft_config \<Rightarrow> raft_env \<Rightarrow> 'b storage_backend \<Rightarrow> u8 \<Rightarrow> uavcan_error option list \<Rightarrow> raft_core \<times> 'b \<Rightarrow>
    uavcan_error option \<times> raft_core \<times> 'b" where
  "rc_init F E B cluster_size results xb =
    (let (x, b) = xb;
         x = rc_registerActivity F E (x\<lparr>rc_server_state := ServerStateFollower, rc_next_server_index := 0,
               rc_num_votes := 0, rc_commit_index := 0\<rparr>);
         (r, p, b) = ps_init B (rc_persistent_state x, b); x = x\<lparr>rc_persistent_state := p\<rparr>
     in if r \<noteq> None then (r, x, b)
        else
          (let (r, c, b) = cm_init F B (ps_log p) cluster_size (results ! 0) (results ! 1) (rc_cluster x, b);
               x = x\<lparr>rc_cluster := c\<rparr>
           in if r \<noteq> None then (r, x, b)
              else
                (case filter (\<lambda>r. r \<noteq> None) (take 4 (drop 2 results)) of
                   r # rs \<Rightarrow> (r, x, b)
                 | [] \<Rightarrow>
                     (let num_followers = cm_cluster_size c - 1
                      in (None, x\<lparr>rc_update_interval :=
                            dur_fromMSec (rf_min_election_timeout_ms F div 2 div int (unat (max 2 num_followers)))\<rparr>, b)))))"

definition rc_areAllLogEntriesCommitted :: "raft_core \<Rightarrow> bool" where
  "rc_areAllLogEntriesCommitted x \<longleftrightarrow> rc_commit_index x = lg_last_index (rc_log x)"

definition rc_isLeader :: "raft_core \<Rightarrow> bool" where
  "rc_isLeader x \<longleftrightarrow> rc_server_state x = ServerStateLeader"

definition rc_appendLog ::
  "raft_config \<Rightarrow> raft_env \<Rightarrow> 'b storage_backend \<Rightarrow> unique_id \<Rightarrow> node_id \<Rightarrow> raft_core \<times> 'b \<Rightarrow>
    raft_output list \<times> raft_core \<times> 'b" where
  "rc_appendLog F E B uid nid xb =
    (let (x, b) = xb
     in if rc_isLeader x then
          (let (r, l, b) = lg_append B \<lparr>en_term = rc_term x, en_unique_id = uid, en_node_id = nid\<rparr> (rc_log x, b);
               x = x\<lparr>rc_persistent_state := (rc_persistent_state x)\<lparr>ps_log := l\<rparr>\<rparr>
           in if r \<noteq> None then
                (let (os, x) = rc_handlePersistentStateUpdateError F E x in (os, x, b))
              else ([], x, b))
        else ([], x, b))"

text \<open>An entry with the flag that it is committed.\<close>

definition rc_traverseLogFromEndUntil :: "(raft_entry \<times> bool \<Rightarrow> bool) \<Rightarrow> raft_core \<Rightarrow> (raft_entry \<times> bool) option" where
  "rc_traverseLogFromEndUntil predicate x =
    List.find predicate (map (\<lambda>i. (lg_entries (rc_log x) ! i, i \<le> unat (rc_commit_index x)))
      (rev [0..<Suc (unat (lg_last_index (rc_log x)))]))"

end
