(* ===== verification/RaftNets.thy ===== *)
theory RaftNets
  imports RaftCores
begin

text \<open>
  A cluster of Raft servers that exchange messages over an unreliable network, and the properties of its
  elections: at most one leader in a term, and the assertions of \<^verbatim>\<open>RaftCore::checkInvariants\<close> on votes
  and pending calls.
\<close>

section \<open>The cluster as a transition system\<close>

text \<open>
  The state of the network: each server with its storage, and the responses to requests for votes that were
  sent, with the voter, the candidate and the request.  Requests to append entries, requests for votes,
  discovery messages and responses to requests to append entries may be any at any time; a response to a
  request for a vote reaches the candidate only while the call that it answers is pending, and may be lost.  (The
  code matches a response to its call by the server and by the transfer ID, which repeats after 32
  calls: this supposes that no response is delayed by that many calls.)  A handler runs to its end before the next event.
  The storage may fail in any way while a server runs; a server restarts with the term, the vote and the log
  that it had.
\<close>

type_synonym 'b raft_net = "(node_id \<Rightarrow> raft_core \<times> 'b) \<times> (node_id \<times> node_id \<times> rv_request \<times> rv_response) set"

inductive raft_reachable ::
  "(node_id \<Rightarrow> raft_config) \<Rightarrow> 'b storage_backend \<Rightarrow> node_id set \<Rightarrow> u8 \<Rightarrow> 'b raft_net \<Rightarrow> bool" for F B S n where
  raft_start: "(\<And>v. v \<in> S \<Longrightarrow> \<exists>E now b0 k rs. rc_init (F v) E B k rs (RaftCore (F v) now, b0) = (None, nodes v) \<and>
      cm_cluster_size (rc_cluster (fst (nodes v))) = n) \<Longrightarrow> raft_reachable F B S n (nodes, {})"
| raft_timer: "raft_reachable F B S n (nodes, rs) \<Longrightarrow> v \<in> S \<Longrightarrow>
    rc_handleTimerEvent (F v) E B (nodes v) = (os, xb) \<Longrightarrow> raft_reachable F B S n (nodes(v := xb), rs)"
| raft_ae_request: "raft_reachable F B S n (nodes, rs) \<Longrightarrow> v \<in> S \<Longrightarrow>
    rc_handleAppendEntriesRequest (F v) E B src q (nodes v) = (r, os, xb) \<Longrightarrow> raft_reachable F B S n (nodes(v := xb), rs)"
| raft_ae_response: "raft_reachable F B S n (nodes, rs) \<Longrightarrow> v \<in> S \<Longrightarrow> nodes v = (x, b) \<Longrightarrow>
    (w, q) \<in> set (rc_append_entries_calls x) \<Longrightarrow>
    rc_handleAppendEntriesResponse (F v) E B w result
      (x\<lparr>rc_append_entries_calls := remove1 (w, q) (rc_append_entries_calls x)\<rparr>, b) = (os, xb) \<Longrightarrow>
    raft_reachable F B S n (nodes(v := xb), rs)"
| raft_rv_request: "raft_reachable F B S n (nodes, rs) \<Longrightarrow> v \<in> S \<Longrightarrow> src \<noteq> v \<Longrightarrow>
    rc_handleRequestVoteRequest (F v) E B src q (nodes v) = (r, os, xb) \<Longrightarrow>
    raft_reachable F B S n (nodes(v := xb), case r of None \<Rightarrow> rs | Some a \<Rightarrow> insert (v, src, q, a) rs)"
| raft_rv_response: "raft_reachable F B S n (nodes, rs) \<Longrightarrow> v \<in> S \<Longrightarrow> nodes v = (x, b) \<Longrightarrow>
    (w, q) \<in> set (rc_request_vote_calls x) \<Longrightarrow> (w, v, q, a) \<in> rs \<Longrightarrow>
    rc_handleRequestVoteResponse (F v) E B w (Some a)
      (x\<lparr>rc_request_vote_calls := remove1 (w, q) (rc_request_vote_calls x)\<rparr>, b) = (os, xb) \<Longrightarrow>
    raft_reachable F B S n (nodes(v := xb), rs)"
| raft_rv_timeout: "raft_reachable F B S n (nodes, rs) \<Longrightarrow> v \<in> S \<Longrightarrow> nodes v = (x, b) \<Longrightarrow>
    (w, q) \<in> set (rc_request_vote_calls x) \<Longrightarrow>
    rc_handleRequestVoteResponse (F v) E B w None
      (x\<lparr>rc_request_vote_calls := remove1 (w, q) (rc_request_vote_calls x)\<rparr>, b) = (os, xb) \<Longrightarrow>
    raft_reachable F B S n (nodes(v := xb), rs)"
| raft_discovery: "raft_reachable F B S n (nodes, rs) \<Longrightarrow> v \<in> S \<Longrightarrow> nodes v = (x, b) \<Longrightarrow>
    raft_reachable F B S n (nodes(v := (x\<lparr>rc_cluster := cm_handleDiscovery (F v) (rc_log x) msg (rc_cluster x)\<rparr>, b)), rs)"
| raft_discovery_timer: "raft_reachable F B S n (nodes, rs) \<Longrightarrow> v \<in> S \<Longrightarrow> nodes v = (x, b) \<Longrightarrow>
    cm_handleTimerEvent (F v) (rc_cluster x) = (msg, c) \<Longrightarrow> raft_reachable F B S n (nodes(v := (x\<lparr>rc_cluster := c\<rparr>, b)), rs)"
| raft_append: "raft_reachable F B S n (nodes, rs) \<Longrightarrow> v \<in> S \<Longrightarrow>
    rc_appendLog (F v) E B uid nid (nodes v) = (os, xb) \<Longrightarrow> raft_reachable F B S n (nodes(v := xb), rs)"
| raft_restart: "raft_reachable F B S n (nodes, rs) \<Longrightarrow> v \<in> S \<Longrightarrow> nodes v = (x, b) \<Longrightarrow>
    rc_init (F v) E B k results (RaftCore (F v) now, b) = (None, x', b') \<Longrightarrow> cm_cluster_size (rc_cluster x') = n \<Longrightarrow>
    ps_same (rc_persistent_state x') (rc_persistent_state x) \<Longrightarrow> raft_reachable F B S n (nodes(v := (x', b')), rs)"

section \<open>Votes\<close>

text \<open>
  A history of votes is a set of voters, terms and candidates.  A server is in accordance with it if it has
  not voted in a later term, and if its vote in the present term is recorded; a campaign that failed to store
  the new term may have replaced the record by the server's own ID.
\<close>

type_synonym votes = "(node_id \<times> raft_term \<times> node_id) set"

definition voters :: "votes \<Rightarrow> node_id \<Rightarrow> raft_term \<Rightarrow> node_id set" where
  "voters V c t = {v. (v, t, c) \<in> V}"

definition vote_ok :: "votes \<Rightarrow> node_id \<Rightarrow> persistent_state \<Rightarrow> bool" where
  "vote_ok V v p \<longleftrightarrow> (\<forall>t c. (v, t, c) \<in> V \<longrightarrow>
     t \<le> ps_current_term p \<and> (t = ps_current_term p \<longrightarrow> ps_voted_for p = c \<or> ps_voted_for p = v))"

definition rc_base :: "raft_config \<Rightarrow> u8 \<Rightarrow> votes \<Rightarrow> raft_core \<Rightarrow> bool" where
  "rc_base F n V x \<longleftrightarrow> vote_ok V (rf_self F) (rc_persistent_state x) \<and> cm_inv F (rc_cluster x) \<and>
    cm_bounded F (rc_cluster x) \<and> cm_cluster_size (rc_cluster x) = n"

definition rc_campaign :: "raft_config \<Rightarrow> votes \<Rightarrow> raft_core \<Rightarrow> bool" where
  "rc_campaign F V x \<longleftrightarrow>
    (if rc_num_votes x = 0 then rc_request_vote_calls x = []
     else rc_voted_for x = rf_self F \<and> distinct (map fst (rc_request_vote_calls x)) \<and>
       (\<forall>c \<in> set (rc_request_vote_calls x). vq_term (snd c) = rc_term x) \<and>
       (\<exists>R. R \<subseteq> voters V (rf_self F) (rc_term x) \<and> card R = unat (rc_num_votes x) \<and>
         R \<inter> fst ` set (rc_request_vote_calls x) = {}))"

definition rc_role :: "raft_config \<Rightarrow> votes \<Rightarrow> raft_core \<Rightarrow> bool" where
  "rc_role F V x \<longleftrightarrow>
    (case rc_server_state x of
       ServerStateFollower \<Rightarrow> rc_num_votes x = 0 \<and> rc_append_entries_calls x = [] \<and> rc_request_vote_calls x = []
     | ServerStateCandidate \<Rightarrow> rc_append_entries_calls x = [] \<and>
         length (rc_request_vote_calls x) \<le> length (cm_servers (rc_cluster x)) \<and> rc_campaign F V x
     | ServerStateLeader \<Rightarrow> rc_num_votes x = 0 \<and> rc_request_vote_calls x = [] \<and> length (rc_append_entries_calls x) \<le> 1 \<and>
         (\<exists>R. R \<subseteq> voters V (rf_self F) (rc_term x) \<and> unat (cm_getQuorumSize (rc_cluster x)) \<le> card R))"

definition rc_ok :: "raft_config \<Rightarrow> u8 \<Rightarrow> votes \<Rightarrow> raft_core \<Rightarrow> bool" where
  "rc_ok F n V x \<longleftrightarrow> rc_base F n V x \<and> rc_role F V x"

lemma setCurrentTerm_cases:
  "ps_setCurrentTerm B t (p, b) = (r, p', b') \<Longrightarrow>
    (r = None \<and> p' = p\<lparr>ps_current_term := t\<rparr> \<and> ps_current_term p \<le> t) \<or> (r \<noteq> None \<and> p' = p)"
  by (auto simp: ps_setCurrentTerm_def not_less split: if_splits prod.splits option.splits)

lemma setVotedFor_cases:
  "ps_setVotedFor B nid (p, b) = (r, p', b') \<Longrightarrow> (r = None \<and> p' = p\<lparr>ps_voted_for := nid\<rparr>) \<or> (r \<noteq> None \<and> p' = p)"
  by (auto simp: ps_setVotedFor_def split: if_splits prod.splits option.splits)

lemma adopt_term_cases:
  assumes "rc_adopt_term B t (p, b) = (r, p', b')"
  shows "(r = None \<and> p' = p\<lparr>ps_current_term := t, ps_voted_for := 0\<rparr> \<and> ps_current_term p \<le> t) \<or>
    (r \<noteq> None \<and> (p' = p \<or> p' = p\<lparr>ps_current_term := t\<rparr> \<and> ps_current_term p \<le> t))"
proof -
  obtain r1 p1 b1 where s: "ps_setCurrentTerm B t (p, b) = (r1, p1, b1)" by (metis prod_cases3)
  show ?thesis
  proof (cases r1)
    case None
    then show ?thesis using assms s setCurrentTerm_cases [OF s] setVotedFor_cases [of B 0 p1 b1 r p' b']
      by (auto simp: rc_adopt_term_def ps_resetVotedFor_def)
  next
    case (Some e)
    then show ?thesis using assms s setCurrentTerm_cases [OF s] by (auto simp: rc_adopt_term_def)
  qed
qed

lemma vote_ok_later: "vote_ok V v p \<Longrightarrow> ps_current_term p < t \<Longrightarrow> vote_ok V v (p\<lparr>ps_current_term := t, ps_voted_for := c\<rparr>)"
  by (force simp: vote_ok_def)

lemma vote_ok_term: "vote_ok V v p \<Longrightarrow> ps_current_term p \<le> t \<Longrightarrow> vote_ok V v (p\<lparr>ps_current_term := t\<rparr>)"
  using vote_ok_later [of V v p t "ps_voted_for p"] by (cases "ps_current_term p = t") auto

lemma vote_ok_self: "vote_ok V v p \<Longrightarrow> vote_ok V v (p\<lparr>ps_voted_for := v\<rparr>)"
  by (auto simp: vote_ok_def)

lemma vote_ok_log: "vote_ok V v (p\<lparr>ps_log := l\<rparr>) = vote_ok V v p"
  by (simp add: vote_ok_def)

lemma vote_ok_adopt:
  assumes "vote_ok V v p" and "ps_current_term p < t" and "rc_adopt_term B t (p, b) = (r, p', b')"
  shows "vote_ok V v p'"
proof -
  have "vote_ok V v (p\<lparr>ps_current_term := t, ps_voted_for := 0\<rparr>)" "vote_ok V v (p\<lparr>ps_current_term := t\<rparr>)"
    using vote_ok_later [OF assms(1,2)] vote_ok_term [of V v p t] assms(1,2) by auto
  then show ?thesis using adopt_term_cases [OF assms(3)] assms(1) by auto
qed

lemma base_reset_indices:
  "cm_inv F (cm_resetAllServerIndices l c) = cm_inv F c" "cm_cluster_size (cm_resetAllServerIndices l c) = cm_cluster_size c"
  "length (cm_servers (cm_resetAllServerIndices l c)) = length (cm_servers c)"
  "cm_getQuorumSize (cm_resetAllServerIndices l c) = cm_getQuorumSize c"
  "cm_bounded F (cm_resetAllServerIndices l c) = cm_bounded F c"
proof -
  have "map sv_node_id (cm_servers (cm_resetAllServerIndices l c)) = map sv_node_id (cm_servers c)"
    by (simp add: cm_resetAllServerIndices_def sv_resetIndices_def)
  then show "cm_inv F (cm_resetAllServerIndices l c) = cm_inv F c" by (rule cm_inv_ids)
qed (simp_all add: cm_resetAllServerIndices_def cm_getQuorumSize_def cm_bounded_def)

lemma registerActivity_simps [simp]:
  "rc_persistent_state (rc_registerActivity F E x) = rc_persistent_state x"
  "rc_cluster (rc_registerActivity F E x) = rc_cluster x" "rc_server_state (rc_registerActivity F E x) = rc_server_state x"
  "rc_num_votes (rc_registerActivity F E x) = rc_num_votes x"
  "rc_append_entries_calls (rc_registerActivity F E x) = rc_append_entries_calls x"
  "rc_request_vote_calls (rc_registerActivity F E x) = rc_request_vote_calls x"
  "rc_commit_index (rc_registerActivity F E x) = rc_commit_index x"
  by (simp_all add: rc_registerActivity_def Let_def)

lemma base_registerActivity [simp]:
  "rc_base F n V (rc_registerActivity F' E x) = rc_base F n V x"
  "rc_role F V (rc_registerActivity F' E x) = rc_role F V x"
  by (simp_all add: rc_base_def rc_role_def rc_campaign_def cong: server_state.case_cong)

text \<open>Going back to be a follower needs nothing of the role that the server had.\<close>

definition rc_idle :: "raft_core \<Rightarrow> bool" where
  "rc_idle x \<longleftrightarrow> rc_num_votes x = 0 \<and> rc_append_entries_calls x = [] \<and> rc_request_vote_calls x = []"

lemma switch_follower:
  assumes "rc_base F n V x" and "rc_server_state x = ServerStateFollower \<Longrightarrow> rc_idle x"
    and "rc_switchState ServerStateFollower x = (os, x')"
  shows "rc_ok F n V x' \<and> rc_server_state x' = ServerStateFollower \<and> rc_persistent_state x' = rc_persistent_state x"
  using assms base_reset_indices
  by (auto simp: rc_switchState_def rc_ok_def rc_base_def rc_role_def rc_idle_def split: if_splits)

lemma error_follower:
  assumes "rc_base F n V x" and "rc_server_state x = ServerStateFollower \<Longrightarrow> rc_idle x"
    and "rc_handlePersistentStateUpdateError F' E x = (os, x')"
  shows "rc_ok F n V x'"
proof -
  obtain o1 x1 where s: "rc_switchState ServerStateFollower x = (o1, x1)" by fastforce
  then show ?thesis using switch_follower [OF assms(1,2) s] assms(3)
    by (auto simp: rc_handlePersistentStateUpdateError_def rc_ok_def)
qed

lemma role_idle: "rc_role F V x \<Longrightarrow> rc_server_state x = ServerStateFollower \<Longrightarrow> rc_idle x"
  by (simp add: rc_role_def rc_idle_def)

lemma base_persistent:
  "rc_base F n V x \<Longrightarrow> vote_ok V (rf_self F) p \<Longrightarrow> rc_base F n V (x\<lparr>rc_persistent_state := p\<rparr>)"
  by (simp add: rc_base_def)

lemma role_follower_update:
  "rc_server_state x' = ServerStateFollower \<Longrightarrow> rc_idle x' \<Longrightarrow> rc_base F n V x' \<Longrightarrow> rc_ok F n V x'"
  by (simp add: rc_ok_def rc_role_def rc_idle_def)

lemma tryIncrement_ok:
  assumes "rc_ok F n V x" and "rc_tryIncrementCurrentTermFromResponse F' E B t (x, b) = (os, x', b')"
  shows "rc_ok F n V x'"
proof -
  obtain r p b1 where s: "ps_setCurrentTerm B t (rc_persistent_state x, b) = (r, p, b1)" by (metis prod_cases3)
  have v: "vote_ok V (rf_self F) p"
    using setCurrentTerm_cases [OF s] assms(1) vote_ok_term by (auto simp: rc_ok_def rc_base_def)
  obtain o1 x1 where w: "rc_switchState ServerStateFollower (rc_registerActivity F' E (x\<lparr>rc_persistent_state := p\<rparr>)) = (o1, x1)" by fastforce
  have "rc_base F n V (rc_registerActivity F' E (x\<lparr>rc_persistent_state := p\<rparr>))"
    using base_persistent [OF _ v, of n x] assms(1) by (simp add: rc_ok_def)
  moreover have "rc_server_state (rc_registerActivity F' E (x\<lparr>rc_persistent_state := p\<rparr>)) = ServerStateFollower \<Longrightarrow>
      rc_idle (rc_registerActivity F' E (x\<lparr>rc_persistent_state := p\<rparr>))"
    using role_idle [of F V x] assms(1) by (simp add: rc_ok_def rc_idle_def)
  ultimately have "rc_ok F n V x1" using switch_follower [OF _ _ w] by blast
  then show ?thesis using assms(2) s w by (simp add: rc_tryIncrementCurrentTermFromResponse_def)
qed

lemma appendEntries_frame:
  assumes "rc_appendEntries B q (x, b) = (s, x', b')"
  shows "\<exists>l c. x' = x\<lparr>rc_persistent_state := (rc_persistent_state x)\<lparr>ps_log := l\<rparr>, rc_commit_index := c\<rparr>"
proof -
  let ?X = "\<lambda>l c. x\<lparr>rc_persistent_state := (rc_persistent_state x)\<lparr>ps_log := l\<rparr>, rc_commit_index := c\<rparr>"
  have same: "x = ?X (rc_log x) (rc_commit_index x)" by simp
  have log: "x\<lparr>rc_persistent_state := (rc_persistent_state x)\<lparr>ps_log := l\<rparr>\<rparr> = ?X l (rc_commit_index x)" for l by simp
  show ?thesis
  proof (cases "lg_getEntryAtIndex (aq_prev_log_index q) (rc_log x)")
    case None
    then have "x' = x" using assms by (simp add: rc_appendEntries_def)
    then show ?thesis using same by blast
  next
    case (Some e)
    obtain r1 l1 b1 where rm: "lg_removeEntriesWhereIndexGreaterOrEqual B (aq_prev_log_index q) (rc_log x, b) = (r1, l1, b1)"
      by (metis prod_cases3)
    obtain r2 l2 b2 where rg: "(if aq_prev_log_index q \<noteq> lg_last_index (rc_log x)
        then lg_removeEntriesWhereIndexGreater B (aq_prev_log_index q) (rc_log x, b) else (None, rc_log x, b)) = (r2, l2, b2)"
      by (metis prod_cases3)
    obtain r3 l3 b3 where al: "rc_append_loop B (aq_entries q) (l2, b2) = (r3, l3, b3)" by (metis prod_cases3)
    have "x' = ?X l1 (rc_commit_index x) \<or> x' = ?X l2 (rc_commit_index x) \<or> x' = ?X l3 (rc_commit_index x) \<or>
        x' = ?X l3 (min (aq_leader_commit q) (lg_last_index l3))"
      using assms Some rm rg al unfolding rc_appendEntries_def Let_def by (simp split: if_splits)
    then show ?thesis by blast
  qed
qed

lemma ok_log_commit:
  "rc_ok F n V (x\<lparr>rc_persistent_state := (rc_persistent_state x)\<lparr>ps_log := l\<rparr>, rc_commit_index := c\<rparr>) = rc_ok F n V x"
  by (simp add: rc_ok_def rc_base_def rc_role_def rc_campaign_def vote_ok_log cong: server_state.case_cong)

lemma ok_add_server:
  assumes "rc_ok F n V x" and "\<not> cm_isClusterDiscovered (rc_cluster x)"
  shows "rc_ok F n V (x\<lparr>rc_cluster := cm_addServer F l src (rc_cluster x)\<rparr>)"
proof -
  have "length (cm_servers (rc_cluster x)) \<le> length (cm_servers (cm_addServer F l src (rc_cluster x)))"
    by (simp add: cm_addServer_def)
  then show ?thesis using assms cm_inv_add [of F "rc_cluster x" l src] cm_bounded_add [of F "rc_cluster x" l src]
    by (auto simp: rc_ok_def rc_base_def rc_role_def rc_campaign_def cm_getQuorumSize_def split: server_state.splits)
qed

lemma handleAppendEntriesRequest_ok:
  assumes "rc_ok F n V x" and "rc_handleAppendEntriesRequest F E B src q (x, b) = (r, os, x', b')"
  shows "rc_ok F n V x'"
proof (cases "\<not> cm_isKnownServer F src (rc_cluster x) \<and> cm_isClusterDiscovered (rc_cluster x)")
  case True
  then show ?thesis using assms by (simp add: rc_handleAppendEntriesRequest_def)
next
  case False
  define y where "y = (if \<not> cm_isKnownServer F src (rc_cluster x)
    then x\<lparr>rc_cluster := cm_addServer F (rc_log x) src (rc_cluster x)\<rparr> else x)"
  have y: "rc_ok F n V y" using assms(1) ok_add_server [OF assms(1)] False by (auto simp: y_def)
  obtain r1 p b1 where ad: "(if aq_term q > rc_term y then rc_adopt_term B (aq_term q) (rc_persistent_state y, b)
      else (None, rc_persistent_state y, b)) = (r1, p, b1)" by (metis prod_cases3)
  have v: "vote_ok V (rf_self F) p"
    using vote_ok_adopt [of V "rf_self F" "rc_persistent_state y" "aq_term q" B b r1 p b1] ad y
    by (auto simp: rc_ok_def rc_base_def split: if_splits)
  let ?z = "y\<lparr>rc_persistent_state := p\<rparr>"
  have z: "rc_base F n V ?z" "rc_server_state ?z = ServerStateFollower \<Longrightarrow> rc_idle ?z"
    using y v base_persistent [of F n V y p] role_idle [of F V y] by (auto simp: rc_ok_def rc_idle_def)
  have f: "rc_handleAppendEntriesRequest F E B src q (x, b) =
     (if r1 \<noteq> None then (let (os, x) = rc_handlePersistentStateUpdateError F E ?z in (None, os, x, b1))
      else if aq_term q < rc_term ?z then (Some \<lparr>ar_term = rc_term ?z, ar_success = False\<rparr>, [], ?z, b1)
      else (let t = rc_term ?z; (os, x) = rc_switchState ServerStateFollower (rc_registerActivity F E ?z);
                (s, x, b) = rc_appendEntries B q (x, b1)
            in (map_option (\<lambda>s. \<lparr>ar_term = t, ar_success = s\<rparr>) s, os, x, b)))"
    unfolding rc_handleAppendEntriesRequest_def prod.case Let_def if_not_P [OF False] y_def [symmetric] ad ..
  consider "r1 \<noteq> None" | "r1 = None" "aq_term q < rc_term ?z" | "r1 = None" "\<not> aq_term q < rc_term ?z" by blast
  then show ?thesis
  proof cases
    case 1
    then show ?thesis using f assms(2) error_follower [OF z] by (auto split: prod.splits)
  next
    case 2
    then have "?z = y" using ad adopt_term_cases [of B "aq_term q" "rc_persistent_state y" b r1 p b1] by (auto split: if_splits)
    then show ?thesis using f assms(2) 2 y by simp
  next
    case 3
    obtain o1 x1 where sw: "rc_switchState ServerStateFollower (rc_registerActivity F E ?z) = (o1, x1)" by fastforce
    have "rc_ok F n V x1" using switch_follower [OF _ _ sw, of F n V] z by (auto simp: rc_idle_def)
    moreover obtain s x2 b2 where ap: "rc_appendEntries B q (x1, b1) = (s, x2, b2)" by (metis prod_cases3)
    ultimately have "rc_ok F n V x2" using appendEntries_frame [OF ap] ok_log_commit by metis
    then show ?thesis using f assms(2) 3 sw ap by (simp add: Let_def)
  qed
qed

lemma handleAppendEntriesResponse_ok:
  assumes "rc_ok F n V x" and "(w, q) \<in> set (rc_append_entries_calls x)"
    and "rc_handleAppendEntriesResponse F E B w result
      (x\<lparr>rc_append_entries_calls := remove1 (w, q) (rc_append_entries_calls x)\<rparr>, b) = (os, x', b')"
  shows "rc_ok F n V x'"
proof -
  let ?y = "x\<lparr>rc_append_entries_calls := remove1 (w, q) (rc_append_entries_calls x)\<rparr>"
  have ld: "rc_server_state x = ServerStateLeader" using assms(1,2) by (auto simp: rc_ok_def rc_role_def split: server_state.splits)
  then have y: "rc_ok F n V ?y" using assms(1) by (auto simp: rc_ok_def rc_base_def rc_role_def length_remove1)
  have c: "cm_inv F c' = cm_inv F c \<and> length (cm_servers c') = length (cm_servers c)"
    if "map sv_node_id (cm_servers c') = map sv_node_id (cm_servers c)" for c c'
    using that cm_inv_ids [OF that] by (metis length_map)
  have upd: "rc_ok F n V (?y\<lparr>rc_cluster := c\<rparr>)"
    if "map sv_node_id (cm_servers c) = map sv_node_id (cm_servers (rc_cluster x))" "cm_cluster_size c = cm_cluster_size (rc_cluster x)" for c
    using y c [OF that(1)] that(2) ld cm_bounded_same [of c "rc_cluster x" F] by (auto simp: rc_ok_def rc_base_def rc_role_def cm_getQuorumSize_def)
  have pend: "rc_ok F n V (z\<lparr>rc_pending_prev_log_index := i, rc_pending_num_entries := j\<rparr>) = rc_ok F n V z" for z i j
    by (simp add: rc_ok_def rc_base_def rc_role_def rc_campaign_def cong: server_state.case_cong)
  show ?thesis
  proof (cases result)
    case None
    then show ?thesis using assms(3) y by (simp add: rc_handleAppendEntriesResponse_def)
  next
    case (Some a)
    consider "ar_term a > rc_term x" | "\<not> ar_term a > rc_term x" "ar_success a" | "\<not> ar_term a > rc_term x" "\<not> ar_success a" by blast
    then show ?thesis
    proof cases
      case 1
      obtain o1 x1 b1 where t: "rc_tryIncrementCurrentTermFromResponse F E B (ar_term a) (?y, b) = (o1, x1, b1)" by (metis prod_cases3)
      then show ?thesis using assms(3) Some 1 tryIncrement_ok [OF y t] pend by (auto simp: rc_handleAppendEntriesResponse_def)
    next
      case 2
      then show ?thesis using assms(3) Some pend upd
        by (auto simp: rc_handleAppendEntriesResponse_def cm_setServerMatchIndex_def cm_incrementServerNextIndexBy_def cm_modifyServer_ids)
    next
      case 3
      then show ?thesis using assms(3) Some pend upd
        by (auto simp: rc_handleAppendEntriesResponse_def cm_decrementServerNextIndex_def cm_modifyServer_ids)
    qed
  qed
qed

lemma rc_campaignI:
  "rc_num_votes x \<noteq> 0 \<Longrightarrow> rc_voted_for x = rf_self F \<Longrightarrow> distinct (map fst (rc_request_vote_calls x)) \<Longrightarrow>
    \<forall>c \<in> set (rc_request_vote_calls x). vq_term (snd c) = rc_term x \<Longrightarrow> R \<subseteq> voters V (rf_self F) (rc_term x) \<Longrightarrow>
    card R = unat (rc_num_votes x) \<Longrightarrow> R \<inter> fst ` set (rc_request_vote_calls x) = {} \<Longrightarrow> rc_campaign F V x"
  by (auto simp: rc_campaign_def)

lemma handleRequestVoteResponse_ok:
  assumes "rc_ok F n V x" and "(w, q) \<in> set (rc_request_vote_calls x)"
    and "\<And>a. result = Some a \<Longrightarrow> vr_vote_granted a \<Longrightarrow> (w, vq_term q, rf_self F) \<in> V"
    and "\<And>t. card (voters V (rf_self F) t) < 256"
    and "rc_handleRequestVoteResponse F E B w result
      (x\<lparr>rc_request_vote_calls := remove1 (w, q) (rc_request_vote_calls x)\<rparr>, b) = (os, x', b')"
  shows "rc_ok F n V x'"
proof -
  let ?y = "x\<lparr>rc_request_vote_calls := remove1 (w, q) (rc_request_vote_calls x)\<rparr>"
  have cand: "rc_server_state x = ServerStateCandidate"
    using assms(1,2) by (auto simp: rc_ok_def rc_role_def split: server_state.splits)
  then have base: "rc_base F n V x" "rc_append_entries_calls x = []"
    "length (rc_request_vote_calls x) \<le> length (cm_servers (rc_cluster x))" "rc_campaign F V x"
    using assms(1) by (auto simp: rc_ok_def rc_role_def)
  have nz: "rc_num_votes x \<noteq> 0" using base(4) assms(2) by (auto simp: rc_campaign_def)
  obtain R where R: "R \<subseteq> voters V (rf_self F) (rc_term x)" "card R = unat (rc_num_votes x)"
    "R \<inter> fst ` set (rc_request_vote_calls x) = {}"
    using base(4) nz by (auto simp: rc_campaign_def)
  have d: "distinct (map fst (rc_request_vote_calls x))" "\<forall>c \<in> set (rc_request_vote_calls x). vq_term (snd c) = rc_term x"
    "rc_voted_for x = rf_self F"
    using base(4) nz by (auto simp: rc_campaign_def)
  have sub: "set (remove1 (w, q) (rc_request_vote_calls x)) \<subseteq> set (rc_request_vote_calls x)" by (rule set_remove1_subset)
  have dd: "distinct (map fst (remove1 (w, q) (rc_request_vote_calls x)))" using d(1) by (auto simp: distinct_map intro: inj_on_subset)
  have wn: "w \<notin> fst ` set (remove1 (w, q) (rc_request_vote_calls x))"
    using d(1) assms(2) by (fastforce simp: distinct_map inj_on_def)
  have len: "length (remove1 (w, q) (rc_request_vote_calls x)) \<le> length (cm_servers (rc_cluster x))"
    using base(3) by (simp add: length_remove1) linarith
  have y: "rc_ok F n V ?y"
  proof -
    have "R \<inter> fst ` set (remove1 (w, q) (rc_request_vote_calls x)) = {}" using R(3) sub by blast
    then have "rc_campaign F V ?y" by (intro rc_campaignI [of _ _ R]) (use nz d dd sub R in auto)
    then show ?thesis using base len cand by (simp add: rc_ok_def rc_base_def rc_role_def)
  qed
  show ?thesis
  proof (cases "\<exists>a. result = Some a \<and> \<not> vr_term a > rc_term x \<and> vr_vote_granted a")
    case True
    then obtain a where a: "result = Some a" "\<not> vr_term a > rc_term x" "vr_vote_granted a" by blast
    have "vq_term q = rc_term x" using d(2) assms(2) by auto
    then have wV: "insert w R \<subseteq> voters V (rf_self F) (rc_term x)" using assms(3) [OF a(1,3)] R(1) by (simp add: voters_def)
    have "w \<notin> R" using R(3) assms(2) by force
    then have card: "card (insert w R) = Suc (unat (rc_num_votes x))" using R(2) by simp
    have "card (insert w R) < 256" using card_mono [OF _ wV] assms(4) [of "rc_term x"] by (simp add: le_less_trans)
    then have u: "unat (rc_num_votes x + 1) = Suc (unat (rc_num_votes x))" using card by (simp add: unat_word_ariths)
    then have "rc_num_votes x + 1 \<noteq> 0" by auto
    moreover have "insert w R \<inter> fst ` set (remove1 (w, q) (rc_request_vote_calls x)) = {}" using wn R(3) sub by blast
    ultimately have "rc_campaign F V (?y\<lparr>rc_num_votes := rc_num_votes x + 1\<rparr>)"
      by (intro rc_campaignI [of _ _ "insert w R"]) (use d dd sub wV card u in auto)
    then have "rc_ok F n V (?y\<lparr>rc_num_votes := rc_num_votes x + 1\<rparr>)"
      using base len cand by (simp add: rc_ok_def rc_base_def rc_role_def)
    then show ?thesis using assms(5) a by (simp add: rc_handleRequestVoteResponse_def)
  next
    case False
    then show ?thesis using assms(5) y tryIncrement_ok [OF y, of F E B _ b os x' b']
      by (auto simp: rc_handleRequestVoteResponse_def split: option.splits if_splits)
  qed
qed

lemma request_votes_spec:
  assumes "rc_request_votes F E req [i..<m] x = (os, x')" and "m \<le> 256" and "distinct (map sv_node_id (cm_servers (rc_cluster x)))"
  shows "\<exists>ns. x' = x\<lparr>rc_request_vote_calls := rc_request_vote_calls x @ map (\<lambda>w. (w, req)) ns\<rparr> \<and> distinct ns \<and>
    set ns \<subseteq> set (drop i (map sv_node_id (cm_servers (rc_cluster x)))) - {rf_self F} \<and>
    length ns \<le> length (drop i (cm_servers (rc_cluster x)))"
  using assms
proof (induction "m - i" arbitrary: i x os x')
  case 0
  then show ?case by (intro exI [of _ "[]"]) simp
next
  case (Suc k)
  then have im: "i < m" "[i..<m] = i # [Suc i..<m]" by (simp_all add: upt_conv_Cons)
  have iw: "unat (word_of_nat i :: u8) = i" using im Suc.prems(2) by (simp add: unat_of_nat)
  let ?ids = "map sv_node_id (cm_servers (rc_cluster x))"
  let ?nid = "cm_getRemoteServerNodeIDAtIndex (word_of_nat i) (rc_cluster x)"
  show ?case
  proof (cases "node_id_isUnicast ?nid")
    case False
    then show ?thesis using Suc.prems(1) im by (intro exI [of _ "[]"]) simp
  next
    case True
    then have il: "i < length ?ids" "?nid = ?ids ! i"
      by (auto simp: cm_getRemoteServerNodeIDAtIndex_def iw node_id_isUnicast_def node_id_invalid_def split: if_splits)
    have dr: "drop i ?ids = ?nid # drop (Suc i) ?ids" using Cons_nth_drop_Suc [OF il(1)] il(2) by simp
    have nn: "?nid \<notin> set (drop (Suc i) ?ids)" using Suc.prems(3) dr by (metis distinct.simps(2) distinct_drop)
    define y where "y = (if rc_call_ok F E ?nid then x\<lparr>rc_request_vote_calls := rc_request_vote_calls x @ [(?nid, req)]\<rparr> else x)"
    obtain o2 x2 where r: "rc_request_votes F E req [Suc i..<m] y = (o2, x2)" by fastforce
    have x2: "x' = x2" using Suc.prems(1) im True r by (auto simp: y_def split: if_splits prod.splits)
    have yc: "rc_cluster y = rc_cluster x" by (simp add: y_def)
    have "k = m - Suc i" using Suc.hyps(2) by simp
    from Suc.hyps(1) [OF this r Suc.prems(2)] obtain ns
      where ns: "x2 = y\<lparr>rc_request_vote_calls := rc_request_vote_calls y @ map (\<lambda>w. (w, req)) ns\<rparr>" "distinct ns"
      "set ns \<subseteq> set (drop (Suc i) ?ids) - {rf_self F}" "length ns \<le> length (drop (Suc i) (cm_servers (rc_cluster x)))"
      using Suc.prems(3) unfolding yc by blast
    show ?thesis
    proof (cases "rc_call_ok F E ?nid")
      case True
      then have "?nid \<noteq> rf_self F" by (simp add: rc_call_ok_def)
      then show ?thesis using ns x2 True nn dr il by (intro exI [of _ "?nid # ns"]) (auto simp: y_def)
    next
      case False
      then show ?thesis using ns x2 dr il by (intro exI [of _ ns]) (auto simp: y_def)
    qed
  qed
qed

lemma propagateCommitIndex_ok:
  assumes "rc_propagateCommitIndex x = (os, x')"
  shows "rc_ok F n V x' = rc_ok F n V x"
proof -
  have "rc_ok F n V (x\<lparr>rc_commit_index := c\<rparr>) = rc_ok F n V x" for c
    by (simp add: rc_ok_def rc_base_def rc_role_def rc_campaign_def cong: server_state.case_cong)
  then show ?thesis using assms by (auto simp: rc_propagateCommitIndex_def Let_def split: if_splits)
qed

lemma updateLeader_ok:
  assumes "rc_ok F n V x" and "rc_server_state x = ServerStateLeader" and "rc_updateLeader F E x = (os, x')"
  shows "rc_ok F n V x'"
proof -
  let ?x = "x\<lparr>rc_append_entries_calls := []\<rparr>"
  show ?thesis
  proof (cases "cm_cluster_size (rc_cluster x) > 1")
    case False
    have "rc_ok F n V ?x" using assms(1,2) by (simp add: rc_ok_def rc_base_def rc_role_def)
    then show ?thesis using assms(3) False propagateCommitIndex_ok [of ?x os x' F n V] by (simp add: rc_updateLeader_def)
  next
    case True
    define i where "i = (if rc_next_server_index x + 1 \<ge> cm_getNumKnownServers (rc_cluster x) then 0 else rc_next_server_index x + 1)"
    define nid where "nid = cm_getRemoteServerNodeIDAtIndex (rc_next_server_index x) (rc_cluster x)"
    define y where "y = ?x\<lparr>rc_next_server_index := i\<rparr>"
    have y: "rc_ok F n V y" "rc_server_state y = ServerStateLeader"
      using assms(1,2) by (simp_all add: y_def rc_ok_def rc_base_def rc_role_def)
    show ?thesis
    proof (cases "lg_getEntryAtIndex (cm_getServerNextIndex nid (rc_cluster x) - 1) (rc_log x)")
      case None
      then have "rc_handlePersistentStateUpdateError F E y = (os, x')"
        using assms(3) True by (simp add: rc_updateLeader_def y_def i_def nid_def Let_def)
      then show ?thesis using error_follower [of F n V y F E os x'] y by (auto simp: rc_ok_def)
    next
      case (Some entry)
      define req where "req = rc_make_ae_request F nid entry y"
      define w where "w = y\<lparr>rc_pending_num_entries := word_of_nat (length (aq_entries req)), rc_pending_prev_log_index := aq_prev_log_index req\<rparr>"
      define z where "z = (if rc_call_ok F E nid then w\<lparr>rc_append_entries_calls := [(nid, req)]\<rparr> else w)"
      obtain o1 x1 where pc: "rc_propagateCommitIndex z = (o1, x1)" by fastforce
      have "rc_updateLeader F E x = (let (o1, z) = (if rc_call_ok F E nid
          then ([SendAppendEntries nid req], w\<lparr>rc_append_entries_calls := [(nid, req)]\<rparr>) else ([], w));
          (o2, x) = rc_propagateCommitIndex z in (o1 @ o2, x))"
        using True Some unfolding rc_updateLeader_def Let_def w_def req_def y_def i_def nid_def by simp
      then have "x1 = x'" using assms(3) pc by (cases "rc_call_ok F E nid") (simp_all add: z_def)
      moreover have "rc_ok F n V z" using y by (simp add: z_def w_def y_def rc_ok_def rc_base_def rc_role_def)
      ultimately show ?thesis using propagateCommitIndex_ok [OF pc] by blast
    qed
  qed
qed

text \<open>The votes of a server for itself at the start of a campaign are the only ones that the timer adds.\<close>

lemma handleTimerEvent_ok:
  assumes "rc_ok F n V x" and "rf_MaxClusterSize F \<le> 256" and "node_id_isUnicast (rf_self F)"
    and "rc_handleTimerEvent F E B (x, b) = (os, x', b')"
  shows "\<exists>V'. rc_ok F n V' x' \<and> (V' = V \<or> (\<exists>t. V' = insert (rf_self F, t, rf_self F) V \<and> (\<forall>c. (rf_self F, t, c) \<notin> V)))"
proof (cases "rc_server_state x")
  case ServerStateFollower
  then have f: "rc_updateFollower F E x = (os, x')" using assms(4) by (auto simp: rc_handleTimerEvent_def split: prod.splits)
  have "rc_ok F n V x'"
    using f assms(1) ServerStateFollower base_reset_indices
    by (auto simp: rc_updateFollower_def rc_switchState_def rc_ok_def rc_base_def rc_role_def rc_campaign_def split: if_splits)
  then show ?thesis by blast
next
  case ServerStateLeader
  then have "rc_updateLeader F E x = (os, x')" using assms(4) by (auto simp: rc_handleTimerEvent_def split: prod.splits)
  then show ?thesis using updateLeader_ok [OF assms(1) ServerStateLeader] by blast
next
  case ServerStateCandidate
  then have u: "rc_updateCandidate F E B (x, b) = (os, x', b')" using assms(4) by (simp add: rc_handleTimerEvent_def)
  have r: "rc_base F n V x" "rc_append_entries_calls x = []" "rc_campaign F V x"
    using assms(1) ServerStateCandidate by (auto simp: rc_ok_def rc_role_def)
  show ?thesis
  proof (cases "rc_num_votes x > 0")
    case True
    show ?thesis
    proof (cases "rc_num_votes x \<ge> cm_getQuorumSize (rc_cluster x)")
      case won: True
      obtain R where R: "R \<subseteq> voters V (rf_self F) (rc_term x)" "card R = unat (rc_num_votes x)"
        using r(3) True by (auto simp: rc_campaign_def word_gt_0 split: if_splits)
      have "unat (cm_getQuorumSize (rc_cluster x)) \<le> card R" using won R(2) by (simp add: word_le_nat_alt)
      then have "\<exists>R \<subseteq> voters V (rf_self F) (rc_term x). unat (cm_getQuorumSize (rc_cluster x)) \<le> card R" using R(1) by blast
      moreover have "rc_switchState ServerStateLeader x = (os, x')"
        using u True won by (auto simp: rc_updateCandidate_def split: prod.splits)
      ultimately have "rc_ok F n V x'"
        using r(1) ServerStateCandidate
        by (clarsimp simp: rc_switchState_def rc_ok_def rc_base_def rc_role_def base_reset_indices) blast
      then show ?thesis by blast
    next
      case False
      then have "rc_switchState ServerStateFollower x = (os, x')"
        using u True by (auto simp: rc_updateCandidate_def split: prod.splits)
      then show ?thesis using switch_follower [OF r(1)] ServerStateCandidate by (metis server_state.distinct(1))
    qed
  next
    case False
    then have z: "rc_num_votes x = 0" by (simp add: word_gt_0)
    obtain r1 p1 b1 where sv: "ps_setVotedFor B (rf_self F) (rc_persistent_state x, b) = (r1, p1, b1)" by (metis prod_cases3)
    obtain r2 p2 b2 where st: "ps_setCurrentTerm B (ps_current_term p1 + 1) (p1, b1) = (r2, p2, b2)" by (metis prod_cases3)
    have v: "vote_ok V (rf_self F) (rc_persistent_state x)" using r(1) by (simp add: rc_base_def)
    have v1: "vote_ok V (rf_self F) p1" using setVotedFor_cases [OF sv] v vote_ok_self by auto
    have err: "rc_ok F n V x'" if "vote_ok V (rf_self F) p" "rc_handlePersistentStateUpdateError F E (x\<lparr>rc_persistent_state := p\<rparr>) = (os, x')" for p
      using error_follower [OF base_persistent [OF r(1) that(1)] _ that(2)] ServerStateCandidate by simp
    consider "r1 \<noteq> None" | "r1 = None" "r2 \<noteq> None" | "r1 = None" "r2 = None" by blast
    then show ?thesis
    proof cases
      case 1
      then have "rc_handlePersistentStateUpdateError F E (x\<lparr>rc_persistent_state := p1\<rparr>) = (os, x')"
        using u z sv by (auto simp: rc_updateCandidate_def split: prod.splits)
      then show ?thesis using err [OF v1] by blast
    next
      case 2
      have p2: "p2 = p1" using setCurrentTerm_cases [OF st] 2 by auto
      have "rc_handlePersistentStateUpdateError F E (x\<lparr>rc_persistent_state := p2\<rparr>) = (os, x')"
        using u z sv st 2 by (auto simp: rc_updateCandidate_def split: prod.splits)
      then show ?thesis using err [OF v1] p2 by blast
    next
      case 3
      let ?t = "ps_current_term p1 + 1" and ?s = "rf_self F"
      have p1: "p1 = (rc_persistent_state x)\<lparr>ps_voted_for := ?s\<rparr>" using setVotedFor_cases [OF sv] 3 by simp
      have p2: "p2 = p1\<lparr>ps_current_term := ?t\<rparr>" "ps_current_term p1 < ?t" using setCurrentTerm_cases [OF st] 3 by (auto simp: order_less_le)
      have new: "\<forall>c. (?s, ?t, c) \<notin> V" using v1 p2(2) by (force simp: vote_ok_def)
      let ?V = "insert (?s, ?t, ?s) V"
      have v2: "vote_ok ?V ?s p2"
        using vote_ok_later [OF v1 p2(2), of ?s] p1 p2(1) by (auto simp: vote_ok_def)
      let ?y = "x\<lparr>rc_persistent_state := p2, rc_num_votes := 1\<rparr>"
      define req where "req = \<lparr>vq_term = ps_current_term p2,
        vq_last_log_term = en_term (lg_entries (ps_log p2) ! unat (lg_last_index (ps_log p2))), vq_last_log_index = lg_last_index (ps_log p2)\<rparr>"
      have req: "vq_term req = ?t" "rc_request_votes F E req [0..<rf_MaxClusterSize F - 1] ?y = (os, x')"
        using u z sv st 3 p2(1) by (auto simp: rc_updateCandidate_def req_def Let_def split: prod.splits)
      have cm: "distinct (map sv_node_id (cm_servers (rc_cluster ?y)))" using r(1) by (simp add: rc_base_def cm_inv_def)
      obtain ns where ns: "x' = ?y\<lparr>rc_request_vote_calls := rc_request_vote_calls ?y @ map (\<lambda>w. (w, req)) ns\<rparr>" "distinct ns"
        "?s \<notin> set ns" "length ns \<le> length (cm_servers (rc_cluster x))"
      proof -
        have "rf_MaxClusterSize F - 1 \<le> 256" using assms(2) by simp
        from request_votes_spec [OF req(2) this cm] that show thesis by auto
      qed
      have calls: "rc_request_vote_calls x = []" using r(3) z by (simp add: rc_campaign_def)
      have "rc_campaign F ?V x'"
        by (rule rc_campaignI [of _ _ "{?s}"]) (use ns calls req(1) p1 p2(1) in \<open>auto simp: voters_def comp_def\<close>)
      then have "rc_ok F n ?V x'" using ns calls v2 r ServerStateCandidate by (simp add: rc_ok_def rc_base_def rc_role_def)
      then show ?thesis using new by blast
    qed
  qed
qed

text \<open>A vote that is granted is the first one in its term, or repeats it.\<close>

lemma handleRequestVoteRequest_ok:
  assumes "rc_ok F n V x" and "node_id_isUnicast (rf_self F)" and "src \<noteq> rf_self F"
    and "\<And>v t c. (v, t, c) \<in> V \<Longrightarrow> node_id_isUnicast c"
    and "rc_handleRequestVoteRequest F E B src q (x, b) = (r, os, x', b')"
  shows "\<exists>V'. rc_ok F n V' x' \<and> (case r of Some a \<Rightarrow> vr_vote_granted a \<longrightarrow> (rf_self F, vq_term q, src) \<in> V' | None \<Rightarrow> True) \<and>
    (V' = V \<or> V' = insert (rf_self F, vq_term q, src) V \<and> node_id_isUnicast src \<and> (\<forall>c. (rf_self F, vq_term q, c) \<in> V \<longrightarrow> c = src))"
proof (cases "cm_isKnownServer F src (rc_cluster x)")
  case False
  then show ?thesis using assms(1,5) by (auto simp: rc_handleRequestVoteRequest_def)
next
  case known: True
  let ?s = "rf_self F"
  have us: "node_id_isUnicast src"
    using known assms(1,3) by (auto simp: cm_isKnownServer_def rc_ok_def rc_base_def cm_inv_def list_ex_iff list_all_iff)
  obtain o1 y where y: "(if vq_term q > rc_term x then rc_switchState ServerStateFollower x else ([], x)) = (o1, y)" by fastforce
  have ok_y: "rc_ok F n V y" "rc_persistent_state y = rc_persistent_state x"
    "vq_term q > rc_term x \<Longrightarrow> rc_server_state y = ServerStateFollower"
    using y switch_follower [of F n V x o1 y] assms(1) role_idle [of F V x] by (auto simp: rc_ok_def split: if_splits)
  obtain r1 p b1 where ad: "(if vq_term q > rc_term y then rc_adopt_term B (vq_term q) (rc_persistent_state y, b)
      else (None, rc_persistent_state y, b)) = (r1, p, b1)" by (metis prod_cases3)
  have v: "vote_ok V ?s p"
    using vote_ok_adopt [of V ?s "rc_persistent_state y" "vq_term q" B b r1 p b1] ad ok_y(1)
    by (auto simp: rc_ok_def rc_base_def split: if_splits)
  let ?z = "y\<lparr>rc_persistent_state := p\<rparr>"
  have z: "rc_base F n V ?z" "rc_server_state ?z = ServerStateFollower \<Longrightarrow> rc_idle ?z"
    using ok_y(1) v base_persistent [of F n V y p] role_idle [of F V y] by (auto simp: rc_ok_def rc_idle_def)
  have p: "r1 = None \<Longrightarrow> vq_term q > rc_term x \<Longrightarrow> ps_current_term p = vq_term q"
    "\<not> vq_term q > rc_term x \<Longrightarrow> r1 = None \<and> ?z = y \<and> p = rc_persistent_state x"
    using ad ok_y(2) adopt_term_cases [of B "vq_term q" "rc_persistent_state y" b r1 p b1] by (auto split: if_splits)
  have okz: "rc_ok F n V ?z" if "r1 = None"
  proof (cases "vq_term q > rc_term x")
    case True
    then show ?thesis using ok_y z role_follower_update [of ?z F n V] by simp
  next
    case False
    then have "?z = y" using p(2) by blast
    then show ?thesis using ok_y(1) by (simp only:)
  qed
  define g where "g \<longleftrightarrow> (\<not> ps_isVotedForSet p \<or> ps_voted_for p = src) \<and>
    lg_isOtherLogUpToDate (vq_last_log_index q) (vq_last_log_term q) (ps_log p)"
  have f: "rc_handleRequestVoteRequest F E B src q (x, b) =
     (if r1 \<noteq> None then (let (o2, x) = rc_handlePersistentStateUpdateError F E ?z in (None, o1 @ o2, x, b1))
      else if vq_term q < rc_term ?z then (Some \<lparr>vr_term = rc_term ?z, vr_vote_granted = False\<rparr>, o1, ?z, b1)
      else if g then
        (let (o2, x) = rc_switchState ServerStateFollower ?z; x = rc_registerActivity F E x;
             (r, p, b) = ps_setVotedFor B src (rc_persistent_state x, b1)
         in (if r = None then Some \<lparr>vr_term = rc_term ?z, vr_vote_granted = True\<rparr> else None, o1 @ o2,
             x\<lparr>rc_persistent_state := p\<rparr>, b))
      else (Some \<lparr>vr_term = rc_term ?z, vr_vote_granted = False\<rparr>, o1, ?z, b1))"
    using known y ad ok_y(2) unfolding rc_handleRequestVoteRequest_def prod.case Let_def g_def by simp
  consider "r1 \<noteq> None" | "r1 = None" "vq_term q < rc_term ?z \<or> \<not> g" | "r1 = None" "\<not> vq_term q < rc_term ?z" "g" by blast
  then show ?thesis
  proof cases
    case 1
    then have "rc_ok F n V x'" "r = None" using f assms(5) error_follower [OF z] by (auto split: prod.splits)
    then show ?thesis by auto
  next
    case 2
    then show ?thesis using f assms(5) okz by (auto split: if_splits)
  next
    case 3
    have t: "ps_current_term p = vq_term q"
      using p 3 by (cases "vq_term q > rc_term x") (use ok_y(2) in \<open>auto simp: not_less\<close>)
    obtain o2 x1 where sw: "rc_switchState ServerStateFollower ?z = (o2, x1)" by fastforce
    have x1: "rc_ok F n V x1" "rc_server_state x1 = ServerStateFollower" "rc_persistent_state x1 = p"
      using switch_follower [OF z sw] by auto
    obtain r2 p2 b2 where sv: "ps_setVotedFor B src (p, b1) = (r2, p2, b2)" by (metis prod_cases3)
    let ?x2 = "(rc_registerActivity F E x1)\<lparr>rc_persistent_state := p2\<rparr>"
    have out: "x' = ?x2" "r = (if r2 = None then Some \<lparr>vr_term = vq_term q, vr_vote_granted = True\<rparr> else None)"
      using f assms(5) 3 sw sv x1(3) t by (auto simp: Let_def)
    have idle: "rc_idle ?x2" "rc_server_state ?x2 = ServerStateFollower"
      using x1 role_idle [of F V x1] by (auto simp: rc_ok_def rc_idle_def)
    have base: "rc_base F n V' ?x2" if "vote_ok V' ?s p2" for V'
      using x1(1) that by (simp add: rc_ok_def rc_base_def)
    have only: "c = src" if "(?s, vq_term q, c) \<in> V" for c
    proof -
      have "ps_voted_for p = c \<or> ps_voted_for p = ?s" using v that t by (auto simp: vote_ok_def)
      moreover have "\<not> ps_isVotedForSet p \<or> ps_voted_for p = src" using 3(3) by (simp add: g_def)
      ultimately show ?thesis using assms(2,3) assms(4) [OF that] by (auto simp: ps_isVotedForSet_def)
    qed
    show ?thesis
    proof (cases r2)
      case None
      then have "p2 = p\<lparr>ps_voted_for := src\<rparr>" using setVotedFor_cases [OF sv] by simp
      then have "vote_ok (insert (?s, vq_term q, src) V) ?s p2"
        using v t only by (auto simp: vote_ok_def)
      then have "rc_ok F n (insert (?s, vq_term q, src) V) x'" using role_follower_update idle base out(1) by blast
      then show ?thesis using out None us only by auto
    next
      case (Some e)
      then have "p2 = p" using setVotedFor_cases [OF sv] by simp
      then have "rc_ok F n V x'" using role_follower_update idle base v out(1) by blast
      then show ?thesis using out Some by auto
    qed
  qed
qed

lemma handleDiscovery_ok:
  assumes "rc_ok F n V x"
  shows "rc_ok F n V (x\<lparr>rc_cluster := cm_handleDiscovery F (rc_log x) msg (rc_cluster x)\<rparr>)"
proof -
  let ?c = "cm_handleDiscovery F (rc_log x) msg (rc_cluster x)"
  have "cm_inv F (rc_cluster x)" using assms by (simp add: rc_ok_def rc_base_def)
  note d = cm_discover_loop_inv [OF this, of "rc_log x" "dc_known_nodes msg"]
  have c: "cm_inv F ?c \<and> cm_cluster_size ?c = cm_cluster_size (rc_cluster x) \<and>
      length (cm_servers (rc_cluster x)) \<le> length (cm_servers ?c)"
    using d \<open>cm_inv F (rc_cluster x)\<close>
    by (simp add: cm_handleDiscovery_def cm_startDiscoveryPublishingTimerIfNotRunning_def cm_inv_def Let_def)
  then have q: "cm_getQuorumSize ?c = cm_getQuorumSize (rc_cluster x)" by (simp add: cm_getQuorumSize_def)
  have len: "k \<le> length (cm_servers (rc_cluster x)) \<Longrightarrow> k \<le> length (cm_servers ?c)" for k using c by linarith
  have "cm_bounded F ?c = cm_bounded F (if dc_configured_cluster_size msg \<noteq> cm_cluster_size (rc_cluster x) then rc_cluster x
      else cm_discover_loop F (rc_log x) (dc_known_nodes msg) (rc_cluster x))"
    by (rule cm_bounded_same) (simp_all add: cm_handleDiscovery_def cm_startDiscoveryPublishingTimerIfNotRunning_def Let_def)
  then have "cm_bounded F ?c" using assms cm_discover_loop_bounded [of F "rc_cluster x"] by (simp add: rc_ok_def rc_base_def)
  then show ?thesis using assms c q len
    by (simp add: rc_ok_def rc_base_def rc_role_def rc_campaign_def split: server_state.splits)
qed

lemma cluster_timer_ok:
  assumes "rc_ok F n V x" and "cm_handleTimerEvent F (rc_cluster x) = (msg, c)"
  shows "rc_ok F n V (x\<lparr>rc_cluster := c\<rparr>)"
proof -
  have "cm_servers c = cm_servers (rc_cluster x)" "cm_cluster_size c = cm_cluster_size (rc_cluster x)"
    using assms(2) by (auto simp: cm_handleTimerEvent_def split: if_splits)
  then have "cm_getQuorumSize c = cm_getQuorumSize (rc_cluster x)" "cm_servers c = cm_servers (rc_cluster x)"
    "cm_cluster_size c = cm_cluster_size (rc_cluster x)" "cm_bounded F c = cm_bounded F (rc_cluster x)"
    using cm_bounded_same [of c "rc_cluster x" F] by (simp_all add: cm_getQuorumSize_def)
  then show ?thesis using assms(1)
    by (simp add: rc_ok_def rc_base_def rc_role_def rc_campaign_def cm_inv_def split: server_state.splits)
qed

lemma appendLog_ok:
  assumes "rc_ok F n V x" and "rc_appendLog F E B uid nid (x, b) = (os, x', b')"
  shows "rc_ok F n V x'"
proof -
  have log: "rc_ok F n V (x\<lparr>rc_persistent_state := (rc_persistent_state x)\<lparr>ps_log := l\<rparr>\<rparr>) = rc_ok F n V x" for l
    by (simp add: rc_ok_def rc_base_def rc_role_def rc_campaign_def vote_ok_log cong: server_state.case_cong)
  show ?thesis
  proof (cases "rc_isLeader x")
    case False
    then show ?thesis using assms by (simp add: rc_appendLog_def)
  next
    case True
    obtain r l b1 where a: "lg_append B \<lparr>en_term = rc_term x, en_unique_id = uid, en_node_id = nid\<rparr> (rc_log x, b) = (r, l, b1)"
      by (metis prod_cases3)
    let ?y = "x\<lparr>rc_persistent_state := (rc_persistent_state x)\<lparr>ps_log := l\<rparr>\<rparr>"
    have y: "rc_ok F n V ?y" using log assms(1) by simp
    show ?thesis
    proof (cases r)
      case None
      then show ?thesis using assms(2) True a y by (simp add: rc_appendLog_def)
    next
      case (Some e)
      then have "rc_handlePersistentStateUpdateError F E ?y = (os, x')"
        using assms(2) True a by (auto simp: rc_appendLog_def split: prod.splits)
      then show ?thesis using error_follower [of F n V ?y F E os x'] y role_idle [of F V ?y] by (auto simp: rc_ok_def)
    qed
  qed
qed

lemma rc_init_ok:
  assumes "rc_init F E B k rs (RaftCore F now, b) = (None, x', b')"
  shows "rc_server_state x' = ServerStateFollower \<and> rc_idle x' \<and> cm_inv F (rc_cluster x') \<and> cm_bounded F (rc_cluster x')"
proof -
  obtain r p b1 where ps: "ps_init B (PersistentState, b) = (r, p, b1)" by (metis prod_cases3)
  obtain r2 c b2 where cm: "cm_init F B (ps_log p) k (rs ! 0) (rs ! 1) (ClusterManager, b1) = (r2, c, b2)" by (metis prod_cases3)
  have "cm_servers c = []" if "r2 = None"
    using cm that
    by (auto simp: cm_init_def ClusterManager_def cm_resetAllServerIndices_def cm_startDiscoveryPublishingTimerIfNotRunning_def Let_def
        split: if_splits option.splits prod.splits)
  moreover have "cm_bounded F c" if "r2 = None" using cm_init_bounded cm unfolding that by metis
  ultimately show ?thesis
    using assms ps cm
    by (auto simp: rc_init_def RaftCore_def rc_registerActivity_def rc_idle_def cm_inv_def Let_def split: if_splits list.splits)
qed

section \<open>The cluster\<close>

text \<open>The cluster is configured with the number of its servers, or a larger one.\<close>

definition raft_configured :: "(node_id \<Rightarrow> raft_config) \<Rightarrow> node_id set \<Rightarrow> u8 \<Rightarrow> bool" where
  "raft_configured F S n \<longleftrightarrow> card S \<le> unat n \<and>
    (\<forall>v \<in> S. rf_self (F v) = v \<and> node_id_isUnicast v \<and> rf_MaxClusterSize (F v) \<le> 256)"

definition raft_votes :: "node_id set \<Rightarrow> votes \<Rightarrow> bool" where
  "raft_votes S V \<longleftrightarrow> (\<forall>v t c. (v, t, c) \<in> V \<longrightarrow> v \<in> S \<and> node_id_isUnicast c \<and> (\<forall>c'. (v, t, c') \<in> V \<longrightarrow> c' = c))"

definition raft_inv :: "(node_id \<Rightarrow> raft_config) \<Rightarrow> node_id set \<Rightarrow> u8 \<Rightarrow> votes \<Rightarrow> 'b raft_net \<Rightarrow> bool" where
  "raft_inv F S n V net \<longleftrightarrow> raft_votes S V \<and> (\<forall>v \<in> S. rc_ok (F v) n V (fst (fst net v))) \<and>
    (\<forall>v c q a. (v, c, q, a) \<in> snd net \<longrightarrow> vr_vote_granted a \<longrightarrow> (v, vq_term q, c) \<in> V)"

lemma rc_ok_mono:
  assumes "rc_ok F n V x" and "V \<subseteq> V'" and "\<And>t c. (rf_self F, t, c) \<in> V' \<Longrightarrow> (rf_self F, t, c) \<in> V"
  shows "rc_ok F n V' x"
proof -
  have w: "voters V c t \<subseteq> voters V' c t" for c t using assms(2) by (auto simp: voters_def)
  have "vote_ok V' (rf_self F) (rc_persistent_state x)" using assms(1,3) by (auto simp: rc_ok_def rc_base_def vote_ok_def)
  moreover have "rc_campaign F V x \<Longrightarrow> rc_campaign F V' x" unfolding rc_campaign_def by (meson order_trans w)
  moreover have "\<exists>R \<subseteq> voters V (rf_self F) t. P R \<Longrightarrow> \<exists>R \<subseteq> voters V' (rf_self F) t. P R" for t P by (meson order_trans w)
  ultimately show ?thesis using assms(1) by (simp add: rc_ok_def rc_base_def rc_role_def split: server_state.splits)
qed

lemma voters_bound:
  assumes "raft_configured F S n" and "raft_votes S V"
  shows "voters V c t \<subseteq> S" "card (voters V c t) \<le> unat n"
proof -
  show s: "voters V c t \<subseteq> S" using assms(2) by (auto simp: voters_def raft_votes_def)
  then show "card (voters V c t) \<le> unat n" using card_mono [OF _ s] assms(1) by (simp add: raft_configured_def)
qed

lemma raft_inv_step:
  assumes "raft_inv F S n V (nodes, rs)" and "raft_configured F S n" and "v \<in> S" and "rc_ok (F v) n V' x'"
    and "V' = V \<or> (\<exists>t c. V' = insert (v, t, c) V \<and> node_id_isUnicast c \<and> (\<forall>c'. (v, t, c') \<in> V \<longrightarrow> c' = c))"
    and "\<And>w c q a. (w, c, q, a) \<in> rs' \<Longrightarrow> vr_vote_granted a \<Longrightarrow> (w, vq_term q, c) \<in> V'"
  shows "raft_inv F S n V' (nodes(v := (x', b')), rs')"
proof -
  have V: "raft_votes S V'" using assms(1,3,5) by (auto simp: raft_inv_def raft_votes_def)
  have "rc_ok (F u) n V' (fst (nodes u))" if "u \<in> S" "u \<noteq> v" for u
  proof (rule rc_ok_mono)
    show "rc_ok (F u) n V (fst (nodes u))" using assms(1) that(1) by (simp add: raft_inv_def)
    show "V \<subseteq> V'" using assms(5) by auto
    show "(rf_self (F u), t, c) \<in> V" if "(rf_self (F u), t, c) \<in> V'" for t c
      using that \<open>u \<noteq> v\<close> \<open>u \<in> S\<close> assms(2,5) by (auto simp: raft_configured_def)
  qed
  then show ?thesis using V assms(4,6) by (auto simp: raft_inv_def)
qed

lemma raft_reachable_inv:
  assumes "raft_configured F S n" and "raft_reachable F B S n net"
  shows "\<exists>V. raft_inv F S n V net"
  using assms(2)
proof (induction rule: raft_reachable.induct)
  case (raft_start nodes)
  have "rc_ok (F v) n {} (fst (nodes v))" if v: "v \<in> S" for v
  proof -
    obtain E now b0 k rs where i: "rc_init (F v) E B k rs (RaftCore (F v) now, b0) = (None, nodes v)"
      "cm_cluster_size (rc_cluster (fst (nodes v))) = n" using raft_start [OF v] by blast
    have "rc_server_state (fst (nodes v)) = ServerStateFollower \<and> rc_idle (fst (nodes v)) \<and> cm_inv (F v) (rc_cluster (fst (nodes v))) \<and>
        cm_bounded (F v) (rc_cluster (fst (nodes v)))"
      using rc_init_ok [of "F v" E B k rs now b0 "fst (nodes v)" "snd (nodes v)"] i by simp
    then show ?thesis using i(2) role_follower_update by (auto simp: rc_base_def vote_ok_def)
  qed
  then show ?case by (intro exI [of _ "{}"]) (simp add: raft_inv_def raft_votes_def)
next
  case (raft_timer nodes rs v E os xb)
  then obtain V x b x' b' where V: "raft_inv F S n V (nodes, rs)" and e: "nodes v = (x, b)" "xb = (x', b')"
    by (metis surj_pair)
  have f: "rf_self (F v) = v" "node_id_isUnicast v" "rf_MaxClusterSize (F v) \<le> 256" "rc_ok (F v) n V x"
    using assms(1) raft_timer(2) V e by (auto simp: raft_configured_def raft_inv_def)
  from handleTimerEvent_ok [OF f(4,3) _ raft_timer(3) [unfolded e]] f
  obtain V' where V': "rc_ok (F v) n V' x'" "V' = V \<or> (\<exists>t. V' = insert (v, t, v) V \<and> (\<forall>c. (v, t, c) \<notin> V))" by auto
  have "V' = V \<or> (\<exists>t c. V' = insert (v, t, c) V \<and> node_id_isUnicast c \<and> (\<forall>c'. (v, t, c') \<in> V \<longrightarrow> c' = c))"
    using V'(2) f(2) by blast
  moreover have "(w, vq_term q, c) \<in> V'" if "(w, c, q, a) \<in> rs" "vr_vote_granted a" for w c q a
    using V that V'(2) by (auto simp: raft_inv_def)
  ultimately have "raft_inv F S n V' (nodes(v := xb), rs)"
    unfolding e by (rule raft_inv_step [OF V assms(1) raft_timer(2) V'(1)])
  then show ?case by blast
next
  case (raft_ae_request nodes rs v E src q r os xb)
  then obtain V x b x' b' where V: "raft_inv F S n V (nodes, rs)" and e: "nodes v = (x, b)" "xb = (x', b')"
    by (metis surj_pair)
  have "rc_ok (F v) n V x'"
    using handleAppendEntriesRequest_ok [OF _ raft_ae_request(3) [unfolded e]] raft_ae_request(2) V e by (auto simp: raft_inv_def)
  then show ?case unfolding e using V by (intro exI raft_inv_step [OF V assms(1) raft_ae_request(2)]) (auto simp: raft_inv_def)
next
  case (raft_ae_response nodes rs v x b w q E result os xb)
  then obtain V x' b' where V: "raft_inv F S n V (nodes, rs)" and e: "xb = (x', b')" by (metis surj_pair)
  have "rc_ok (F v) n V x'"
    using handleAppendEntriesResponse_ok [OF _ raft_ae_response(4) raft_ae_response(5) [unfolded e]] raft_ae_response(2,3) V
    by (auto simp: raft_inv_def)
  then show ?case unfolding e using V by (intro exI raft_inv_step [OF V assms(1) raft_ae_response(2)]) (auto simp: raft_inv_def)
next
  case (raft_rv_request nodes rs v src E q r os xb)
  then obtain V x b x' b' where V: "raft_inv F S n V (nodes, rs)" and e: "nodes v = (x, b)" "xb = (x', b')"
    by (metis surj_pair)
  have f: "rf_self (F v) = v" "node_id_isUnicast v" "rc_ok (F v) n V x"
    using assms(1) raft_rv_request(2) V e by (auto simp: raft_configured_def raft_inv_def)
  have uc: "(u, t, c) \<in> V \<Longrightarrow> node_id_isUnicast c" for u t c using V by (auto simp: raft_inv_def raft_votes_def)
  have s: "node_id_isUnicast (rf_self (F v))" "src \<noteq> rf_self (F v)" using f raft_rv_request(3) by auto
  have "\<exists>V'. rc_ok (F v) n V' x' \<and> (case r of Some a \<Rightarrow> vr_vote_granted a \<longrightarrow> (v, vq_term q, src) \<in> V' | None \<Rightarrow> True) \<and>
    (V' = V \<or> V' = insert (v, vq_term q, src) V \<and> node_id_isUnicast src \<and> (\<forall>c. (v, vq_term q, c) \<in> V \<longrightarrow> c = src))"
    by (rule handleRequestVoteRequest_ok [OF f(3) s _ raft_rv_request(4) [unfolded e], unfolded f(1)]) (rule uc)
  then obtain V' where V': "rc_ok (F v) n V' x'" "case r of Some a \<Rightarrow> vr_vote_granted a \<longrightarrow> (v, vq_term q, src) \<in> V' | None \<Rightarrow> True"
    "V' = V \<or> V' = insert (v, vq_term q, src) V \<and> node_id_isUnicast src \<and> (\<forall>c. (v, vq_term q, c) \<in> V \<longrightarrow> c = src)"
    by blast
  have "raft_inv F S n V' (nodes(v := xb), case r of None \<Rightarrow> rs | Some a \<Rightarrow> insert (v, src, q, a) rs)"
    unfolding e
  proof (rule raft_inv_step [OF V assms(1) raft_rv_request(2) V'(1)])
    show "V' = V \<or> (\<exists>t c. V' = insert (v, t, c) V \<and> node_id_isUnicast c \<and> (\<forall>c'. (v, t, c') \<in> V \<longrightarrow> c' = c))" using V'(3) by blast
    show "(w, vq_term q', c) \<in> V'"
      if "(w, c, q', a) \<in> (case r of None \<Rightarrow> rs | Some a \<Rightarrow> insert (v, src, q, a) rs)" "vr_vote_granted a" for w c q' a
    proof -
      have "V \<subseteq> V'" using V'(3) by blast
      moreover have "(w, c, q', a) \<in> rs \<Longrightarrow> (w, vq_term q', c) \<in> V" using V that(2) unfolding raft_inv_def by simp
      moreover have "(w, c, q', a) \<in> rs \<or> r = Some a \<and> w = v \<and> c = src \<and> q' = q"
        using that(1) by (simp split: option.splits) auto
      ultimately show ?thesis using V'(2) that(2) by auto
    qed
  qed
  then show ?case by blast
next
  case (raft_rv_response nodes rs v x b w q a E os xb)
  then obtain V x' b' where V: "raft_inv F S n V (nodes, rs)" and e: "xb = (x', b')" by (metis surj_pair)
  have f: "rf_self (F v) = v" "rc_ok (F v) n V x"
    using assms(1) raft_rv_response(2,3) V by (auto simp: raft_configured_def raft_inv_def)
  have "card (voters V c t) < 256" for c t
    using voters_bound(2) [OF assms(1), of V c t] V unat_u8_lt [of n] by (simp add: raft_inv_def le_less_trans)
  moreover have "vr_vote_granted a \<Longrightarrow> (w, vq_term q, v) \<in> V" using V raft_rv_response(5) by (auto simp: raft_inv_def)
  ultimately have "rc_ok (F v) n V x'"
    using handleRequestVoteResponse_ok [OF f(2) raft_rv_response(4) _ _ raft_rv_response(6) [unfolded e]] f(1) by auto
  then show ?case unfolding e using V by (intro exI raft_inv_step [OF V assms(1) raft_rv_response(2)]) (auto simp: raft_inv_def)
next
  case (raft_rv_timeout nodes rs v x b w q E os xb)
  then obtain V x' b' where V: "raft_inv F S n V (nodes, rs)" and e: "xb = (x', b')" by (metis surj_pair)
  have f: "rc_ok (F v) n V x" using raft_rv_timeout(2,3) V by (auto simp: raft_inv_def)
  have "card (voters V c t) < 256" for c t
    using voters_bound(2) [OF assms(1), of V c t] V unat_u8_lt [of n] by (simp add: raft_inv_def le_less_trans)
  then have "rc_ok (F v) n V x'"
    using handleRequestVoteResponse_ok [OF f raft_rv_timeout(4) _ _ raft_rv_timeout(5) [unfolded e]] by auto
  then show ?case unfolding e using V by (intro exI raft_inv_step [OF V assms(1) raft_rv_timeout(2)]) (auto simp: raft_inv_def)
next
  case (raft_discovery nodes rs v x b msg)
  then obtain V where V: "raft_inv F S n V (nodes, rs)" by blast
  have "rc_ok (F v) n V x" using raft_discovery(2,3) V by (auto simp: raft_inv_def)
  from handleDiscovery_ok [OF this] show ?case
    using V by (intro exI raft_inv_step [OF V assms(1) raft_discovery(2)]) (auto simp: raft_inv_def)
next
  case (raft_discovery_timer nodes rs v x b msg c)
  then obtain V where V: "raft_inv F S n V (nodes, rs)" by blast
  have "rc_ok (F v) n V x" using raft_discovery_timer(2,3) V by (auto simp: raft_inv_def)
  from cluster_timer_ok [OF this raft_discovery_timer(4)] show ?case
    using V by (intro exI raft_inv_step [OF V assms(1) raft_discovery_timer(2)]) (auto simp: raft_inv_def)
next
  case (raft_append nodes rs v E uid nid os xb)
  then obtain V x b x' b' where V: "raft_inv F S n V (nodes, rs)" and e: "nodes v = (x, b)" "xb = (x', b')"
    by (metis surj_pair)
  have "rc_ok (F v) n V x'"
    using appendLog_ok [OF _ raft_append(3) [unfolded e]] raft_append(2) V e by (auto simp: raft_inv_def)
  then show ?case unfolding e using V by (intro exI raft_inv_step [OF V assms(1) raft_append(2)]) (auto simp: raft_inv_def)
next
  case (raft_restart nodes rs v x b E k results now x' b')
  then obtain V where V: "raft_inv F S n V (nodes, rs)" by blast
  have f: "rc_ok (F v) n V x" using raft_restart(2,3) V by (auto simp: raft_inv_def)
  note i = rc_init_ok [OF raft_restart(4)]
  have "vote_ok V (rf_self (F v)) (rc_persistent_state x')"
    using f raft_restart(6) by (simp add: rc_ok_def rc_base_def vote_ok_def ps_same_def)
  then have "rc_ok (F v) n V x'" using i raft_restart(5) role_follower_update by (auto simp: rc_base_def)
  then show ?case using V by (intro exI raft_inv_step [OF V assms(1) raft_restart(2)]) (auto simp: raft_inv_def)
qed

section \<open>An election of two servers\<close>

definition raft_example_config :: "node_id \<Rightarrow> raft_config" where
  "raft_example_config v = \<lparr>rf_self = v, rf_MaxClusterSize = 5, rf_entries_capacity = 1,
     rf_min_election_timeout_ms = 2000, rf_max_election_timeout_ms = 4000\<rparr>"

definition raft_example_env :: "time \<Rightarrow> raft_env" where
  "raft_example_env t = \<lparr>re_now = t, re_rand = 7, re_call = (\<lambda>_. True)\<rparr>"

definition raft_example_start :: "node_id \<Rightarrow> raft_core \<times> (string \<Rightarrow> string)" where
  "raft_example_start v = snd (rc_init (raft_example_config v) (raft_example_env 0) example_backend 2 (replicate 6 None)
     (RaftCore (raft_example_config v) 0, \<lambda>_. []))"

definition raft_example_discovered :: "node_id \<Rightarrow> raft_core \<times> (string \<Rightarrow> string)" where
  "raft_example_discovered v =
    ((fst (raft_example_start v))\<lparr>rc_cluster := cm_handleDiscovery (raft_example_config v) (rc_log (fst (raft_example_start v)))
        \<lparr>dc_configured_cluster_size = 2, dc_known_nodes = [1, 2]\<rparr> (rc_cluster (fst (raft_example_start v)))\<rparr>,
     snd (raft_example_start v))"

definition raft_example_timer :: "raft_core \<times> (string \<Rightarrow> string) \<Rightarrow> raft_core \<times> (string \<Rightarrow> string)" where
  "raft_example_timer xb = snd (rc_handleTimerEvent (raft_example_config 1) (raft_example_env 9000000) example_backend xb)"

definition raft_example_candidate :: "raft_core \<times> (string \<Rightarrow> string)" where
  "raft_example_candidate = raft_example_timer (raft_example_timer (raft_example_discovered 1))"

definition raft_example_request :: rv_request where
  "raft_example_request = \<lparr>vq_term = 1, vq_last_log_term = 0, vq_last_log_index = 0\<rparr>"

definition raft_example_vote :: "rv_response option \<times> raft_output list \<times> raft_core \<times> (string \<Rightarrow> string)" where
  "raft_example_vote = rc_handleRequestVoteRequest (raft_example_config 2) (raft_example_env 9000000) example_backend 1
     raft_example_request (raft_example_discovered 2)"

definition raft_example_response :: rv_response where
  "raft_example_response = \<lparr>vr_term = 1, vr_vote_granted = True\<rparr>"

definition raft_example_counted :: "raft_core \<times> (string \<Rightarrow> string)" where
  "raft_example_counted =
    snd (rc_handleRequestVoteResponse (raft_example_config 1) (raft_example_env 9000000) example_backend 2 (Some raft_example_response)
      ((fst raft_example_candidate)\<lparr>rc_request_vote_calls :=
          remove1 (2, raft_example_request) (rc_request_vote_calls (fst raft_example_candidate))\<rparr>,
       snd raft_example_candidate))"

definition raft_example_leader :: "raft_core \<times> (string \<Rightarrow> string)" where
  "raft_example_leader = raft_example_timer raft_example_counted"

definition raft_example_net :: "(string \<Rightarrow> string) raft_net" where
  "raft_example_net = (raft_example_start(1 := raft_example_leader, 2 := snd (snd raft_example_vote)),
     {(2, 1, raft_example_request, raft_example_response)})"

lemma raft_example_init:
  "map (\<lambda>v. let r = rc_init (raft_example_config v) (raft_example_env 0) example_backend 2 (replicate 6 None)
       (RaftCore (raft_example_config v) 0, \<lambda>_. []) in (fst r, cm_cluster_size (rc_cluster (fst (snd r))))) [1, 2] =
     [(None, 2), (None, 2)]"
  by code_simp

lemma raft_example_calls:
  "rc_request_vote_calls (fst raft_example_candidate) = [(2, raft_example_request)] \<and> fst raft_example_vote = Some raft_example_response"
  by code_simp

lemma raft_example_elected: "rc_isLeader (fst raft_example_leader) \<and> rc_term (fst raft_example_leader) = 1"
  by code_simp

lemma raft_example_configured: "raft_configured raft_example_config {1, 2} 2"
  by (simp add: raft_configured_def raft_example_config_def node_id_isUnicast_def node_id_isValid_def node_id_Max_def node_id_Broadcast_def)

lemma raft_example_reachable: "raft_reachable raft_example_config example_backend {1, 2} 2 raft_example_net"
proof -
  let ?R = "raft_reachable raft_example_config example_backend {1, 2} 2"
  have init: "\<exists>E now b0 k rs. rc_init (raft_example_config v) E example_backend k rs (RaftCore (raft_example_config v) now, b0) =
      (None, raft_example_start v) \<and> cm_cluster_size (rc_cluster (fst (raft_example_start v))) = 2" if "v \<in> {1, 2}" for v
    unfolding raft_example_start_def using raft_example_init that
    by (intro exI [of _ "raft_example_env 0"] exI [of _ 0] exI [of _ "\<lambda>_. []"] exI [of _ 2] exI [of _ "replicate 6 None"])
      (auto simp: Let_def prod_eq_iff)
  have s0: "?R (raft_example_start, {})" by (rule raft_start [OF init])
  have s1: "?R (nodes(v := raft_example_discovered v), rs)"
    if "?R (nodes, rs)" "v \<in> {1, 2}" "nodes v = raft_example_start v" for nodes rs v
    unfolding raft_example_discovered_def by (rule raft_discovery [OF that(1,2)]) (simp add: that(3))
  have s2: "?R (nodes(1 := raft_example_timer (nodes 1)), rs)" if "?R (nodes, rs)" for nodes rs
    unfolding raft_example_timer_def by (rule raft_timer [OF that _ prod.collapse [symmetric]]) simp
  define d where "d = raft_example_start(1 := raft_example_discovered 1, 2 := raft_example_discovered 2)"
  let ?q = raft_example_request and ?a = raft_example_response and ?v = raft_example_vote
  have "?R (d, {})" unfolding d_def by (rule s1 [OF s1 [OF s0]]) auto
  from s2 [OF s2 [OF this]] have c: "?R (d(1 := raft_example_candidate), {})" by (simp add: raft_example_candidate_def d_def)
  have "rc_handleRequestVoteRequest (raft_example_config 2) (raft_example_env 9000000) example_backend 1 ?q (d 2) =
      (Some ?a, fst (snd ?v), snd (snd ?v))"
    using raft_example_calls by (simp add: raft_example_vote_def prod_eq_iff d_def)
  then have v: "?R (d(1 := raft_example_candidate, 2 := snd (snd ?v)), {(2, 1, ?q, ?a)})"
    using raft_rv_request [OF c, of 2 1 "raft_example_env 9000000" ?q "Some ?a" "fst (snd ?v)" "snd (snd ?v)"] by simp
  have "?R (d(1 := raft_example_candidate, 2 := snd (snd ?v), 1 := raft_example_counted), {(2, 1, ?q, ?a)})"
    unfolding raft_example_counted_def
    by (rule raft_rv_response [OF v _ _ _ _ prod.collapse [symmetric]]) (use raft_example_calls in auto)
  from s2 [OF this] have "?R (d(2 := snd (snd ?v), 1 := raft_example_leader), {(2, 1, ?q, ?a)})"
    by (simp add: raft_example_leader_def fun_upd_twist)
  moreover have "d(2 := snd (snd ?v), 1 := raft_example_leader) = fst raft_example_net" by (auto simp: d_def raft_example_net_def)
  ultimately show ?thesis by (simp add: raft_example_net_def)
qed

section \<open>Properties\<close>

lemma majorities_meet:
  assumes "finite S" and "A \<subseteq> S" and "B \<subseteq> S" and "card S < card A + card B"
  shows "A \<inter> B \<noteq> {}"
proof
  assume "A \<inter> B = {}"
  then have "card A + card B = card (A \<union> B)" using assms(1-3) by (metis card_Un_disjoint finite_subset)
  also have "\<dots> \<le> card S" using assms(1-3) by (intro card_mono) auto
  finally show False using assms(4) by simp
qed

lemma leader_has_quorum:
  assumes "rc_ok F n V x" and "rc_isLeader x"
  shows "\<exists>R \<subseteq> voters V (rf_self F) (rc_term x). unat n div 2 + 1 \<le> card R"
  using assms by (auto simp: rc_ok_def rc_base_def rc_role_def rc_isLeader_def quorum_unat)

lemma one_leader:
  assumes "raft_configured F S n" and "raft_inv F S n V (nodes, rs)" and "u \<in> S" and "v \<in> S"
    and "rc_isLeader (fst (nodes u))" and "rc_isLeader (fst (nodes v))" and "rc_term (fst (nodes u)) = rc_term (fst (nodes v))"
  shows "u = v"
proof -
  let ?t = "rc_term (fst (nodes v))"
  have V: "raft_votes S V" and ok: "rc_ok (F u) n V (fst (nodes u))" "rc_ok (F v) n V (fst (nodes v))"
    using assms(2-4) by (auto simp: raft_inv_def)
  have self: "rf_self (F u) = u" "rf_self (F v) = v" and n: "card S \<le> unat n" using assms(1,3,4) by (auto simp: raft_configured_def)
  obtain R R' where R: "R \<subseteq> voters V u ?t" "unat n div 2 + 1 \<le> card R" "R' \<subseteq> voters V v ?t" "unat n div 2 + 1 \<le> card R'"
    using leader_has_quorum [OF ok(1) assms(5)] leader_has_quorum [OF ok(2) assms(6)] self assms(7) by auto
  have "R \<subseteq> S" "R' \<subseteq> S" using R(1,3) voters_bound(1) [OF assms(1) V] by (meson order_trans)+
  then have "R \<inter> R' \<noteq> {}" using R(2,4) n by (intro majorities_meet [of S]) simp_all
  then obtain w where "(w, ?t, u) \<in> V" "(w, ?t, v) \<in> V" using R(1,3) by (auto simp: voters_def)
  then show ?thesis using V by (auto simp: raft_votes_def)
qed

text \<open>
  C2. Election safety: in every state that a cluster reaches, at most one server is leader in a given term.
  The number of servers does not exceed the configured cluster size.  Requests to append entries and to vote
  have any content and order, responses are lost, delayed or repeated by the transport, the storage fails
  at any time, and servers restart, restoring their term and vote.
\<close>

theorem raft_election_safety:
  assumes "raft_configured F S n" and "raft_reachable F B S n (nodes, rs)"
  shows "card {v \<in> S. rc_isLeader (fst (nodes v)) \<and> rc_term (fst (nodes v)) = t} \<le> 1"
proof -
  obtain V where V: "raft_inv F S n V (nodes, rs)" using raft_reachable_inv [OF assms] by blast
  note one_leader [OF assms(1) V]
  then show ?thesis by (intro card_le_Suc0_iff_eq [THEN iffD2, folded One_nat_def]) auto
qed

theorem raft_election_safety_witness:
  "let nodes = fst raft_example_net
   in card {v \<in> {1, 2}. rc_isLeader (fst (nodes v)) \<and> rc_term (fst (nodes v)) = 1} = 1 \<and> rc_isLeader (fst (nodes 1))"
proof -
  let ?L = "{v \<in> {1, 2}. rc_isLeader (fst (fst raft_example_net v)) \<and> rc_term (fst (fst raft_example_net v)) = 1}"
  have "card ?L \<le> 1"
    by (rule raft_election_safety [OF raft_example_configured, of example_backend _ "snd raft_example_net"]) (simp add: raft_example_reachable)
  moreover have l: "1 \<in> ?L" using raft_example_elected by (simp add: raft_example_net_def)
  ultimately show ?thesis using card_gt_0_iff [of ?L] by (force simp: Let_def)
qed

text \<open>
  C19. The assertions of \<^verbatim>\<open>RaftCore::checkInvariants\<close> on elections and on the transport hold in every state
  that a cluster reaches: a candidate with pending requests has voted for itself, no more votes are counted
  than there are servers, a leader has at most one request pending, and no calls are left over from
  another state of the server.  The known servers also fit into the array of the cluster manager, as
  \<^verbatim>\<open>addServer\<close> asserts, if the maximum size of a cluster fits into eight bits.
\<close>

theorem raft_assertions:
  assumes "raft_configured F S n" and "raft_reachable F B S n (nodes, rs)" and "v \<in> S"
  shows "rc_checkElectionInvariants (F v) (fst (nodes v)) \<and> rc_checkTransportInvariants (fst (nodes v)) \<and>
    (rf_MaxClusterSize (F v) \<le> 255 \<longrightarrow> length (cm_servers (rc_cluster (fst (nodes v)))) < rf_MaxClusterSize (F v))"
proof -
  obtain V where V: "raft_inv F S n V (nodes, rs)" using raft_reachable_inv [OF assms(1,2)] by blast
  define x where "x = fst (nodes v)"
  have ok: "rc_base (F v) n V x" "rc_role (F v) V x" using V assms(3) by (auto simp: raft_inv_def rc_ok_def x_def)
  have "rc_num_votes x \<le> n" if c: "rc_campaign (F v) V x"
  proof (cases "rc_num_votes x = 0")
    case False
    then obtain R where R: "R \<subseteq> voters V (rf_self (F v)) (rc_term x)" "card R = unat (rc_num_votes x)"
      using c by (auto simp: rc_campaign_def)
    have "card R \<le> unat n"
      using card_mono [OF _ R(1)] voters_bound(2) [OF assms(1), of V "rf_self (F v)" "rc_term x"] V by (simp add: raft_inv_def)
    then show ?thesis using R(2) by (simp add: word_le_nat_alt)
  qed simp
  then show ?thesis using ok unfolding x_def [symmetric]
    by (auto simp: rc_checkElectionInvariants_def rc_checkTransportInvariants_def rc_base_def rc_role_def rc_campaign_def cm_bounded_def
        split: server_state.splits if_splits)
qed

theorem raft_assertions_witness:
  "rc_checkElectionInvariants (raft_example_config 1) (fst raft_example_leader) \<and>
   rc_checkTransportInvariants (fst raft_example_leader) \<and> length (cm_servers (rc_cluster (fst raft_example_leader))) < 5"
  using raft_assertions [OF raft_example_configured, of example_backend "fst raft_example_net" "snd raft_example_net" 1] raft_example_reachable
  by (simp add: raft_example_net_def raft_example_config_def)

end
