(* ===== verification/RaftReplications.thy ===== *)
theory RaftReplications
  imports RaftNets
begin

text \<open>
  Replication of the Raft log (raft_core.hpp): what a follower does with a request to append entries, on a
  storage that works, and when a leader commits an entry.
\<close>

section \<open>Appending entries\<close>

text \<open>The specification on lists: the response, the new log and the new commit index.\<close>

definition append_entries_spec ::
  "ae_request \<Rightarrow> raft_entry list \<Rightarrow> u8 \<Rightarrow> bool option \<times> raft_entry list \<times> u8" where
  "append_entries_spec q es c =
    (let prev = unat (aq_prev_log_index q)
     in if prev \<ge> length es then (Some False, es, c)
        else if en_term (es ! prev) \<noteq> aq_prev_log_term q then
          (if prev = 0 then (None, es, c) else (Some False, take prev es, c))
        else
          (let es' = take (Suc prev) es @ aq_entries q
           in if length es' > 128 then (None, take 128 es', c)
              else (Some True, es', if aq_leader_commit q > c then min (aq_leader_commit q) (word_of_nat (length es' - 1)) else c)))"

lemma append_loop_stored:
  assumes "storage_reliable B" and "log_stored B b l" and "list_all entry_valid es" and "rc_append_loop B es (l, b) = (r, l', b')"
  shows "log_stored B b' l' \<and> lg_list l' = take 128 (lg_list l @ es) \<and> (r = None \<longleftrightarrow> length (lg_list l) + length es \<le> 128) \<and>
    (\<forall>k. \<not> is_log_key k \<longrightarrow> st_get B b' k = st_get B b k)"
  using assms(2-4)
proof (induction es arbitrary: l b)
  case Nil
  then show ?case using log_stored_bounds [OF Nil(1)] by simp
next
  case (Cons e es)
  obtain r1 l1 b1 where a: "lg_append B e (l, b) = (r1, l1, b1)" by (metis prod_cases3)
  note l = log_stored_bounds [OF Cons.prems(1)]
  have v: "entry_valid e" "list_all entry_valid es" using Cons.prems(2) by simp_all
  note s = lg_append_stored [OF assms(1) Cons.prems(1) v(1) a]
  show ?case
  proof (cases "unat (lg_last_index l) + 1 \<ge> 128")
    case True
    then show ?thesis using s a Cons.prems l by auto
  next
    case False
    then have s1: "r1 = None" "lg_list l1 = lg_list l @ [e]" "log_stored B b1 l1"
      "\<forall>k. \<not> is_log_key k \<longrightarrow> st_get B b1 k = st_get B b k" using s by auto
    then have "rc_append_loop B es (l1, b1) = (r, l', b')" using Cons.prems(3) a by simp
    from Cons.IH [OF s1(3) v(2) this] show ?thesis using s1(2,4) by simp
  qed
qed

lemma lg_truncate_stored:
  assumes "storage_reliable B" and "log_stored B b l" and "unat i < length (lg_list l)"
    and "(if i \<noteq> lg_last_index l then lg_removeEntriesWhereIndexGreater B i (l, b) else (None, l, b)) = (r, l', b')"
  shows "r = None \<and> lg_list l' = take (Suc (unat i)) (lg_list l) \<and> log_stored B b' l' \<and>
    (\<forall>k. \<not> is_log_key k \<longrightarrow> st_get B b' k = st_get B b k)"
proof (cases "i = lg_last_index l")
  case True
  then show ?thesis using assms(2,4) log_stored_bounds [OF assms(2)] by simp
next
  case False
  note l = log_stored_bounds [OF assms(2)]
  have "unat i \<noteq> unat (lg_last_index l)" using False unsigned_word_eqI by blast
  then have i: "unat i < unat (lg_last_index l)" "unat (i + 1) = Suc (unat i)" using assms(3) l by (auto simp: unat_word_ariths)
  have "0 < i + 1" using i(2) by (simp add: word_gt_0 unat_eq_0 [symmetric] del: unat_eq_0)
  then show ?thesis
    using lg_remove_stored [OF assms(1,2), of "i + 1" r l' b'] assms(4) False i l by (auto simp: lg_removeEntriesWhereIndexGreater_def)
qed

lemma append_entries_refines:
  assumes "storage_reliable B" and "log_stored B b (rc_log x)" and "list_all entry_valid (aq_entries q)"
    and "rc_appendEntries B q (x, b) = (s, x', b')"
  shows "(s, lg_list (rc_log x'), rc_commit_index x') = append_entries_spec q (lg_list (rc_log x)) (rc_commit_index x) \<and>
    log_stored B b' (rc_log x') \<and> (\<forall>k. \<not> is_log_key k \<longrightarrow> st_get B b' k = st_get B b k)"
proof -
  define l where "l = rc_log x"
  define prev where "prev = unat (aq_prev_log_index q)"
  have st: "log_stored B b l" using assms(2) by (simp add: l_def)
  note bd = log_stored_bounds [OF st]
  note get = bd(4) [of "aq_prev_log_index q", folded prev_def]
  note spec = append_entries_spec_def [of q "lg_list l" "rc_commit_index x", folded prev_def, unfolded Let_def]
  show ?thesis
  proof (cases "prev < length (lg_list l)")
    case False
    then have "s = Some False \<and> x' = x \<and> b' = b" using assms(4) get by (simp add: rc_appendEntries_def l_def)
    then show ?thesis using False st spec by (simp add: l_def)
  next
    case True
    show ?thesis
    proof (cases "en_term (lg_list l ! prev) = aq_prev_log_term q")
      case False
      obtain r l1 b1 where d: "lg_removeEntriesWhereIndexGreaterOrEqual B (aq_prev_log_index q) (l, b) = (r, l1, b1)"
        by (metis prod_cases3)
      have e: "s = (if r = None then Some False else None)" "rc_log x' = l1" "rc_commit_index x' = rc_commit_index x" "b' = b1"
        using assms(4) get True False d by (auto simp: rc_appendEntries_def l_def [symmetric])
      show ?thesis
      proof (cases "prev = 0")
        case z: True
        then have "aq_prev_log_index q = 0" by (simp add: prev_def unat_eq_0)
        then have "r \<noteq> None" "l1 = l" "b1 = b" using d by (auto simp: lg_removeEntriesWhereIndexGreaterOrEqual_def)
        then show ?thesis using e st spec True False z by (simp add: l_def)
      next
        case nz: False
        have "r = None \<and> lg_list l1 = take prev (lg_list l) \<and> log_stored B b1 l1 \<and>
            (\<forall>k. \<not> is_log_key k \<longrightarrow> st_get B b1 k = st_get B b k)"
          using lg_remove_stored [OF assms(1) st _ _ _ d] nz True bd by (auto simp: prev_def word_gt_0 unat_eq_0)
        then show ?thesis using e spec True False nz by (simp add: l_def)
      qed
    next
      case eq: True
      obtain r1 l1 b1 where d: "(if aq_prev_log_index q \<noteq> lg_last_index l
          then lg_removeEntriesWhereIndexGreater B (aq_prev_log_index q) (l, b) else (None, l, b)) = (r1, l1, b1)" by (metis prod_cases3)
      have t: "r1 = None" "lg_list l1 = take (Suc prev) (lg_list l)" "log_stored B b1 l1"
        "\<forall>k. \<not> is_log_key k \<longrightarrow> st_get B b1 k = st_get B b k"
        using lg_truncate_stored [OF assms(1) st _ d] True by (auto simp: prev_def)
      obtain r2 l2 b2 where a: "rc_append_loop B (aq_entries q) (l1, b1) = (r2, l2, b2)" by (metis prod_cases3)
      note p = append_loop_stored [OF assms(1) t(3) assms(3) a]
      have e: "s = (if r2 = None then Some True else None)" "rc_log x' = l2" "b' = b2"
        "rc_commit_index x' = (if r2 = None \<and> aq_leader_commit q > rc_commit_index x
           then min (aq_leader_commit q) (lg_last_index l2) else rc_commit_index x)"
        using assms(4) get True eq d t(1) a by (auto simp: rc_appendEntries_def l_def [symmetric] Let_def split: if_splits)
      have "lg_last_index l2 = word_of_nat (length (lg_list l2) - 1)" using log_stored_bounds [of B b2 l2] p by simp
      then show ?thesis using e p t(2,4) spec True eq by (simp add: l_def not_le)
    qed
  qed
qed

lemma adopt_term_stored:
  assumes "storage_reliable B" and "ps_stored B b p" and "ps_current_term p < t" and "rc_adopt_term B t (p, b) = (r, p', b')"
  shows "r = None \<and> p' = p\<lparr>ps_current_term := t, ps_voted_for := 0\<rparr> \<and> ps_stored B b' p'"
proof -
  obtain r1 p1 b1 where s: "ps_setCurrentTerm B t (p, b) = (r1, p1, b1)" by (metis prod_cases3)
  have t: "r1 = None" "p1 = p\<lparr>ps_current_term := t\<rparr>" "ps_stored B b1 p1"
    using ps_setCurrentTerm_stored [OF assms(1,2) s] assms(3) by (auto simp: less_not_sym split: if_splits)
  then have "ps_setVotedFor B 0 (p1, b1) = (r, p', b')" using assms(4) s by (simp add: rc_adopt_term_def ps_resetVotedFor_def)
  from ps_setVotedFor_stored [OF assms(1) t(3) this] show ?thesis using t(2) by (auto simp: node_id_isValid_def)
qed

lemma append_entries_other:
  assumes "rc_appendEntries B q (x, b) = (s, x', b')"
  shows "rc_persistent_state x' = (rc_persistent_state x)\<lparr>ps_log := rc_log x'\<rparr>" "rc_server_state x' = rc_server_state x"
  using assms by (auto simp: rc_appendEntries_def Let_def split: option.splits prod.splits if_splits)

definition ae_request_valid :: "ae_request \<Rightarrow> bool" where
  "ae_request_valid q \<longleftrightarrow> list_all (\<lambda>e. entry_valid e \<and> en_term e \<le> aq_term q) (aq_entries q)"

lemma append_entries_spec_entries:
  "append_entries_spec q es c = (s, es', c') \<Longrightarrow> set es' \<subseteq> set es \<union> set (aq_entries q)"
  using set_take_subset [of _ es] set_take_subset [of 128 "take (Suc (unat (aq_prev_log_index q))) es @ aq_entries q"]
  by (auto simp: append_entries_spec_def Let_def split: if_splits dest!: in_set_takeD)

lemma append_entries_spec_success:
  "append_entries_spec q es c = (Some True, es', c') \<Longrightarrow>
    unat (aq_prev_log_index q) < length es \<and> es' = take (Suc (unat (aq_prev_log_index q))) es @ aq_entries q \<and>
    c' = (if aq_leader_commit q > c then min (aq_leader_commit q) (word_of_nat (length es' - 1)) else c)"
  by (auto simp: append_entries_spec_def Let_def split: if_splits)

lemma append_entries_stored:
  assumes "storage_reliable B" and "ps_stored B b (rc_persistent_state x)" and "ae_request_valid q" and "aq_term q = rc_term x"
    and "rc_appendEntries B q (x, b) = (s, x', b')"
  shows "(s, lg_list (rc_log x'), rc_commit_index x') = append_entries_spec q (lg_list (rc_log x)) (rc_commit_index x) \<and>
    ps_stored B b' (rc_persistent_state x')"
proof -
  have v: "list_all entry_valid (aq_entries q)" using assms(3) by (simp add: ae_request_valid_def list_all_iff)
  have l: "log_stored B b (rc_log x)" using assms(2) by (simp add: ps_stored_def)
  note a = append_entries_refines [OF assms(1) l v assms(5)]
  have "set (lg_list (rc_log x')) \<subseteq> set (lg_list (rc_log x)) \<union> set (aq_entries q)"
    using a append_entries_spec_entries by (metis (no_types))
  then have "set (lg_list (rc_log x')) \<subseteq> set (lg_list (rc_log x)) \<union> {e. en_term e \<le> rc_term x}"
    using assms(3,4) by (auto simp: ae_request_valid_def list_all_iff)
  then have "ps_stored B b' ((rc_persistent_state x)\<lparr>ps_log := rc_log x'\<rparr>)"
    using a by (intro ps_log_stored [OF assms(2)]) simp_all
  then show ?thesis using a append_entries_other(1) [OF assms(5)] by simp
qed

lemma switchState_keeps:
  "rc_switchState s x = (os, x') \<Longrightarrow> rc_persistent_state x' = rc_persistent_state x \<and> rc_commit_index x' = rc_commit_index x \<and>
     rc_server_state x' = s"
  by (auto simp: rc_switchState_def split: if_splits)

lemma registerActivity_keeps [simp]:
  "rc_persistent_state (rc_registerActivity F E x) = rc_persistent_state x"
  "rc_commit_index (rc_registerActivity F E x) = rc_commit_index x"
  by (simp_all add: rc_registerActivity_def Let_def)

lemma append_request_correct:
  assumes "storage_reliable B" and "ps_stored B b (rc_persistent_state x)" and "ae_request_valid q"
    and "rc_handleAppendEntriesRequest F E B src q (x, b) = (r, os, x', b')"
  shows "ps_stored B b' (rc_persistent_state x') \<and>
    (if \<not> cm_isKnownServer F src (rc_cluster x) \<and> cm_isClusterDiscovered (rc_cluster x) then r = None \<and> os = [] \<and> x' = x \<and> b' = b
     else if aq_term q < rc_term x
     then r = Some \<lparr>ar_term = rc_term x, ar_success = False\<rparr> \<and> os = [] \<and> rc_persistent_state x' = rc_persistent_state x \<and>
       rc_commit_index x' = rc_commit_index x \<and> b' = b
     else rc_server_state x' = ServerStateFollower \<and> rc_term x' = aq_term q \<and>
       (\<exists>s. r = map_option (\<lambda>s. \<lparr>ar_term = aq_term q, ar_success = s\<rparr>) s \<and>
         append_entries_spec q (lg_list (rc_log x)) (rc_commit_index x) = (s, lg_list (rc_log x'), rc_commit_index x')))"
proof (cases "(\<not> cm_isKnownServer F src (rc_cluster x) \<and> cm_isClusterDiscovered (rc_cluster x)) \<or> aq_term q < rc_term x")
  case True
  have "aq_term q < rc_term x \<Longrightarrow> \<not> rc_term x < aq_term q" by (rule less_not_sym)
  then show ?thesis using True assms(2,4) by (auto simp: rc_handleAppendEntriesRequest_def split: if_splits)
next
  case False
  define y where "y = (if \<not> cm_isKnownServer F src (rc_cluster x)
    then x\<lparr>rc_cluster := cm_addServer F (rc_log x) src (rc_cluster x)\<rparr> else x)"
  have y: "rc_persistent_state y = rc_persistent_state x" "rc_commit_index y = rc_commit_index x" by (simp_all add: y_def)
  obtain r1 p b1 where u: "(if aq_term q > rc_term x then rc_adopt_term B (aq_term q) (rc_persistent_state x, b)
      else (None, rc_persistent_state x, b)) = (r1, p, b1)" by (metis prod_cases3)
  have p: "r1 = None" "ps_stored B b1 p" "ps_current_term p = aq_term q" "ps_log p = rc_log x"
    using u adopt_term_stored [OF assms(1,2), of "aq_term q" r1 p b1] False assms(2) by (auto split: if_splits)
  obtain o1 z where sw: "rc_switchState ServerStateFollower (rc_registerActivity F E (y\<lparr>rc_persistent_state := p\<rparr>)) = (o1, z)" by fastforce
  have z: "rc_persistent_state z = p" "rc_commit_index z = rc_commit_index x" "rc_server_state z = ServerStateFollower"
    using switchState_keeps [OF sw] y by simp_all
  obtain s where a: "rc_appendEntries B q (z, b1) = (s, x', b')"
    and r: "r = map_option (\<lambda>s. \<lparr>ar_term = ps_current_term p, ar_success = s\<rparr>) s"
    using assms(4) False u p(1,3) sw unfolding rc_handleAppendEntriesRequest_def
    by (auto simp: Let_def y_def [symmetric] y split: prod.splits if_splits)
  have "ps_stored B b1 (rc_persistent_state z)" "aq_term q = rc_term z" using p z by simp_all
  note s = append_entries_stored [OF assms(1) this(1) assms(3) this(2) a]
  have "ps_current_term (rc_persistent_state x') = ps_current_term p"
    by (subst append_entries_other(1) [OF a]) (simp add: z(1))
  then have "rc_server_state x' = ServerStateFollower" "rc_term x' = aq_term q"
    using append_entries_other(2) [OF a] z(3) p(3) by simp_all
  then show ?thesis using False s r z p by auto
qed

section \<open>Committing entries\<close>

lemma findServer_nth:
  "distinct (map sv_node_id ss) \<Longrightarrow> i < length ss \<Longrightarrow> cm_findServer (sv_node_id (ss ! i)) ss = Some (ss ! i)"
  by (induction ss arbitrary: i) (auto simp: nth_Cons split: nat.splits)

lemma num_nodes_with_next_entry:
  assumes "distinct (map sv_node_id (cm_servers (rc_cluster x)))" and "length (cm_servers (rc_cluster x)) < 255"
  shows "unat (rc_num_nodes_with_next_entry x) =
    Suc (length (filter (\<lambda>s. sv_match_index s > rc_commit_index x) (cm_servers (rc_cluster x))))"
proof -
  define c ss where "c = rc_cluster x" and "ss = cm_servers c"
  have d: "distinct (map sv_node_id ss)" "length ss < 255" using assms by (simp_all add: c_def ss_def)
  have i: "unat (word_of_nat i :: u8) = i" if "i < 256" for i using that by (simp add: unat_of_nat)
  have m: "cm_getServerMatchIndex (cm_getRemoteServerNodeIDAtIndex (word_of_nat i) c) c = sv_match_index (ss ! i)" if "i < length ss" for i
    using that d i [of i] findServer_nth [OF d(1) that] by (simp add: cm_getServerMatchIndex_def cm_getRemoteServerNodeIDAtIndex_def ss_def)
  let ?P = "\<lambda>s. sv_match_index s > rc_commit_index x"
  have "filter (\<lambda>i. cm_getServerMatchIndex (cm_getRemoteServerNodeIDAtIndex (word_of_nat i) c) c > rc_commit_index x) [0..<length ss] =
      filter (?P \<circ> (!) ss) [0..<length ss]"
    by (rule filter_cong) (simp_all add: m)
  then have "length (filter (\<lambda>i. cm_getServerMatchIndex (cm_getRemoteServerNodeIDAtIndex (word_of_nat i) c) c > rc_commit_index x) [0..<length ss]) =
      length (filter ?P (map ((!) ss) [0..<length ss]))" by (simp add: filter_map)
  also have "\<dots> = length (filter ?P ss)" by (simp only: map_nth)
  finally have n: "rc_num_nodes_with_next_entry x = word_of_nat (Suc (length (filter ?P ss)))"
    using i [of "length ss"] d(2) by (simp add: rc_num_nodes_with_next_entry_def cm_getNumKnownServers_def c_def [symmetric] ss_def [symmetric])
  have "length (filter ?P ss) \<le> length ss" by (rule length_filter_le)
  then have "Suc (length (filter ?P ss)) < 256" using d(2) by linarith
  then show ?thesis unfolding n c_def [symmetric] ss_def [symmetric] by (rule i)
qed

lemma propagate_commit_correct:
  assumes "distinct (map sv_node_id (cm_servers (rc_cluster x)))" and "length (cm_servers (rc_cluster x)) < 255"
    and "rc_propagateCommitIndex x = (os, x')"
  shows "if rc_commit_index x < lg_last_index (rc_log x) \<and>
       unat (cm_cluster_size (rc_cluster x)) div 2 \<le> length (filter (\<lambda>s. sv_match_index s > rc_commit_index x) (cm_servers (rc_cluster x)))
     then x' = x\<lparr>rc_commit_index := rc_commit_index x + 1\<rparr> \<and> unat (rc_commit_index x') = unat (rc_commit_index x) + 1 \<and>
       os = [LogCommitOnLeader (lg_entries (rc_log x) ! (unat (rc_commit_index x) + 1))]
     else x' = x \<and> os = []"
proof -
  have q: "rc_num_nodes_with_next_entry x \<ge> cm_getQuorumSize (rc_cluster x) \<longleftrightarrow>
      unat (cm_cluster_size (rc_cluster x)) div 2 \<le> length (filter (\<lambda>s. sv_match_index s > rc_commit_index x) (cm_servers (rc_cluster x)))"
    by (simp add: word_le_nat_alt num_nodes_with_next_entry [OF assms(1,2)] quorum_unat)
  have "unat (rc_commit_index x + 1) = unat (rc_commit_index x) + 1" if "rc_commit_index x < lg_last_index (rc_log x)"
    using that unat_u8_lt [of "lg_last_index (rc_log x)"] by (simp add: word_less_nat_alt unat_word_ariths)
  then show ?thesis using assms(3) q by (auto simp: rc_propagateCommitIndex_def Let_def split: if_splits)
qed

section \<open>An example\<close>

definition replication_start :: "raft_core \<times> (string \<Rightarrow> string)" where
  "replication_start =
    (let (r, p, b) = ps_init example_backend (PersistentState, \<lambda>_. [])
     in ((RaftCore (raft_example_config 2) 0)\<lparr>rc_persistent_state := p\<rparr>, b))"

definition replication_entry :: "node_id \<Rightarrow> raft_entry" where
  "replication_entry n = \<lparr>en_term = 1, en_unique_id = replicate 16 7, en_node_id = n\<rparr>"

definition replication_request :: "raft_entry list \<Rightarrow> u8 \<Rightarrow> ae_request" where
  "replication_request es c =
    \<lparr>aq_term = 1, aq_prev_log_term = 0, aq_prev_log_index = 0, aq_leader_commit = c, aq_entries = es\<rparr>"

definition replication_step ::
  "ae_request \<Rightarrow> raft_core \<times> (string \<Rightarrow> string) \<Rightarrow> ae_response option \<times> raft_output list \<times> raft_core \<times> (string \<Rightarrow> string)" where
  "replication_step q xb = rc_handleAppendEntriesRequest (raft_example_config 2) (raft_example_env 5) example_backend 1 q xb"

lemma replication_start_stored:
  assumes "replication_start = (x, b)"
  shows "ps_stored example_backend b (rc_persistent_state x)"
proof -
  obtain r p b' where i: "ps_init example_backend (PersistentState, \<lambda>_. []) = (r, p, b')" by (metis prod_cases3)
  have "fst (ps_init example_backend (PersistentState, \<lambda>_. [])) = None" by code_simp
  then have "ps_init example_backend (PersistentState, \<lambda>_. []) = (None, p, b')" using i by simp
  from ps_start_stored [OF example_backend_reliable _ this] show ?thesis
    using i assms by (auto simp: replication_start_def example_backend_def)
qed

lemma replication_request_valid:
  "list_all (\<lambda>n. n \<le> 127) ns \<Longrightarrow> ae_request_valid (replication_request (map replication_entry ns) c)"
  by (auto simp: ae_request_valid_def replication_request_def replication_entry_def entry_valid_def list_all_iff UniqueID_MaxSize_def
      node_id_isValid_def node_id_Max_def)

lemma replication_evaluated:
  "(let (r1, o1, x1, b1) = replication_step (replication_request (map replication_entry [5, 6]) 2) replication_start;
        (r2, o2, x2, b2) = replication_step (replication_request (map replication_entry [5]) 0) (x1, b1)
    in (r1, rc_commit_index x1, lg_last_index (rc_log x1), r2, rc_commit_index x2, lg_last_index (rc_log x2))) =
   (Some \<lparr>ar_term = 1, ar_success = True\<rparr>, 2, 2, Some \<lparr>ar_term = 1, ar_success = True\<rparr>, 2, 1)"
  by code_simp

section \<open>Properties\<close>

text \<open>
  C11. On a storage that keeps what is written, the handler of requests to append entries refines the
  specification on lists.  A request from an unknown server is ignored once the cluster is complete; one of an
  older term is rejected; any other makes the server a follower in the term of the request.  If the entry
  before the new ones is missing, the request is rejected; if its term differs, it is removed together with what
  follows; otherwise the new entries replace what follows, up to the capacity, and the commit index advances
  to that of the leader.  In every case the persistent state is what the storage would restore.
\<close>

theorem append_entries_request_refines:
  assumes "storage_reliable B" and "ps_stored B b (rc_persistent_state x)" and "ae_request_valid q"
    and "rc_handleAppendEntriesRequest F E B src q (x, b) = (r, os, x', b')"
  shows "ps_stored B b' (rc_persistent_state x') \<and>
    (if \<not> cm_isKnownServer F src (rc_cluster x) \<and> cm_isClusterDiscovered (rc_cluster x) then r = None \<and> os = [] \<and> x' = x \<and> b' = b
     else if aq_term q < rc_term x
     then r = Some \<lparr>ar_term = rc_term x, ar_success = False\<rparr> \<and> os = [] \<and> rc_persistent_state x' = rc_persistent_state x \<and>
       rc_commit_index x' = rc_commit_index x \<and> b' = b
     else rc_server_state x' = ServerStateFollower \<and> rc_term x' = aq_term q \<and>
       (\<exists>s. r = map_option (\<lambda>s. \<lparr>ar_term = aq_term q, ar_success = s\<rparr>) s \<and>
         append_entries_spec q (lg_list (rc_log x)) (rc_commit_index x) = (s, lg_list (rc_log x'), rc_commit_index x')))"
  by (rule append_request_correct [OF assms])

theorem append_entries_request_refines_witness:
  "let (r, os, x, b) = replication_step (replication_request (map replication_entry [5, 6]) 2) replication_start
   in ps_stored example_backend b (rc_persistent_state x)"
proof -
  obtain r os x b where h: "replication_step (replication_request (map replication_entry [5, 6]) 2) replication_start = (r, os, x, b)"
    by (metis prod_cases4)
  obtain x0 b0 where s: "replication_start = (x0, b0)" by fastforce
  have "ae_request_valid (replication_request (map replication_entry [5, 6]) 2)" by (rule replication_request_valid) simp
  from append_entries_request_refines [OF example_backend_reliable replication_start_stored [OF s] this h [unfolded replication_step_def s]]
  show ?thesis using h by simp
qed

text \<open>
  C25. A leader advances its commit index by one, and announces the entry at the new index, exactly if the log
  has such an entry and, with the leader, a majority of the cluster has it.  The term of the entry is not
  considered.
\<close>

theorem propagate_commit_index:
  assumes "cm_inv F (rc_cluster x)" and "length (cm_servers (rc_cluster x)) < 255" and "rc_propagateCommitIndex x = (os, x')"
  shows "if rc_commit_index x < lg_last_index (rc_log x) \<and>
       unat (cm_cluster_size (rc_cluster x)) < 2 * (1 + length (filter (\<lambda>s. sv_match_index s > rc_commit_index x) (cm_servers (rc_cluster x))))
     then x' = x\<lparr>rc_commit_index := rc_commit_index x + 1\<rparr> \<and> unat (rc_commit_index x') = unat (rc_commit_index x) + 1 \<and>
       os = [LogCommitOnLeader (lg_entries (rc_log x) ! unat (rc_commit_index x'))]
     else x' = x \<and> os = []"
proof -
  have "n < 2 * (1 + m) \<longleftrightarrow> n div 2 \<le> m" for n m :: nat by presburger
  then show ?thesis using propagate_commit_correct [OF _ assms(2,3)] assms(1) by (auto simp: cm_inv_def split: if_splits)
qed

theorem propagate_commit_index_witness:
  "rc_commit_index (snd (rc_propagateCommitIndex ((RaftCore (raft_example_config 2) 0)\<lparr>
     rc_persistent_state := PersistentState\<lparr>ps_log := Log\<lparr>lg_last_index := 3\<rparr>\<rparr>,
     rc_cluster := \<lparr>cm_servers = [\<lparr>sv_node_id = 1, sv_next_index = 2, sv_match_index = 1\<rparr>], cm_cluster_size = 3, cm_timer_running = False\<rparr>\<rparr>))) = 1"
proof -
  define x where "x = (RaftCore (raft_example_config 2) 0)\<lparr>rc_persistent_state := PersistentState\<lparr>ps_log := Log\<lparr>lg_last_index := 3\<rparr>\<rparr>,
     rc_cluster := \<lparr>cm_servers = [\<lparr>sv_node_id = 1, sv_next_index = 2, sv_match_index = 1\<rparr>], cm_cluster_size = 3, cm_timer_running = False\<rparr>\<rparr>"
  obtain os x' where p: "rc_propagateCommitIndex x = (os, x')" by fastforce
  have "cm_inv (raft_example_config 2) (rc_cluster x)"
    by (simp add: x_def cm_inv_def raft_example_config_def node_id_isUnicast_def node_id_isValid_def node_id_Max_def node_id_Broadcast_def)
  from propagate_commit_index [OF this _ p] show ?thesis using p unfolding x_def [symmetric] by (simp add: x_def RaftCore_def)
qed

text \<open>
  C31. When a request to append entries succeeds, the commit index stays within the log exactly if the request
  raises it, or if what the request leaves of the log reaches it.  A request that repeats an older one removes
  entries of the log, also entries that are committed: the assertion
  \<^verbatim>\<open>commit_index_ <= getLastIndex()\<close> of \<^verbatim>\<open>checkInvariants\<close> then does not hold.
\<close>

theorem append_entries_commit_index:
  assumes "storage_reliable B" and "ps_stored B b (rc_persistent_state x)" and "ae_request_valid q"
    and "rc_handleAppendEntriesRequest F E B src q (x, b) = (Some \<lparr>ar_term = t, ar_success = True\<rparr>, os, x', b')"
  shows "rc_commit_index x' \<le> lg_last_index (rc_log x') \<longleftrightarrow>
    rc_commit_index x < aq_leader_commit q \<or> unat (rc_commit_index x) \<le> unat (aq_prev_log_index q) + length (aq_entries q)"
proof -
  note h = append_request_correct [OF assms]
  then obtain z where z: "Some \<lparr>ar_term = t, ar_success = True\<rparr> = map_option (\<lambda>s. \<lparr>ar_term = aq_term q, ar_success = s\<rparr>) z"
    "append_entries_spec q (lg_list (rc_log x)) (rc_commit_index x) = (z, lg_list (rc_log x'), rc_commit_index x')"
    by (simp split: if_splits) blast+
  then have s: "append_entries_spec q (lg_list (rc_log x)) (rc_commit_index x) = (Some True, lg_list (rc_log x'), rc_commit_index x')"
    by (cases z) simp_all
  have l: "length (lg_list (rc_log x')) = Suc (unat (lg_last_index (rc_log x')))"
    using h log_stored_bounds(3) [of B b' "rc_log x'"] by (simp add: ps_stored_def)
  have e: "unat (aq_prev_log_index q) < length (lg_list (rc_log x))"
    "lg_list (rc_log x') = take (Suc (unat (aq_prev_log_index q))) (lg_list (rc_log x)) @ aq_entries q"
    and c: "rc_commit_index x' = (if aq_leader_commit q > rc_commit_index x
      then min (aq_leader_commit q) (word_of_nat (length (lg_list (rc_log x')) - 1)) else rc_commit_index x)"
    using append_entries_spec_success [OF s] by simp_all
  have "length (lg_list (rc_log x')) = Suc (unat (aq_prev_log_index q)) + length (aq_entries q)"
    unfolding e(2) using e(1) by simp
  then have u: "unat (lg_last_index (rc_log x')) = unat (aq_prev_log_index q) + length (aq_entries q)" using l by simp
  have "word_of_nat (length (lg_list (rc_log x')) - 1) = lg_last_index (rc_log x')" using l by simp
  then have "rc_commit_index x' = (if aq_leader_commit q > rc_commit_index x
      then min (aq_leader_commit q) (lg_last_index (rc_log x')) else rc_commit_index x)" using c by simp
  then show ?thesis using u by (cases "rc_commit_index x < aq_leader_commit q") (simp, simp add: word_le_nat_alt)
qed

theorem append_entries_commit_index_witness:
  "let (r1, o1, x1, b1) = replication_step (replication_request (map replication_entry [5, 6]) 2) replication_start;
       (r2, o2, x2, b2) = replication_step (replication_request (map replication_entry [5]) 0) (x1, b1)
   in rc_commit_index x1 \<le> lg_last_index (rc_log x1) \<and> \<not> rc_commit_index x2 \<le> lg_last_index (rc_log x2)"
proof -
  obtain r1 o1 x1 b1 where h1: "replication_step (replication_request (map replication_entry [5, 6]) 2) replication_start = (r1, o1, x1, b1)"
    by (metis prod_cases4)
  obtain x0 b0 where s: "replication_start = (x0, b0)" by fastforce
  obtain r2 o2 x2 b2 where h2: "replication_step (replication_request (map replication_entry [5]) 0) (x1, b1) = (r2, o2, x2, b2)"
    by (metis prod_cases4)
  have e: "r2 = Some \<lparr>ar_term = 1, ar_success = True\<rparr>" "rc_commit_index x1 = 2" "lg_last_index (rc_log x1) = 2"
    using replication_evaluated h1 h2 by simp_all
  have v: "ae_request_valid (replication_request (map replication_entry [5, 6]) 2)" "ae_request_valid (replication_request (map replication_entry [5]) 0)"
    by (rule replication_request_valid; simp)+
  have "ps_stored example_backend b1 (rc_persistent_state x1)"
    using append_request_correct [OF example_backend_reliable replication_start_stored [OF s] v(1) h1 [unfolded replication_step_def s]]
    by simp
  from append_entries_commit_index [OF example_backend_reliable this v(2) h2 [unfolded replication_step_def e(1)]]
  show ?thesis using h1 h2 e by (simp add: replication_request_def)
qed

end
