(* ===== verification/Spec2Isabelle.thy ===== *)
theory Spec2Isabelle
  imports UavPrelude UavTime Crc TransferTypes CanFrames Frames LinkedLists PoolAllocators KvMaps TransferBuffers TransferReceivers TransferListeners CanIo Dispatchers Senders BitStreams Multisets AcceptanceFilters StorageMarshallers RaftLogs RaftClusters RaftCores RaftNets RaftReplications
begin

text \<open>
  \<^bold>\<open>A verification of libuavcan\<close>, the C++ implementation of the UAVCAN protocol stack
  (src/libuavcan, cited below relative to that directory; \<open>include\<close> stands for include/uavcan).

  \<^bold>\<open>The program and its model.\<close>  A node sends and receives transfers, sequences of bytes of a data type,
  over one or more CAN buses.  The stack has these layers, each modelled by the theories named.

  \<^item> Base: \<^verbatim>\<open>UavPrelude\<close> (types, error codes of include/error.hpp, lists with the operations of intrusive
    lists), \<^verbatim>\<open>UavTime\<close> (include/time.hpp: durations and time points as 64-bit words, with saturation),
    \<^verbatim>\<open>Crc\<close> (include/transport/crc.hpp: the table-driven CRC), \<^verbatim>\<open>TransferTypes\<close> (include/data_type.hpp,
    include/transport/transfer.hpp: transfer IDs modulo 32, node IDs, priorities, signatures).

  \<^item> Containers and memory: \<^verbatim>\<open>LinkedLists\<close> (include/util/linked_list.hpp over an explicit heap of
    nodes), \<^verbatim>\<open>PoolAllocators\<close> (include/dynamic_memory.hpp: the free list inside the pool, the quota of
    \<^verbatim>\<open>LimitedPoolAllocator\<close>; the locale \<open>pool_allocator\<close> is the contract that the clients use),
    \<^verbatim>\<open>KvMaps\<close> (include/util/map.hpp, with the locale \<open>kv_container\<close>), \<^verbatim>\<open>Multisets\<close>
    (include/util/multiset.hpp).  The containers keep their items in blocks of the pool; the address of a
    block is part of the model, so leaks and double frees are visible.

  \<^item> Frames: \<^verbatim>\<open>CanFrames\<close> (src/driver/uc_can.cpp: arbitration order), \<^verbatim>\<open>Frames\<close> (src/transport/uc_frame.cpp:
    the bit fields of the CAN ID and of the tail byte).

  \<^item> Reception: \<^verbatim>\<open>TransferBuffers\<close> (src/transport/uc_transfer_buffer.cpp; locale \<open>transfer_buffer\<close>),
    \<^verbatim>\<open>TransferReceivers\<close> (src/transport/uc_transfer_receiver.cpp: the state machine that assembles a
    transfer), \<^verbatim>\<open>TransferListeners\<close> (src/transport/uc_transfer_listener.cpp: one receiver per source,
    CRC, timeouts).

  \<^item> Transmission and routing: \<^verbatim>\<open>CanIo\<close> (src/transport/uc_can_io.cpp: the transmission queue and the
    IO manager over a driver and a clock that are parameters), \<^verbatim>\<open>Dispatchers\<close>
    (src/transport/uc_dispatcher.cpp, uc_outgoing_transfer_registry.cpp: registries of listeners, transfer
    IDs of outgoing transfers, the spin loops), \<^verbatim>\<open>Senders\<close> (src/transport/uc_transfer_sender.cpp: cutting a
    transfer into frames), \<^verbatim>\<open>AcceptanceFilters\<close> (src/transport/uc_can_acceptance_filter_configurator.cpp:
    the hardware filters of a node).

  \<^item> Marshalling: \<^verbatim>\<open>BitStreams\<close> (src/marshal/uc_bit_array_copy.cpp, uc_bit_stream.cpp,
    uc_scalar_codec.cpp, include/marshal/integer_spec.hpp; locales \<open>bit_buffer\<close> and
    \<open>fixed_bit_buffer\<close>, interpreted on the buffers of the transport layer).

  \<^item> Allocation of node IDs (include/protocol/dynamic_node_id_server): \<^verbatim>\<open>StorageMarshallers\<close>
    (storage_marshaller.hpp, node_id_selector.hpp: numbers and unique IDs as strings in a key-value storage,
    the choice of a free node ID), \<^verbatim>\<open>RaftLogs\<close> (distributed/log.hpp, persistent_state.hpp),
    \<^verbatim>\<open>RaftClusters\<close> (distributed/cluster_manager.hpp), \<^verbatim>\<open>RaftCores\<close> (distributed/raft_core.hpp: every
    handler), \<^verbatim>\<open>RaftNets\<close> (a cluster of such servers and the messages between them) and
    \<^verbatim>\<open>RaftReplications\<close> (what the handlers do to the log).

  \<^bold>\<open>Correspondence.\<close>  A class is a record, an enumeration a datatype, a method a function that takes and
  returns the state it changes; the memory pool is passed along where the method allocates.  Machine
  integers are words of their width.  A method that reports an error returns a sum or an option; a method
  that may call the handler of fatal errors is marked.  Names keep those of the source after a prefix of
  the class.  Loops are recursive functions with termination proofs; the two loops whose end depends on
  the clock (\<^verbatim>\<open>CanIOManager::send\<close>/\<^verbatim>\<open>receive\<close> and \<^verbatim>\<open>Dispatcher::spin\<close>) are partial functions, and are
  shown to return when the clock advances.

  In the Raft theories a service client is the list of its pending calls; constants of the generated data
  types are fields of \<^verbatim>\<open>raft_config\<close>; time, random numbers and the acceptance of calls by the transport are
  fields of \<^verbatim>\<open>raft_env\<close>, chosen anew for every event.  The storage backend is a parameter; where a theorem
  needs it, \<^verbatim>\<open>storage_reliable\<close> says that it keeps what is written, and \<^verbatim>\<open>example_backend\<close> satisfies it.
  A step of a cluster is a timer event, an arriving request or response, a discovery message, an appended
  entry or a restart.  Handlers are atomic, and a response to a request for a vote is matched with the request
  itself, where the code compares the server and the transfer ID.  A restarted server has the term, the vote and the log that it had before; that the
  storage provides this is the theorem \<^verbatim>\<open>persistent_state_durable\<close>.

  \<^bold>\<open>What is shown.\<close>  Containers and buffers refine lists, finite maps and multisets and neither leak nor lose
  blocks of the pool.  A receiver delivers each transfer that arrives in order, a listener hands it over once its
  CRC is right, and a transfer that is cut into frames by the sender is delivered as it was sent.
  Queues keep the order of arbitration, registries offer a frame to all its listeners, filters accept all wanted
  frames, the loops end.  Integers and frames survive encoding and decoding.  A Raft cluster has at most one leader
  per term, the assertions of the code on elections and on the transport hold, the handler of requests to
  append entries refines a specification on lists, and the commit rule is the counting of replicas.
  Some theorems describe what the code does where that is not what it is meant to do: the quota that
  failed allocations use up, the buffer that a wrong CRC leaves filled, the data type ID of anonymous frames,
  and the committed entries that a repeated request removes from the log.

  \<^bold>\<open>Not modelled.\<close>  The drivers and applications (hardware registers, sockets, file systems), the compiler
  of data type definitions and the code it generates, the templates that only forward to that code
  (publishers, subscribers, service clients and servers), the protocol services built from them, the
  scheduler of deadlines (the handlers that it calls take the time as an argument), the message handlers around
  the Raft core (allocation requests, node discovery), conversion to strings, arrays of generated types, and the
  floating-point codec.  Drivers and clocks are parameters.
\<close>

end
